(* ===== verification/FQ_Prelude.thy ===== *)
theory FQ_Prelude
  imports Main "HOL-Library.Word" "HOL-Library.Multiset" "HOL-Library.Monad_Syntax"
begin

text \<open>
  Shared vocabulary of the development: Go's machine integers, instants and durations,
  the errors the program returns, and the generic facts on lists, maps and words that the
  component theories rely on.

  \<^item> An unsigned Go integer is a word of its width. A signed one (\<^verbatim>\<open>int\<close>, \<^verbatim>\<open>int64\<close>,
    \<^verbatim>\<open>time.Duration\<close>) is an \<^typ>\<open>int\<close>; where the code does arithmetic on it the result
    goes through \<open>wrap64\<close>, the two's complement wrap-around of a 64-bit platform.
  \<^item> A \<^verbatim>\<open>time.Time\<close> is the number of nanoseconds since 1 January of year 1, UTC, which is
    Go's zero time; \<^verbatim>\<open>IsZero\<close> is equality with \<open>zero_time\<close>. The range of \<^verbatim>\<open>time.Time\<close>
    (hundreds of billions of years) is treated as unbounded.
  \<^item> An error is a value of \<open>error\<close>; a fallible call returns \<open>'a result\<close>, \<open>Inl\<close> for the
    error. A Go panic is the value \<^const>\<open>None\<close> of an option around the whole result.
\<close>

section \<open>Machine integers\<close>

type_synonym byte = "8 word"
type_synonym u32 = "32 word"
type_synonym u64 = "64 word"

definition wrap64 :: "int \<Rightarrow> int" where
  "wrap64 x = (x + 2 ^ 63) mod 2 ^ 64 - 2 ^ 63"

definition int64_range :: "int \<Rightarrow> bool" where
  "int64_range x \<longleftrightarrow> - (2 ^ 63) \<le> x \<and> x < 2 ^ 63"

lemma wrap64_id: "int64_range x \<Longrightarrow> wrap64 x = x"
  by (simp add: wrap64_def int64_range_def)

lemma wrap64_range: "int64_range (wrap64 x)"
proof -
  have "0 \<le> (x + 2 ^ 63) mod 2 ^ 64" "(x + 2 ^ 63) mod 2 ^ 64 < 2 ^ 64"
    by simp_all
  then show ?thesis by (simp add: wrap64_def int64_range_def)
qed

lemma wrap64_cong: "wrap64 x mod 2 ^ 64 = x mod 2 ^ 64"
  by (simp add: wrap64_def mod_diff_left_eq)

section \<open>Instants and durations\<close>

type_synonym gotime = int
type_synonym duration = int

definition zero_time :: gotime where
  "zero_time = 0"

definition Millisecond :: duration where
  "Millisecond = 1000000"

definition Second :: duration where
  "Second = 1000 * Millisecond"

definition Hour :: duration where
  "Hour = 3600 * Second"

text \<open>Seconds from year 1 to the Unix epoch, the constant of Go's \<^verbatim>\<open>time\<close> package.\<close>

definition unixToInternal :: int where
  "unixToInternal = 62135596800"

definition UnixMilli :: "int \<Rightarrow> gotime" where
  "UnixMilli ms = unixToInternal * Second + ms * Millisecond"

definition UnixNano :: "gotime \<Rightarrow> int" where
  "UnixNano t = wrap64 (t - unixToInternal * Second)"

section \<open>Errors\<close>

text \<open>
  One constructor per error value or message the sources build. \<open>ErrOS\<close> is an error of a
  system call, \<open>ErrLogUnusable\<close> and \<open>ErrReopen\<close> wrap another error with \<^verbatim>\<open>%w\<close>.
\<close>

datatype error =
    ErrNoLease
  | ErrPriorityDisabled
  | ErrQueueExists
  | ErrQueueNotFound
  | ErrStaleBookmark u64 u64
  | ErrCorrupt nat string
  | ErrOffsetNegative int
  | ErrOffsetPastEnd int nat
  | ErrMarshal
  | ErrRecordTooLarge nat
  | ErrOS string
  | ErrLogUnusable error
  | ErrReopen error
  | ErrUnknownQueue nat string
  | ErrRecover error
  | ErrNameRequired
  | ErrNameChars
  | ErrMode
  | ErrCanceled
  | ErrFieldNegative string
  | ErrFieldTooLarge string int
  | ErrMessage string

type_synonym 'a result = "error + 'a"

text \<open>\<^verbatim>\<open>errors.Is\<close>: follow the \<^verbatim>\<open>%w\<close> chain until the target is met.\<close>

fun errors_Is :: "error \<Rightarrow> error \<Rightarrow> bool" where
  "errors_Is (ErrLogUnusable e) t = (ErrLogUnusable e = t \<or> errors_Is e t)"
| "errors_Is (ErrReopen e) t = (ErrReopen e = t \<or> errors_Is e t)"
| "errors_Is (ErrRecover e) t = (ErrRecover e = t \<or> errors_Is e t)"
| "errors_Is e t = (e = t)"

section \<open>Lists\<close>

lemma mset_swap_list:
  "i < length xs \<Longrightarrow> j < length xs \<Longrightarrow> mset (xs[i := xs ! j, j := xs ! i]) = mset xs"
  by (rule mset_swap)

lemma distinct_swap_list:
  "i < length xs \<Longrightarrow> j < length xs \<Longrightarrow> distinct (xs[i := xs ! j, j := xs ! i]) = distinct xs"
  by (rule distinct_swap)

lemma mset_butlast_last:
  "xs \<noteq> [] \<Longrightarrow> mset xs = add_mset (last xs) (mset (butlast xs))"
  by (metis append_butlast_last_id mset.simps add.commute mset_append add_mset_add_single)

lemma distinct_mset_eq: "mset xs = mset ys \<Longrightarrow> distinct xs = distinct ys"
  by (metis mset_eq_imp_distinct_iff)

end
