(* ===== verification/FQ_Msg.thy ===== *)
theory FQ_Msg
  imports FQ_Prelude
begin

text \<open>
  The message of \<^verbatim>\<open>src/queue/msg.go\<close>, and the memory that holds messages. The program
  shares a message between a heap and the lease table by pointer and updates it through
  that pointer, so a message lives at a \<open>ref\<close> of a memory \<open>mem\<close> and every structure holds
  references.
\<close>

type_synonym Mode = string

definition FIFO :: Mode where
  "FIFO = ''fifo''"

definition LIFO :: Mode where
  "LIFO = ''lifo''"

record msg =
  ID :: string
  Body :: string
  Priority :: int
  Seq :: u64
  VisibleAt :: gotime
  EnqueuedAt :: gotime
  Attempts :: int
  Receipt :: string
  LeaseExpiry :: gotime
  index :: int

definition Ready :: "msg \<Rightarrow> gotime \<Rightarrow> bool" where
  "Ready m now \<longleftrightarrow> \<not> now < VisibleAt m"

text \<open>
  \<^verbatim>\<open>index\<close> is the heap's own bookkeeping and the only field that JSON does not carry:
  \<open>strip\<close> forgets it, and two memories agree up to bookkeeping when every message is equal
  after \<open>strip\<close>.
\<close>

definition strip :: "msg \<Rightarrow> msg" where
  "strip m = m\<lparr>index := 0\<rparr>"

type_synonym ref = nat
type_synonym mem = "ref \<Rightarrow> msg"

definition same_msgs :: "mem \<Rightarrow> mem \<Rightarrow> bool" where
  "same_msgs M N \<longleftrightarrow> (\<forall>r. strip (M r) = strip (N r))"

named_theorems msg_frame \<open>fields that survive a change of the cached index\<close>

lemma strip_sel [simp]:
  "ID (strip m) = ID m" "Body (strip m) = Body m" "Priority (strip m) = Priority m"
  "Seq (strip m) = Seq m" "VisibleAt (strip m) = VisibleAt m"
  "EnqueuedAt (strip m) = EnqueuedAt m" "Attempts (strip m) = Attempts m"
  "Receipt (strip m) = Receipt m" "LeaseExpiry (strip m) = LeaseExpiry m"
  "index (strip m) = 0"
  by (simp_all add: strip_def)

lemma strip_strip [simp]: "strip (strip m) = strip m"
  by (simp add: strip_def)

lemma strip_index [simp]: "strip (m\<lparr>index := i\<rparr>) = strip m"
  by (simp add: strip_def)

lemma strip_upd [simp]:
  "strip (m\<lparr>Attempts := a\<rparr>) = (strip m)\<lparr>Attempts := a\<rparr>"
  "strip (m\<lparr>Receipt := r\<rparr>) = (strip m)\<lparr>Receipt := r\<rparr>"
  "strip (m\<lparr>LeaseExpiry := t\<rparr>) = (strip m)\<lparr>LeaseExpiry := t\<rparr>"
  "strip (m\<lparr>VisibleAt := t\<rparr>) = (strip m)\<lparr>VisibleAt := t\<rparr>"
  by (simp_all add: strip_def)

lemma Ready_strip [simp]: "Ready (strip m) now = Ready m now"
  by (simp add: Ready_def)

lemma strip_eq_sel:
  assumes "strip m = strip n"
  shows "ID m = ID n" "Body m = Body n" "Priority m = Priority n" "Seq m = Seq n"
    "VisibleAt m = VisibleAt n" "EnqueuedAt m = EnqueuedAt n" "Attempts m = Attempts n"
    "Receipt m = Receipt n" "LeaseExpiry m = LeaseExpiry n"
  using assms by (metis strip_sel)+

lemma same_msgs_refl [simp, intro]: "same_msgs M M"
  by (simp add: same_msgs_def)

lemma same_msgs_trans [trans]: "same_msgs M N \<Longrightarrow> same_msgs N K \<Longrightarrow> same_msgs M K"
  by (simp add: same_msgs_def)

lemma same_msgs_sym: "same_msgs M N \<Longrightarrow> same_msgs N M"
  by (simp add: same_msgs_def)

lemma same_msgs_upd_index [intro]: "same_msgs M (M(p := (M p)\<lparr>index := i\<rparr>))"
  by (simp add: same_msgs_def)

lemma same_msgs_sel [msg_frame]:
  assumes "same_msgs M N"
  shows "ID (M r) = ID (N r)" "Body (M r) = Body (N r)" "Priority (M r) = Priority (N r)"
    "Seq (M r) = Seq (N r)" "VisibleAt (M r) = VisibleAt (N r)"
    "EnqueuedAt (M r) = EnqueuedAt (N r)" "Attempts (M r) = Attempts (N r)"
    "Receipt (M r) = Receipt (N r)" "LeaseExpiry (M r) = LeaseExpiry (N r)"
  using assms by (auto simp: same_msgs_def intro: strip_eq_sel)

lemma same_msgs_strip: "same_msgs M N \<Longrightarrow> strip (M r) = strip (N r)"
  by (simp add: same_msgs_def)

end
