(* ===== verification/FQ_Heaps.thy ===== *)
theory FQ_Heaps
  imports FQ_Msg
begin

text \<open>
  The binary heap of \<^verbatim>\<open>src/queue/heaps.go\<close> together with the operations of
  \<^verbatim>\<open>container/heap\<close> it is used through. The model keeps the slice of pointers, the
  messages they point to and the cached \<^verbatim>\<open>index\<close> of each message.

  The comparators are interpreted as instances of the interface \<open>msg_order\<close>: a strict weak
  order that does not look at the cached index. Everything about the heap is proved once,
  inside that interface.
\<close>

section \<open>The heap type and its methods\<close>

record msgHeap =
  items :: "ref list"
  less :: "msg \<Rightarrow> msg \<Rightarrow> bool"

definition newMsgHeap :: "(msg \<Rightarrow> msg \<Rightarrow> bool) \<Rightarrow> msgHeap" where
  "newMsgHeap l = \<lparr>items = [], less = l\<rparr>"

definition Len :: "msgHeap \<Rightarrow> nat" where
  "Len h = length (items h)"

definition Less :: "mem \<Rightarrow> msgHeap \<Rightarrow> nat \<Rightarrow> nat \<Rightarrow> bool" where
  "Less M h i j = less h (M (items h ! i)) (M (items h ! j))"

definition Swap :: "mem \<Rightarrow> msgHeap \<Rightarrow> nat \<Rightarrow> nat \<Rightarrow> mem \<times> msgHeap" where
  "Swap M h i j =
     (let xs = (items h)[i := items h ! j, j := items h ! i];
          M1 = M(xs ! i := (M (xs ! i))\<lparr>index := int i\<rparr>);
          M2 = M1(xs ! j := (M1 (xs ! j))\<lparr>index := int j\<rparr>)
      in (M2, h\<lparr>items := xs\<rparr>))"

definition Push :: "mem \<Rightarrow> msgHeap \<Rightarrow> ref \<Rightarrow> mem \<times> msgHeap" where
  "Push M h m =
     (M(m := (M m)\<lparr>index := int (length (items h))\<rparr>), h\<lparr>items := items h @ [m]\<rparr>)"

definition Pop :: "mem \<Rightarrow> msgHeap \<Rightarrow> mem \<times> msgHeap \<times> ref" where
  "Pop M h =
     (let m = last (items h)
      in (M(m := (M m)\<lparr>index := -1\<rparr>), h\<lparr>items := butlast (items h)\<rparr>, m))"

definition peek :: "msgHeap \<Rightarrow> ref option" where
  "peek h = (if length (items h) = 0 then None else Some (items h ! 0))"

section \<open>Comparators\<close>

definition orderBy :: "Mode \<Rightarrow> msg \<Rightarrow> msg \<Rightarrow> bool" where
  "orderBy mode a b =
     (if Priority a \<noteq> Priority b then Priority a > Priority b
      else if mode = LIFO then Seq a > Seq b
      else Seq a < Seq b)"

definition byVisibleAt :: "msg \<Rightarrow> msg \<Rightarrow> bool" where
  "byVisibleAt a b \<longleftrightarrow> VisibleAt a < VisibleAt b"

definition byLeaseExpiry :: "msg \<Rightarrow> msg \<Rightarrow> bool" where
  "byLeaseExpiry a b \<longleftrightarrow> LeaseExpiry a < LeaseExpiry b"

section \<open>The operations of container/heap\<close>

text \<open>
  \<open>up\<close> and \<open>down\<close> are the two sifting loops of \<^verbatim>\<open>container/heap\<close>; \<open>down\<close> also reports
  whether the element moved. \<open>heap_Pop\<close>, \<open>heap_Remove\<close> and \<open>heap_Fix\<close> are \<^const>\<open>None\<close>
  where Go panics with an index out of range: \<open>heap_Pop\<close> on an empty heap,
  \<open>heap_Remove\<close> at an index that is not a slot, \<open>heap_Fix\<close> likewise, except that
  \<open>heap_Fix\<close> at \<open>-1\<close>, or at \<open>0\<close> of an empty heap, does nothing.
\<close>

function up :: "mem \<Rightarrow> msgHeap \<Rightarrow> nat \<Rightarrow> mem \<times> msgHeap" where
  "up M h j =
     (let i = (j - 1) div 2
      in if i = j \<or> \<not> Less M h j i then (M, h)
         else (case Swap M h i j of (M', h') \<Rightarrow> up M' h' i))"
  by pat_completeness auto
termination
  by (relation "measure (\<lambda>(M, h, j). j)") auto

function down :: "mem \<Rightarrow> msgHeap \<Rightarrow> nat \<Rightarrow> nat \<Rightarrow> mem \<times> msgHeap \<times> bool" where
  "down M h i n =
     (let j1 = 2 * i + 1
      in if j1 \<ge> n then (M, h, False)
         else (let j = (if j1 + 1 < n \<and> Less M h (j1 + 1) j1 then j1 + 1 else j1)
               in if \<not> Less M h j i then (M, h, False)
                  else (case Swap M h i j of
                          (M', h') \<Rightarrow>
                            (case down M' h' j n of (M'', h'', _) \<Rightarrow> (M'', h'', True)))))"
  by pat_completeness auto
termination
  by (relation "measure (\<lambda>(M, h, i, n). n - i)") auto

declare up.simps [simp del] down.simps [simp del]

definition heap_Push :: "mem \<Rightarrow> msgHeap \<Rightarrow> ref \<Rightarrow> mem \<times> msgHeap" where
  "heap_Push M h x = (case Push M h x of (M', h') \<Rightarrow> up M' h' (Len h' - 1))"

definition heap_Pop :: "mem \<Rightarrow> msgHeap \<Rightarrow> (mem \<times> msgHeap \<times> ref) option" where
  "heap_Pop M h =
     (if Len h = 0 then None
      else (let n = Len h - 1
            in (case Swap M h 0 n of
                  (M', h') \<Rightarrow> (case down M' h' 0 n of (M'', h'', _) \<Rightarrow> Some (Pop M'' h'')))))"

definition heap_Remove :: "mem \<Rightarrow> msgHeap \<Rightarrow> int \<Rightarrow> (mem \<times> msgHeap \<times> ref) option" where
  "heap_Remove M h idx =
     (if idx < 0 \<or> int (Len h) \<le> idx then None
      else (let n = Len h - 1; i = nat idx
            in if n \<noteq> i
               then (case Swap M h i n of
                       (M1, h1) \<Rightarrow>
                         (case down M1 h1 i n of
                            (M2, h2, moved) \<Rightarrow>
                              (case (if moved then (M2, h2) else up M2 h2 i) of
                                 (M3, h3) \<Rightarrow> Some (Pop M3 h3))))
               else Some (Pop M h)))"

definition heap_Fix :: "mem \<Rightarrow> msgHeap \<Rightarrow> int \<Rightarrow> (mem \<times> msgHeap) option" where
  "heap_Fix M h idx =
     (if 0 \<le> idx \<and> idx < int (Len h)
      then (case down M h (nat idx) (Len h) of
              (M', h', moved) \<Rightarrow> Some (if moved then (M', h') else up M' h' (nat idx)))
      else if idx = -1 \<or> (idx = 0 \<and> Len h = 0) then Some (M, h)
      else None)"

section \<open>What sifting changes\<close>

text \<open>
  Whatever the comparator, a run of swaps below slot \<open>n\<close> permutes the slice, leaves the
  slots from \<open>n\<close> on alone, touches no message outside the heap, changes messages in their
  cached index only, and keeps the cached indices right.
\<close>

definition idx_ok :: "mem \<Rightarrow> msgHeap \<Rightarrow> bool" where
  "idx_ok M h \<longleftrightarrow>
     distinct (items h) \<and> (\<forall>k < length (items h). index (M (items h ! k)) = int k)"

definition reshuffle :: "nat \<Rightarrow> mem \<Rightarrow> msgHeap \<Rightarrow> mem \<Rightarrow> msgHeap \<Rightarrow> bool" where
  "reshuffle n M h M' h' \<longleftrightarrow>
     less h' = less h \<and> mset (items h') = mset (items h) \<and> same_msgs M M' \<and>
     (\<forall>r. r \<notin> set (items h) \<longrightarrow> M' r = M r) \<and>
     (\<forall>k \<ge> n. k < length (items h) \<longrightarrow> items h' ! k = items h ! k) \<and>
     (idx_ok M h \<longrightarrow> idx_ok M' h')"

lemma reshuffle_refl [simp, intro]: "reshuffle n M h M h"
  by (simp add: reshuffle_def)

lemma reshuffle_length: "reshuffle n M h M' h' \<Longrightarrow> length (items h') = length (items h)"
  by (metis reshuffle_def size_mset)

lemma reshuffle_set: "reshuffle n M h M' h' \<Longrightarrow> set (items h') = set (items h)"
  by (metis reshuffle_def set_mset_mset)

lemma reshuffle_trans:
  "reshuffle n M h M' h' \<Longrightarrow> reshuffle n M' h' M'' h'' \<Longrightarrow> reshuffle n M h M'' h''"
  using reshuffle_length [of n M h M' h'] reshuffle_set [of n M h M' h']
  by (auto simp: reshuffle_def same_msgs_def)

lemma Swap_items:
  "Swap M h i j = (M', h') \<Longrightarrow>
     items h' = (items h)[i := items h ! j, j := items h ! i] \<and> less h' = less h"
  by (auto simp: Swap_def Let_def)

lemma Swap_same_msgs: "Swap M h i j = (M', h') \<Longrightarrow> same_msgs M M'"
  by (auto simp: Swap_def Let_def same_msgs_def)

lemma Swap_index:
  assumes "Swap M h i j = (M', h')" and "i < length (items h)" and "j < length (items h)"
    and "idx_ok M h"
  shows "idx_ok M' h'"
proof -
  let ?xs = "items h" and ?ys = "items h'"
  have ys: "?ys = ?xs[i := ?xs ! j, j := ?xs ! i]" using assms(1) Swap_items by blast
  have dys: "distinct ?ys" using assms ys by (simp add: idx_ok_def distinct_swap_list)
  have len: "i < length ?ys" "j < length ?ys" using assms ys by simp_all
  have M': "M' = (M(?ys ! i := (M (?ys ! i))\<lparr>index := int i\<rparr>))
      (?ys ! j := ((M(?ys ! i := (M (?ys ! i))\<lparr>index := int i\<rparr>)) (?ys ! j))\<lparr>index := int j\<rparr>)"
    using assms(1) ys by (auto simp: Swap_def Let_def)
  have "index (M' (?ys ! k)) = int k" if k: "k < length ?ys" for k
  proof (cases "k = i \<or> k = j")
    case True
    then show ?thesis using dys len by (auto simp: M' nth_eq_iff_index_eq)
  next
    case False
    then have "?ys ! k \<noteq> ?ys ! i" "?ys ! k \<noteq> ?ys ! j"
      using dys k len by (auto simp: nth_eq_iff_index_eq)
    moreover have "?ys ! k = ?xs ! k" using False ys by simp
    ultimately show ?thesis using assms(4) k ys by (simp add: M' idx_ok_def)
  qed
  with dys show ?thesis by (simp add: idx_ok_def)
qed

lemma Swap_reshuffle:
  assumes "Swap M h i j = (M', h')" and "i < n" and "j < n" and "n \<le> length (items h)"
  shows "reshuffle n M h M' h'"
proof -
  have len: "i < length (items h)" "j < length (items h)" using assms by auto
  have out: "M' r = M r" if "r \<notin> set (items h)" for r
  proof -
    have "items h ! i \<noteq> r" "items h ! j \<noteq> r" using that len nth_mem by blast+
    then show ?thesis using assms(1) len
      by (auto simp: Swap_def Let_def nth_list_update split: if_splits)
  qed
  have "\<forall>k \<ge> n. k < length (items h) \<longrightarrow> items h' ! k = items h ! k"
    using assms Swap_items [OF assms(1)] by auto
  then show ?thesis
    using Swap_items [OF assms(1)] Swap_same_msgs [OF assms(1)] Swap_index [OF assms(1) len] len out
    by (simp add: reshuffle_def mset_swap_list)
qed

lemma up_reshuffle:
  "up M h j = (M', h') \<Longrightarrow> j < n \<Longrightarrow> n \<le> length (items h) \<Longrightarrow> reshuffle n M h M' h'"
proof (induction M h j arbitrary: M' h' rule: up.induct)
  case (1 M h j)
  let ?i = "(j - 1) div 2"
  show ?case
  proof (cases "?i = j \<or> \<not> Less M h j ?i")
    case True
    then show ?thesis using "1.prems"(1) by (subst (asm) up.simps) (auto simp: Let_def)
  next
    case False
    obtain N g where sw: "Swap M h ?i j = (N, g)" by fastforce
    have rec: "up N g ?i = (M', h')"
      using "1.prems"(1) False sw by (subst (asm) up.simps) (auto simp: Let_def)
    have r1: "reshuffle n M h N g" using Swap_reshuffle [OF sw] "1.prems" by auto
    have "reshuffle n N g M' h'"
      using "1.IH" [OF refl False sw [symmetric] rec] "1.prems" reshuffle_length [OF r1] by auto
    with r1 show ?thesis by (rule reshuffle_trans)
  qed
qed

lemma down_reshuffle:
  "down M h i n = (M', h', b) \<Longrightarrow> i < n \<Longrightarrow> n \<le> length (items h) \<Longrightarrow>
     reshuffle n M h M' h' \<and> (\<not> b \<longrightarrow> M' = M \<and> h' = h)"
proof (induction M h i n arbitrary: M' h' b rule: down.induct)
  case (1 M h i n)
  let ?j1 = "2 * i + 1"
  let ?j = "if ?j1 + 1 < n \<and> Less M h (?j1 + 1) ?j1 then ?j1 + 1 else ?j1"
  show ?case
  proof (cases "?j1 \<ge> n \<or> \<not> Less M h ?j i")
    case True
    then show ?thesis using "1.prems"(1) by (subst (asm) down.simps) (auto simp: Let_def split: if_splits)
  next
    case False
    then have nle: "\<not> ?j1 \<ge> n" and lj: "\<not> \<not> Less M h ?j i" by simp_all
    obtain N g where sw: "Swap M h i ?j = (N, g)" by fastforce
    obtain M2 h2 b2 where rec: "down N g ?j n = (M2, h2, b2)" by (metis prod_cases3)
    have res: "M' = M2 \<and> h' = h2 \<and> b"
      using "1.prems"(1) nle lj sw rec unfolding down.simps [of M h i n] Let_def
      by (auto split: if_splits)
    have r1: "reshuffle n M h N g" using Swap_reshuffle [OF sw] "1.prems" nle by auto
    have "reshuffle n N g M2 h2"
      using "1.IH" [OF refl nle refl lj sw [symmetric] rec] "1.prems" nle reshuffle_length [OF r1]
      by auto
    with r1 res show ?thesis by (auto intro: reshuffle_trans)
  qed
qed

section \<open>Heap order\<close>

text \<open>
  Order is stated on the keys of the slots, the messages without their cached index.
  \<open>ordered\<close> is the heap order of the first \<open>n\<close> slots. \<open>hole\<close> is heap order except around
  slot \<open>i\<close>, with \<open>i\<close>'s children still not before \<open>i\<close>'s parent; \<open>below_ok\<close> and \<open>above_ok\<close>
  are the two comparisons missing from it.
\<close>

definition keys :: "mem \<Rightarrow> msgHeap \<Rightarrow> nat \<Rightarrow> msg" where
  "keys M h k = strip (M (items h ! k))"

definition parent :: "nat \<Rightarrow> nat" where
  "parent k = (k - 1) div 2"

definition ordered :: "(msg \<Rightarrow> msg \<Rightarrow> bool) \<Rightarrow> (nat \<Rightarrow> msg) \<Rightarrow> nat \<Rightarrow> bool" where
  "ordered lt K n \<longleftrightarrow> (\<forall>k < n. 0 < k \<longrightarrow> \<not> lt (K k) (K (parent k)))"

definition hole :: "(msg \<Rightarrow> msg \<Rightarrow> bool) \<Rightarrow> (nat \<Rightarrow> msg) \<Rightarrow> nat \<Rightarrow> nat \<Rightarrow> bool" where
  "hole lt K n i \<longleftrightarrow>
     (\<forall>k < n. 0 < k \<longrightarrow> k \<noteq> i \<longrightarrow> parent k \<noteq> i \<longrightarrow> \<not> lt (K k) (K (parent k))) \<and>
     (\<forall>k < n. 0 < k \<longrightarrow> 0 < i \<longrightarrow> parent k = i \<longrightarrow> \<not> lt (K k) (K (parent i)))"

definition below_ok :: "(msg \<Rightarrow> msg \<Rightarrow> bool) \<Rightarrow> (nat \<Rightarrow> msg) \<Rightarrow> nat \<Rightarrow> nat \<Rightarrow> bool" where
  "below_ok lt K n i \<longleftrightarrow> (\<forall>k < n. 0 < k \<longrightarrow> parent k = i \<longrightarrow> \<not> lt (K k) (K i))"

definition above_ok :: "(msg \<Rightarrow> msg \<Rightarrow> bool) \<Rightarrow> (nat \<Rightarrow> msg) \<Rightarrow> nat \<Rightarrow> bool" where
  "above_ok lt K i \<longleftrightarrow> (0 < i \<longrightarrow> \<not> lt (K i) (K (parent i)))"

definition heap_inv :: "mem \<Rightarrow> msgHeap \<Rightarrow> bool" where
  "heap_inv M h \<longleftrightarrow> idx_ok M h \<and> ordered (less h) (keys M h) (length (items h))"

lemma parent_less [simp]: "0 < k \<Longrightarrow> parent k < k"
  by (auto simp: parent_def)

lemma parent_0 [simp]: "parent 0 = 0"
  by (simp add: parent_def)

lemma parent_child: "0 < k \<Longrightarrow> parent k = i \<longleftrightarrow> k = 2 * i + 1 \<or> k = 2 * i + 2"
  by (auto simp: parent_def)

lemma hole_closed:
  "hole lt K n i \<Longrightarrow> below_ok lt K n i \<Longrightarrow> above_ok lt K i \<Longrightarrow> ordered lt K n"
  unfolding hole_def below_ok_def above_ok_def ordered_def by metis

lemma Swap_keys:
  assumes "Swap M h i j = (M', h')" and "i < length (items h)" and "j < length (items h)"
  shows "keys M' h' = (keys M h)(i := keys M h j, j := keys M h i)"
proof
  fix k
  have it: "items h' = (items h)[i := items h ! j, j := items h ! i]"
    using Swap_items [OF assms(1)] by blast
  have st: "strip (M' r) = strip (M r)" for r
    using Swap_same_msgs [OF assms(1)] by (simp add: same_msgs_def)
  show "keys M' h' k = ((keys M h)(i := keys M h j, j := keys M h i)) k"
    using assms(2,3) by (auto simp: keys_def st it nth_list_update)
qed

lemma reshuffle_keys_above:
  assumes "reshuffle n M h M' h'" and "n \<le> k" and "k < length (items h)"
  shows "keys M' h' k = keys M h k"
  using assms by (auto simp: reshuffle_def keys_def same_msgs_def)

text \<open>
  What a client may rely on: \<open>put\<close> after a push, \<open>took\<close> after a pop or a removal,
  \<open>fixed\<close> after a repair.
\<close>

definition put :: "mem \<Rightarrow> msgHeap \<Rightarrow> ref \<Rightarrow> mem \<Rightarrow> msgHeap \<Rightarrow> bool" where
  "put M h p M' h' \<longleftrightarrow>
     heap_inv M' h' \<and> less h' = less h \<and> mset (items h') = add_mset p (mset (items h)) \<and>
     same_msgs M M' \<and> (\<forall>r. r \<noteq> p \<longrightarrow> r \<notin> set (items h) \<longrightarrow> M' r = M r)"

definition took :: "mem \<Rightarrow> msgHeap \<Rightarrow> ref \<Rightarrow> mem \<Rightarrow> msgHeap \<Rightarrow> bool" where
  "took M h m M' h' \<longleftrightarrow>
     heap_inv M' h' \<and> less h' = less h \<and> mset (items h) = add_mset m (mset (items h')) \<and>
     same_msgs M M' \<and> (\<forall>r. r \<notin> set (items h) \<longrightarrow> M' r = M r) \<and> index (M' m) = -1"

definition fixed :: "mem \<Rightarrow> msgHeap \<Rightarrow> mem \<Rightarrow> msgHeap \<Rightarrow> bool" where
  "fixed M h M' h' \<longleftrightarrow>
     heap_inv M' h' \<and> less h' = less h \<and> mset (items h') = mset (items h) \<and>
     same_msgs M M' \<and> (\<forall>r. r \<notin> set (items h) \<longrightarrow> M' r = M r)"

locale msg_order =
  fixes lt :: "msg \<Rightarrow> msg \<Rightarrow> bool"
  assumes lt_strip: "lt (strip a) (strip b) = lt a b"
    and lt_asym: "lt a b \<Longrightarrow> \<not> lt b a"
    and lt_ntrans: "\<not> lt b a \<Longrightarrow> \<not> lt c b \<Longrightarrow> \<not> lt c a"
begin

lemma Less_keys: "less h = lt \<Longrightarrow> Less M h i j = lt (keys M h i) (keys M h j)"
  by (simp add: Less_def keys_def lt_strip)

lemma hole_intro:
  assumes "ordered lt K n" and "\<forall>k. k \<noteq> i \<longrightarrow> k < n \<longrightarrow> K' k = K k" and "i < n"
  shows "hole lt K' n i"
proof -
  have "\<not> lt (K' k) (K' (parent i))" if "k < n" "0 < k" "0 < i" "parent k = i" for k
  proof -
    have "i < k" "parent i < i" using that parent_less by blast+
    then have "k \<noteq> i" "parent i \<noteq> i" "parent i < n" using assms(3) by auto
    moreover have "\<not> lt (K k) (K i)" "\<not> lt (K i) (K (parent i))"
      using assms(1,3) that by (auto simp: ordered_def)
    ultimately show ?thesis using assms(2) that lt_ntrans by metis
  qed
  moreover have "\<not> lt (K' k) (K' (parent k))" if "k < n" "0 < k" "k \<noteq> i" "parent k \<noteq> i" for k
  proof -
    have "parent k < n" using parent_less [OF that(2)] that(1) by (rule less_trans)
    then show ?thesis using assms(1,2) that by (simp add: ordered_def)
  qed
  ultimately show ?thesis by (simp add: hole_def)
qed

lemma sift_up_step:
  assumes h: "hole lt K n j" and b: "below_ok lt K n j" and j: "0 < j" "j < n"
    and l: "lt (K j) (K (parent j))"
  shows "hole lt (K(parent j := K j, j := K (parent j))) n (parent j)"
    and "below_ok lt (K(parent j := K j, j := K (parent j))) n (parent j)"
proof -
  let ?i = "parent j" and ?K = "K(parent j := K j, j := K (parent j))"
  have ij: "?i < j" using j by simp
  have nl: "\<not> lt (K ?i) (K j)" using l lt_asym by blast
  have sib: "\<not> lt (K k) (K ?i)" if "k < n" "0 < k" "parent k = ?i" "k \<noteq> j" for k
    using h that ij unfolding hole_def by (metis nat_neq_iff)
  have up: "\<not> lt (K ?i) (K (parent ?i))" if "0 < ?i"
    using h that ij j unfolding hole_def by (metis less_trans nat_neq_iff parent_less)
  have "\<not> lt (?K k) (?K (parent k))" if k: "k < n" "0 < k" "k \<noteq> ?i" "parent k \<noteq> ?i" for k
  proof (cases "parent k = j")
    case True
    then have "k \<noteq> j" "k \<noteq> ?i" using k parent_less [of k] ij by auto
    moreover have "\<not> lt (K k) (K ?i)" using h True k j unfolding hole_def by metis
    ultimately show ?thesis using True ij by simp
  next
    case False
    then show ?thesis using h k unfolding hole_def by auto
  qed
  moreover have "\<not> lt (?K k) (?K (parent ?i))" if k: "k < n" "0 < k" "0 < ?i" "parent k = ?i" for k
  proof -
    have p: "parent ?i < ?i" using k(3) by simp
    have "?K k = (if k = j then K ?i else K k)" using k parent_less [of k] by auto
    moreover have "?K (parent ?i) = K (parent ?i)" using p ij by auto
    ultimately show ?thesis using up [OF k(3)] sib [OF k(1,2,4)] lt_ntrans by (metis k(3))
  qed
  ultimately show "hole lt ?K n ?i" by (simp add: hole_def)
  have "\<not> lt (?K k) (?K ?i)" if k: "k < n" "0 < k" "parent k = ?i" for k
    using sib [OF k] nl lt_ntrans parent_less [OF k(2)] ij k(3) by (cases "k = j") auto
  then show "below_ok lt ?K n ?i" by (simp add: below_ok_def)
qed

lemma sift_down_step:
  assumes h: "hole lt K n i" and j: "0 < j" "j < n" "parent j = i"
    and l: "lt (K j) (K i)"
    and m: "\<And>k. k < n \<Longrightarrow> 0 < k \<Longrightarrow> parent k = i \<Longrightarrow> \<not> lt (K k) (K j)"
  shows "hole lt (K(i := K j, j := K i)) n j" and "above_ok lt (K(i := K j, j := K i)) j"
proof -
  let ?K = "K(i := K j, j := K i)"
  have ij: "i < j" using j by auto
  have "\<not> lt (?K k) (?K (parent k))" if k: "k < n" "0 < k" "k \<noteq> j" "parent k \<noteq> j" for k
  proof (cases "k = i")
    case True
    then show ?thesis using h j k ij unfolding hole_def by (auto dest: parent_less)
  next
    case False
    then show ?thesis using h m [OF k(1,2)] k ij unfolding hole_def by (cases "parent k = i") auto
  qed
  moreover have "\<not> lt (?K k) (?K (parent j))" if k: "k < n" "0 < k" "parent k = j" for k
  proof -
    have "j < k" using k by auto
    then have "\<not> lt (K k) (K j)" using h k ij unfolding hole_def by (metis nat_neq_iff less_trans)
    then show ?thesis using \<open>j < k\<close> ij j(3) by simp
  qed
  ultimately show "hole lt ?K n j" by (simp add: hole_def)
  show "above_ok lt ?K j" using l lt_asym j ij by (simp add: above_ok_def)
qed

lemma up_ordered:
  "up M h j = (M', h') \<Longrightarrow> less h = lt \<Longrightarrow> j < n \<Longrightarrow> n \<le> length (items h) \<Longrightarrow>
     hole lt (keys M h) n j \<Longrightarrow> below_ok lt (keys M h) n j \<Longrightarrow> ordered lt (keys M' h') n"
proof (induction M h j arbitrary: M' h' rule: up.induct)
  case (1 M h j)
  let ?i = "(j - 1) div 2"
  have pj: "parent j = ?i" by (simp add: parent_def)
  show ?case
  proof (cases "?i = j \<or> \<not> Less M h j ?i")
    case True
    then have "M' = M" "h' = h"
      using "1.prems"(1) by (subst (asm) up.simps, auto simp: Let_def)+
    moreover have "above_ok lt (keys M h) j"
      using True Less_keys [OF "1.prems"(2)] pj by (auto simp: above_ok_def)
    ultimately show ?thesis using "1.prems" hole_closed by blast
  next
    case False
    obtain N g where sw: "Swap M h ?i j = (N, g)" by fastforce
    have rec: "up N g ?i = (M', h')"
      using "1.prems"(1) False sw by (subst (asm) up.simps) (auto simp: Let_def)
    have j: "0 < j" "?i < j" using False by (auto intro: gr0I)
    have l: "lt (keys M h j) (keys M h (parent j))"
      using False Less_keys [OF "1.prems"(2)] pj by auto
    have K: "keys N g = (keys M h)(parent j := keys M h j, j := keys M h (parent j))"
      using Swap_keys [OF sw] "1.prems"(3,4) j pj by auto
    note step = sift_up_step [OF "1.prems"(5,6) j(1) "1.prems"(3) l, folded K, unfolded pj]
    have "less g = lt" "?i < n" "n \<le> length (items g)"
      using Swap_items [OF sw] "1.prems"(2-4) j by auto
    then show ?thesis using "1.IH" [OF refl False sw [symmetric] rec] step by blast
  qed
qed

lemma down_ordered:
  "down M h i n = (M', h', b) \<Longrightarrow> less h = lt \<Longrightarrow> i < n \<Longrightarrow> n \<le> length (items h) \<Longrightarrow>
     hole lt (keys M h) n i \<Longrightarrow>
     (b \<longrightarrow> ordered lt (keys M' h') n) \<and> (\<not> b \<longrightarrow> below_ok lt (keys M h) n i)"
proof (induction M h i n arbitrary: M' h' b rule: down.induct)
  case (1 M h i n)
  let ?j1 = "2 * i + 1"
  let ?j = "if ?j1 + 1 < n \<and> Less M h (?j1 + 1) ?j1 then ?j1 + 1 else ?j1"
  let ?K = "keys M h"
  note LK = Less_keys [OF "1.prems"(2), of M]
  have least: "\<not> lt (?K k) (?K ?j)" if k: "k < n" "0 < k" "parent k = i" for k
  proof -
    have irr: "\<not> lt (?K ?j) (?K ?j)" using lt_asym by blast
    show ?thesis
    proof (cases "k = ?j")
      case True
      then show ?thesis using irr by simp
    next
      case False
      then consider "k = ?j1 + 1" "?j = ?j1" | "k = ?j1" "?j = ?j1 + 1"
        using k parent_child [of k i] by (auto split: if_splits)
      then show ?thesis
        using LK lt_asym k(1) by cases (auto split: if_splits)
    qed
  qed
  show ?case
  proof (cases "?j1 \<ge> n \<or> \<not> Less M h ?j i")
    case True
    have "below_ok lt ?K n i"
    proof (cases "?j1 \<ge> n")
      case True
      then show ?thesis by (auto simp: below_ok_def parent_child)
    next
      case False
      then have nl: "\<not> lt (?K ?j) (?K i)" using True LK by blast
      have "\<not> lt (?K k) (?K i)" if "k < n" "0 < k" "parent k = i" for k
        using nl least [OF that] by (rule lt_ntrans)
      then show ?thesis by (simp add: below_ok_def)
    qed
    moreover have "\<not> b"
      using "1.prems"(1) True by (subst (asm) down.simps) (auto simp: Let_def split: if_splits)
    ultimately show ?thesis by simp
  next
    case False
    then have nle: "\<not> ?j1 \<ge> n" and lj: "\<not> \<not> Less M h ?j i" by simp_all
    obtain N g where sw: "Swap M h i ?j = (N, g)" by fastforce
    obtain M2 h2 b2 where rec: "down N g ?j n = (M2, h2, b2)" by (metis prod_cases3)
    have res: "M' = M2 \<and> h' = h2 \<and> b"
      using "1.prems"(1) nle lj sw rec unfolding down.simps [of M h i n] Let_def
      by (auto split: if_splits)
    have j: "0 < ?j" "?j < n" "parent ?j = i" using nle by (auto simp: parent_child)
    have K: "keys N g = ?K(i := ?K ?j, ?j := ?K i)"
      using Swap_keys [OF sw] "1.prems"(3,4) j by auto
    have g: "length (items g) = length (items h)" "less g = lt"
      using Swap_items [OF sw] "1.prems"(2) by auto
    have l: "lt (?K ?j) (?K i)" using lj LK by simp
    have step: "hole lt (keys N g) n ?j" "above_ok lt (keys N g) ?j"
      unfolding K by (rule sift_down_step [where K = ?K and n = n and i = i and j = ?j];
          use "1.prems"(5) j l least in blast)+
    have "n \<le> length (items g)" using g "1.prems"(4) by simp
    then have IH: "(b2 \<longrightarrow> ordered lt (keys M2 h2) n) \<and> (\<not> b2 \<longrightarrow> below_ok lt (keys N g) n ?j)"
      using "1.IH" [OF refl nle refl lj sw [symmetric] rec g(2) j(2)] step(1) by simp
    have "M2 = N \<and> h2 = g" if "\<not> b2"
      using down_reshuffle [OF rec j(2)] that \<open>n \<le> length (items g)\<close> by simp
    then have "ordered lt (keys M2 h2) n"
      using IH step hole_closed by metis
    then show ?thesis using res by simp
  qed
qed

lemma root_least:
  assumes "ordered lt K n" and "k < n"
  shows "\<not> lt (K k) (K 0)"
  using assms(2)
proof (induction k rule: less_induct)
  case (less k)
  show ?case
  proof (cases "k = 0")
    case True
    then show ?thesis using lt_asym by blast
  next
    case False
    then have "\<not> lt (K (parent k)) (K 0)" using less by auto
    moreover have "\<not> lt (K k) (K (parent k))" using assms(1) less.prems False by (simp add: ordered_def)
    ultimately show ?thesis using lt_ntrans by blast
  qed
qed

lemma heap_Push_put:
  assumes "heap_inv M h" and "less h = lt" and "p \<notin> set (items h)"
    and "heap_Push M h p = (M', h')"
  shows "put M h p M' h'"
proof -
  let ?n = "length (items h)"
  obtain N g where pu: "Push M h p = (N, g)" by fastforce
  have g: "items g = items h @ [p]" "less g = lt"
    and N: "N = M(p := (M p)\<lparr>index := int ?n\<rparr>)" using pu assms(2) by (auto simp: Push_def)
  have up: "up N g ?n = (M', h')" using assms(4) pu g by (simp add: heap_Push_def Len_def)
  have sm: "same_msgs M N" by (auto simp: N)
  have idx: "idx_ok N g"
    using assms(1,3) by (auto simp: heap_inv_def idx_ok_def N g nth_append nth_mem)
  have r: "reshuffle (Suc ?n) N g M' h'" using up_reshuffle [OF up] g by simp
  have K: "\<forall>k. k \<noteq> ?n \<longrightarrow> k < Suc ?n \<longrightarrow> keys N g k = keys M h k"
    using sm by (auto simp: keys_def g nth_append same_msgs_def)
  have o: "ordered lt (keys M h) ?n" using assms(1,2) by (simp add: heap_inv_def)
  have "\<not> lt (keys N g k) (keys N g (parent k))" if "k < Suc ?n" "0 < k" "k \<noteq> ?n" for k
  proof -
    have "k < ?n" "parent k < ?n" using that parent_less [OF that(2)] by linarith+
    then show ?thesis using o K that by (simp add: ordered_def)
  qed
  then have "hole lt (keys N g) (Suc ?n) ?n" and "below_ok lt (keys N g) (Suc ?n) ?n"
    by (auto simp: hole_def below_ok_def parent_child)
  then have "ordered lt (keys M' h') (Suc ?n)" using up_ordered [OF up g(2)] g by simp
  moreover have "less h' = lt" "length (items h') = Suc ?n"
    using r reshuffle_length [OF r] g by (auto simp: reshuffle_def)
  ultimately have "heap_inv M' h'" "less h' = lt" using r idx by (auto simp: heap_inv_def reshuffle_def)
  moreover have "mset (items h') = add_mset p (mset (items h))" using r g by (simp add: reshuffle_def)
  moreover have "same_msgs M M'" using r sm by (auto simp: reshuffle_def intro: same_msgs_trans)
  moreover have "M' r = M r" if "r \<noteq> p" "r \<notin> set (items h)" for r
    using r that g by (auto simp: reshuffle_def N)
  ultimately show ?thesis using assms(2) by (simp add: put_def)
qed

lemma Pop_took:
  assumes "Pop M h = (M', h', m)" and "items h \<noteq> []" and "idx_ok M h"
    and "ordered lt (keys M h) (length (items h) - 1)" and "less h = lt"
  shows "took M h m M' h' \<and> m = last (items h)"
proof -
  have h': "items h' = butlast (items h)" "less h' = lt" "m = last (items h)"
    and M': "M' = M(m := (M m)\<lparr>index := -1\<rparr>)" using assms(1,5) by (auto simp: Pop_def Let_def)
  have bl: "items h' @ [m] = items h" using h' assms(2) by simp
  have d: "distinct (items h' @ [m])" using assms(3) bl by (simp add: idx_ok_def)
  have at: "items h' ! k = items h ! k" "items h' ! k \<noteq> m" if "k < length (items h')" for k
  proof -
    show "items h' ! k = items h ! k" using that h'(1) by (simp add: nth_butlast)
    have "items h' ! k \<in> set (items h')" using that by simp
    then show "items h' ! k \<noteq> m" using d by auto
  qed
  have "length (items h') < length (items h)" using h'(1) assms(2) by simp
  then have "idx_ok M' h'"
    using assms(3) d at by (simp add: idx_ok_def M')
  moreover have "ordered lt (keys M' h') (length (items h'))"
  proof -
    have "keys M' h' k = keys M h k" if "k < length (items h')" for k
      using at [OF that] by (simp add: keys_def M')
    moreover have "parent k < length (items h')" if "k < length (items h')" "0 < k" for k
      using parent_less [OF that(2)] that(1) by (rule less_trans)
    ultimately show ?thesis using assms(4) h'(1) by (simp add: ordered_def)
  qed
  ultimately have "heap_inv M' h'" "less h' = lt" using h' by (auto simp: heap_inv_def)
  moreover have "mset (items h) = add_mset m (mset (items h'))"
    using mset_butlast_last assms(2) h' by metis
  moreover have "M' r = M r" if "r \<notin> set (items h)" for r
    using that h'(3) assms(2) by (auto simp: M')
  ultimately show ?thesis using h' assms(5) by (auto simp: took_def M')
qed

lemma sift_spec:
  assumes "idx_ok M h" and "less h = lt" and "i < n" and "n \<le> length (items h)"
    and "hole lt (keys M h) n i" and "down M h i n = (M2, h2, moved)"
    and "(if moved then (M2, h2) else up M2 h2 i) = (M', h')"
  shows "reshuffle n M h M' h'" and "ordered lt (keys M' h') n"
proof -
  have d: "reshuffle n M h M2 h2" "\<not> moved \<longrightarrow> M2 = M \<and> h2 = h"
    using down_reshuffle [OF assms(6) assms(3,4)] by auto
  have o: "moved \<longrightarrow> ordered lt (keys M2 h2) n" "\<not> moved \<longrightarrow> below_ok lt (keys M h) n i"
    using down_ordered [OF assms(6,2,3,4,5)] by auto
  show "reshuffle n M h M' h'" "ordered lt (keys M' h') n"
    using assms d o up_reshuffle [of M h i M' h' n] up_ordered [of M h i M' h' n]
    by (auto split: if_splits)
qed

lemma extract_took:
  assumes inv: "heap_inv M h" "less h = lt" and i: "i < n" "length (items h) = Suc n"
    and sw: "Swap M h i n = (M1, h1)" and d: "down M1 h1 i n = (M2, h2, moved)"
    and u: "(if moved then (M2, h2) else up M2 h2 i) = (M3, h3)"
    and po: "Pop M3 h3 = (M', h', m)"
  shows "took M h m M' h' \<and> m = items h ! i"
proof -
  have r1: "reshuffle (Suc n) M h M1 h1" using Swap_reshuffle [OF sw] i by simp
  have h1: "idx_ok M1 h1" "less h1 = lt" "length (items h1) = Suc n"
    using r1 inv reshuffle_length [OF r1] i by (auto simp: reshuffle_def heap_inv_def)
  have K: "keys M1 h1 = (keys M h)(i := keys M h n, n := keys M h i)"
    using Swap_keys [OF sw] i by simp
  have "ordered lt (keys M h) n" using inv i by (simp add: heap_inv_def ordered_def)
  then have "hole lt (keys M1 h1) n i" using K i by (auto intro: hole_intro)
  note s = sift_spec [OF h1(1,2) i(1) _ this d u]
  have r2: "reshuffle n M1 h1 M3 h3" and o: "ordered lt (keys M3 h3) n" using s h1 by simp_all
  have h3: "less h3 = lt" "idx_ok M3 h3" "length (items h3) = Suc n"
    using r2 h1 reshuffle_length [OF r2] by (auto simp: reshuffle_def)
  moreover have ne: "items h3 \<noteq> []" using h3(3) by auto
  ultimately have tk: "took M3 h3 m M' h'" and m: "m = last (items h3)"
    using Pop_took [OF po] o by auto
  have "items h1 ! n = items h ! i" using Swap_items [OF sw] i by simp
  moreover have "items h3 ! n = items h1 ! n" using r2 h1(3) by (auto simp: reshuffle_def)
  ultimately have mi: "m = items h ! i" using m h3(3) ne by (simp add: last_conv_nth)
  have "took M h m M' h'"
    using tk r1 r2 reshuffle_set [OF r1] reshuffle_set [OF r2]
    by (auto simp: took_def reshuffle_def same_msgs_def)
  then show ?thesis using mi by simp
qed

lemma up_root: "up M h 0 = (M, h)"
  by (simp add: up.simps)

lemma heap_Remove_took:
  assumes "heap_inv M h" and "less h = lt" and "i < length (items h)"
  shows "\<exists>M' h'. heap_Remove M h (int i) = Some (M', h', items h ! i) \<and> took M h (items h ! i) M' h'"
proof -
  define n where "n = Len h - 1"
  have n: "length (items h) = Suc n" using assms(3) by (auto simp: n_def Len_def)
  show ?thesis
  proof (cases "n = i")
    case True
    obtain M' h' m where po: "Pop M h = (M', h', m)" by (metis prod_cases3)
    have ne: "items h \<noteq> []" using n by auto
    have "ordered lt (keys M h) (length (items h) - 1)" using assms by (simp add: heap_inv_def ordered_def)
    then have "took M h m M' h' \<and> m = last (items h)"
      using Pop_took [OF po ne] assms by (auto simp: heap_inv_def)
    moreover have "last (items h) = items h ! i" using n True ne by (simp add: last_conv_nth)
    ultimately show ?thesis using po True n by (auto simp: heap_Remove_def Len_def)
  next
    case False
    obtain M1 h1 where sw: "Swap M h i n = (M1, h1)" by fastforce
    obtain M2 h2 mv where d: "down M1 h1 i n = (M2, h2, mv)" by (metis prod_cases3)
    obtain M3 h3 where u: "(if mv then (M2, h2) else up M2 h2 i) = (M3, h3)" by fastforce
    obtain M' h' m where po: "Pop M3 h3 = (M', h', m)" by (metis prod_cases3)
    have "i < n" using False n assms(3) by simp
    then have "took M h m M' h' \<and> m = items h ! i"
      using extract_took [OF assms(1,2) _ n sw d u po] by blast
    moreover have "heap_Remove M h (int i) = Some (M', h', m)"
      using False n sw d u po assms(3) by (simp add: heap_Remove_def Len_def Let_def)
    ultimately show ?thesis by blast
  qed
qed

text \<open>Popping is removing the root.\<close>

lemma heap_Pop_Remove:
  assumes "items h \<noteq> []"
  shows "heap_Pop M h = heap_Remove M h 0"
proof (cases "Len h = 1")
  case True
  then have "items h \<noteq> []" "length (items h) = 1" by (auto simp: Len_def)
  then obtain p where p: "items h = [p]" by (cases "items h") auto
  obtain N g where sw: "Swap M h 0 0 = (N, g)" by fastforce
  have "Pop N g = Pop M h"
    using sw p by (auto simp: Swap_def Let_def Pop_def)
  moreover have "down N g 0 0 = (N, g, False)" by (simp add: down.simps)
  ultimately show ?thesis using True sw by (simp add: heap_Pop_def heap_Remove_def Let_def)
next
  case False
  moreover have "0 < Len h" using assms by (simp add: Len_def)
  ultimately have "Len h - 1 \<noteq> 0" "0 < Len h" by auto
  then show ?thesis
    by (simp add: heap_Pop_def heap_Remove_def Let_def up_root split: prod.split)
qed

lemma heap_Pop_took:
  assumes "heap_inv M h" and "less h = lt" and "peek h = Some m"
  shows "\<exists>M' h'. heap_Pop M h = Some (M', h', m) \<and> took M h m M' h'"
proof -
  have m: "items h \<noteq> []" "m = items h ! 0" using assms(3) by (auto simp: peek_def split: if_splits)
  then show ?thesis
    using heap_Remove_took [OF assms(1,2), of 0] heap_Pop_Remove [OF m(1), of M] by auto
qed

lemma peek_least:
  assumes "heap_inv M h" and "less h = lt" and "peek h = Some m" and "r \<in> set (items h)"
  shows "\<not> lt (M r) (M m)"
proof -
  obtain k where k: "k < length (items h)" "r = items h ! k" using assms(4) by (metis in_set_conv_nth)
  have "m = items h ! 0" using assms(3) by (auto simp: peek_def split: if_splits)
  then show ?thesis
    using root_least [of "keys M h" "length (items h)" k] k assms(1,2)
    by (simp add: heap_inv_def keys_def lt_strip)
qed

lemma heap_Fix_fixed:
  assumes "heap_inv M h" and "less h = lt" and "p \<in> set (items h)"
    and "N = M(p := m)" and "index m = index (M p)"
  shows "\<exists>M' h'. heap_Fix N h (index m) = Some (M', h') \<and> fixed N h M' h'"
proof -
  let ?n = "length (items h)"
  obtain i where i: "i < ?n" "p = items h ! i" using assms(3) by (metis in_set_conv_nth)
  have im: "index m = int i" using assms(1,5) i by (simp add: heap_inv_def idx_ok_def)
  have d: "distinct (items h)" using assms(1) by (simp add: heap_inv_def idx_ok_def)
  have idx: "idx_ok N h" using assms(1,4) im i by (auto simp: heap_inv_def idx_ok_def nth_eq_iff_index_eq)
  have "keys N h k = keys M h k" if "k \<noteq> i" "k < ?n" for k
    using that i d by (simp add: keys_def assms(4) nth_eq_iff_index_eq)
  then have ho: "hole lt (keys N h) ?n i"
    using assms(1,2) i hole_intro [of "keys M h" ?n i "keys N h"] by (auto simp: heap_inv_def)
  obtain M2 h2 mv where dn: "down N h i ?n = (M2, h2, mv)" by (metis prod_cases3)
  obtain M' h' where u: "(if mv then (M2, h2) else up M2 h2 i) = (M', h')" by fastforce
  have s: "reshuffle ?n N h M' h'" "ordered lt (keys M' h') ?n"
    using sift_spec [OF idx assms(2) i(1) _ ho dn u] by simp_all
  moreover have "heap_Fix N h (index m) = Some (M', h')"
    using im i dn u by (auto simp: heap_Fix_def Len_def split: if_splits)
  ultimately show ?thesis
    using idx reshuffle_length [OF s(1)] assms(2) by (auto simp: fixed_def reshuffle_def heap_inv_def)
qed

end

interpretation ready_order: msg_order "orderBy mode"
  by unfold_locales (auto simp: orderBy_def split: if_splits)

interpretation delay_order: msg_order byVisibleAt
  by unfold_locales (auto simp: byVisibleAt_def)

interpretation lease_order: msg_order byLeaseExpiry
  by unfold_locales (auto simp: byLeaseExpiry_def)

end
