(* ===== verification/FQ_Record.thy ===== *)
theory FQ_Record
  imports FQ_Msg
begin

text \<open>
  The log record of \<^verbatim>\<open>src/queue/wal.go\<close>, the queue configuration it may carry
  (\<^verbatim>\<open>src/queue/queue.go\<close>), and the frame a record is stored in: a 4-byte big-endian body
  length, a 4-byte CRC-32 of the body, the body.

  The body is the record's JSON text. \<^verbatim>\<open>encoding/json\<close> is a parameter of the model, the
  pair of functions of a \<open>codec\<close>; theorems that depend on it name what they need, that
  decoding gives back the record that was encoded, up to the unexported \<^verbatim>\<open>index\<close>.
  The framing and the checksum are modelled in full.
\<close>

unbundle bit_operations_syntax

section \<open>Configuration and records\<close>

record Config =
  Name :: string
  Mode_of :: Mode
  Priority_on :: bool
  MaxAttempts :: int
  VisibilityTimeoutMS :: int

definition Visibility :: "Config \<Rightarrow> duration" where
  "Visibility c = wrap64 (VisibilityTimeoutMS c * Millisecond)"

text \<open>The kinds of record; \<open>OpOther\<close> is any other string found in a log.\<close>

datatype Op =
    OpCreateQueue | OpEnqueue | OpLease | OpAck | OpNack | OpDLQ | OpReplay | OpEpoch
  | OpOther string

record wal_record =
  rOp :: Op
  rQueue :: string
  rID :: string
  rMsg :: "msg option"
  rConfig :: "Config option"
  rEpoch :: u64
  rSeq :: u64
  rAt :: int

text \<open>The record literal of the sources: every field not named is Go's zero value.\<close>

definition zero_record :: wal_record where
  "zero_record = \<lparr>rOp = OpOther '''', rQueue = '''', rID = '''', rMsg = None, rConfig = None,
     rEpoch = 0, rSeq = 0, rAt = 0\<rparr>"

text \<open>What the unexported \<^verbatim>\<open>index\<close> leaves of a record after a trip through JSON.\<close>

definition wire :: "wal_record \<Rightarrow> wal_record" where
  "wire r = r\<lparr>rMsg := map_option strip (rMsg r)\<rparr>"

record codec =
  marshal :: "wal_record \<Rightarrow> byte list option"
  unmarshal :: "byte list \<Rightarrow> wal_record option"

section \<open>Big-endian words and CRC-32\<close>

definition PutUint32 :: "u32 \<Rightarrow> byte list" where
  "PutUint32 v = [ucast (drop_bit 24 v), ucast (drop_bit 16 v), ucast (drop_bit 8 v), ucast v]"

definition Uint32 :: "byte list \<Rightarrow> u32" where
  "Uint32 b =
     ucast (b ! 3) OR push_bit 8 (ucast (b ! 2)) OR push_bit 16 (ucast (b ! 1)) OR
     push_bit 24 (ucast (b ! 0))"

text \<open>
  The reflected CRC-32 with the IEEE polynomial, one bit at a time; Go's tables compute the
  same function eight bits at a time.
\<close>

definition crc_bit :: "u32 \<Rightarrow> u32" where
  "crc_bit c = (if bit c 0 then drop_bit 1 c XOR 0xEDB88320 else drop_bit 1 c)"

definition crc_byte :: "u32 \<Rightarrow> byte \<Rightarrow> u32" where
  "crc_byte c b = (crc_bit ^^ 8) (c XOR ucast b)"

definition ChecksumIEEE :: "byte list \<Rightarrow> u32" where
  "ChecksumIEEE bs = NOT (foldl crc_byte (NOT 0) bs)"

section \<open>Frames\<close>

definition recHeader :: nat where
  "recHeader = 8"

definition maxRecord :: nat where
  "maxRecord = 33554432"

definition frame :: "byte list \<Rightarrow> byte list" where
  "frame body = PutUint32 (of_nat (length body)) @ PutUint32 (ChecksumIEEE body) @ body"

definition encode :: "codec \<Rightarrow> wal_record \<Rightarrow> byte list result" where
  "encode c rec =
     (case marshal c rec of
        None \<Rightarrow> Inl ErrMarshal
      | Some body \<Rightarrow>
          if length body > maxRecord then Inl (ErrRecordTooLarge (length body))
          else Inr (frame body))"

lemma PutUint32_length [simp]: "length (PutUint32 v) = 4"
  by (simp add: PutUint32_def)

lemma Uint32_PutUint32: "Uint32 (PutUint32 v @ bs) = v"
proof (rule bit_word_eqI)
  fix n assume "n < LENGTH(32)"
  then consider "n < 8" | "8 \<le> n" "n < 16" | "16 \<le> n" "n < 24" | "24 \<le> n" "n < 32"
    by fastforce
  then show "bit (Uint32 (PutUint32 v @ bs)) n = bit v n"
    by cases (auto simp: Uint32_def PutUint32_def bit_simps)
qed

lemma PutUint32_Uint32: "PutUint32 (Uint32 (a # b # c # d # bs)) = [a, b, c, d]"
proof -
  have "ucast (drop_bit 24 (Uint32 (a # b # c # d # bs))) = a"
    "ucast (drop_bit 16 (Uint32 (a # b # c # d # bs))) = b"
    "ucast (drop_bit 8 (Uint32 (a # b # c # d # bs))) = c"
    "ucast (Uint32 (a # b # c # d # bs)) = d"
    by (rule bit_word_eqI, auto simp: Uint32_def bit_simps dest: bit_imp_le_length)+
  then show ?thesis by (simp add: PutUint32_def)
qed

lemma PutUint32_take: "4 \<le> length bs \<Longrightarrow> PutUint32 (Uint32 (take 4 bs)) = take 4 bs"
  by (auto simp: eval_nat_numeral Suc_le_length_iff PutUint32_Uint32)

lemma frame_length [simp]: "length (frame body) = recHeader + length body"
  by (simp add: frame_def recHeader_def)

lemma crc_byte_unfold:
  "crc_byte c b =
     crc_bit (crc_bit (crc_bit (crc_bit (crc_bit (crc_bit (crc_bit (crc_bit (c XOR ucast b))))))))"
  by (simp add: crc_byte_def eval_nat_numeral)

lemma crc_check_value:
  "ChecksumIEEE [0x31, 0x32, 0x33, 0x34, 0x35, 0x36, 0x37, 0x38, 0x39] = 0xCBF43926"
  by (simp add: ChecksumIEEE_def crc_byte_unfold crc_bit_def)

end
