(* ===== verification/FQ_World.thy ===== *)
theory FQ_World
  imports FQ_Record
begin

text \<open>
  Everything the program reads from outside: the wall clock, the random source, the JSON
  codec, and a file system. The program's calls into it are functions on a \<open>world\<close>.

  \<^item> The \<open>n\<close>-th call of \<^verbatim>\<open>time.Now\<close> returns \<open>nows n\<close>, the \<open>n\<close>-th call of \<^verbatim>\<open>rand.Read\<close> fills
    its buffer from \<open>rnds n\<close>, the \<open>n\<close>-th system call has the outcome \<open>ios n\<close>. Nothing is
    assumed of them here: a theorem that needs a clock that does not go back, identifiers
    that do not repeat or a disk that does not fail says so.
  \<^item> A file is an inode with its contents; \<open>stable\<close> holds the contents that the last
    successful \<^verbatim>\<open>fsync\<close> forced to disk. Directory entries map paths to inodes, so that a
    rename leaves an open handle on the old inode readable.
\<close>

datatype io = IOok | IOfail nat

record world =
  json :: codec
  nows :: "nat \<Rightarrow> gotime"
  now_i :: nat
  rnds :: "nat \<Rightarrow> nat \<Rightarrow> byte"
  rnd_i :: nat
  ios :: "nat \<Rightarrow> io"
  io_i :: nat
  files :: "nat \<Rightarrow> byte list"
  stable :: "nat \<Rightarrow> byte list"
  opened :: "nat \<Rightarrow> bool"
  dir :: "string \<Rightarrow> nat option"
  next_ino :: nat

section \<open>Clock and identifiers\<close>

definition time_Now :: "world \<Rightarrow> gotime \<times> world" where
  "time_Now W = (nows W (now_i W), W\<lparr>now_i := Suc (now_i W)\<rparr>)"

definition hexdigit :: "nat \<Rightarrow> char" where
  "hexdigit n = ''0123456789abcdef'' ! n"

definition EncodeToString :: "byte list \<Rightarrow> string" where
  "EncodeToString bs = concat (map (\<lambda>b. [hexdigit (unat b div 16), hexdigit (unat b mod 16)]) bs)"

definition newID :: "world \<Rightarrow> string \<times> world" where
  "newID W =
     (EncodeToString (map (rnds W (rnd_i W)) [0..<16]), W\<lparr>rnd_i := Suc (rnd_i W)\<rparr>)"

section \<open>Files\<close>

definition draw :: "world \<Rightarrow> io \<times> world" where
  "draw W = (ios W (io_i W), W\<lparr>io_i := Suc (io_i W)\<rparr>)"

text \<open>Writing \<open>buf\<close> at an offset; a gap before it reads as zeros.\<close>

definition splice :: "byte list \<Rightarrow> nat \<Rightarrow> byte list \<Rightarrow> byte list" where
  "splice xs off buf =
     take off (xs @ replicate (off - length xs) 0) @ buf @ drop (off + length buf) xs"

definition os_MkdirAll :: "world \<Rightarrow> world \<times> unit result" where
  "os_MkdirAll W =
     (case draw W of (IOok, W') \<Rightarrow> (W', Inr ()) | (IOfail _, W') \<Rightarrow> (W', Inl (ErrOS ''mkdir'')))"

definition os_OpenFile :: "string \<Rightarrow> bool \<Rightarrow> bool \<Rightarrow> world \<Rightarrow> world \<times> nat result" where
  "os_OpenFile path create trunc W =
     (case draw W of
        (IOfail _, W') \<Rightarrow> (W', Inl (ErrOS ''open''))
      | (IOok, W') \<Rightarrow>
          (case dir W' path of
             Some i \<Rightarrow>
               (W'\<lparr>opened := (opened W')(i := True),
                   files := (if trunc then (files W')(i := []) else files W')\<rparr>, Inr i)
           | None \<Rightarrow>
               if create
               then (let i = next_ino W'
                     in (W'\<lparr>opened := (opened W')(i := True), files := (files W')(i := []),
                            stable := (stable W')(i := []), dir := (dir W')(path \<mapsto> i),
                            next_ino := Suc i\<rparr>, Inr i))
               else (W', Inl (ErrOS ''no such file''))))"

definition os_Stat :: "nat \<Rightarrow> world \<Rightarrow> world \<times> nat result" where
  "os_Stat i W =
     (case draw W of
        (IOok, W') \<Rightarrow> (W', Inr (length (files W' i)))
      | (IOfail _, W') \<Rightarrow> (W', Inl (ErrOS ''stat'')))"

text \<open>A failing write may have put any strict prefix of the buffer into the file.\<close>

definition os_WriteAt :: "nat \<Rightarrow> byte list \<Rightarrow> nat \<Rightarrow> world \<Rightarrow> world \<times> unit result" where
  "os_WriteAt i buf off W =
     (if \<not> opened W i then (W, Inl (ErrOS ''file already closed''))
      else (case draw W of
              (IOok, W') \<Rightarrow> (W'\<lparr>files := (files W')(i := splice (files W' i) off buf)\<rparr>, Inr ())
            | (IOfail k, W') \<Rightarrow>
                (W'\<lparr>files := (files W')(i := splice (files W' i) off (take (min k (length buf - 1)) buf))\<rparr>,
                 Inl (ErrOS ''write''))))"

definition os_Sync :: "nat \<Rightarrow> world \<Rightarrow> world \<times> unit result" where
  "os_Sync i W =
     (if \<not> opened W i then (W, Inl (ErrOS ''file already closed''))
      else (case draw W of
              (IOok, W') \<Rightarrow> (W'\<lparr>stable := (stable W')(i := files W' i)\<rparr>, Inr ())
            | (IOfail _, W') \<Rightarrow> (W', Inl (ErrOS ''fsync''))))"

definition os_Truncate :: "nat \<Rightarrow> nat \<Rightarrow> world \<Rightarrow> world \<times> unit result" where
  "os_Truncate i n W =
     (if \<not> opened W i then (W, Inl (ErrOS ''file already closed''))
      else (case draw W of
              (IOok, W') \<Rightarrow>
                (W'\<lparr>files := (files W')
                      (i := take n (files W' i @ replicate (n - length (files W' i)) 0))\<rparr>, Inr ())
            | (IOfail _, W') \<Rightarrow> (W', Inl (ErrOS ''truncate''))))"

definition os_Close :: "nat \<Rightarrow> world \<Rightarrow> world \<times> unit result" where
  "os_Close i W =
     (if \<not> opened W i then (W, Inl (ErrOS ''file already closed''))
      else (case draw W of
              (IOok, W') \<Rightarrow> (W'\<lparr>opened := (opened W')(i := False)\<rparr>, Inr ())
            | (IOfail _, W') \<Rightarrow> (W'\<lparr>opened := (opened W')(i := False)\<rparr>, Inl (ErrOS ''close''))))"

definition os_Rename :: "string \<Rightarrow> string \<Rightarrow> world \<Rightarrow> world \<times> unit result" where
  "os_Rename a b W =
     (case draw W of
        (IOok, W') \<Rightarrow> (W'\<lparr>dir := (dir W')(a := None, b := dir W' a)\<rparr>, Inr ())
      | (IOfail _, W') \<Rightarrow> (W', Inl (ErrOS ''rename'')))"

definition os_Remove :: "string \<Rightarrow> world \<Rightarrow> world" where
  "os_Remove a W =
     (case draw W of
        (IOok, W') \<Rightarrow> W'\<lparr>dir := (dir W')(a := None)\<rparr>
      | (IOfail _, W') \<Rightarrow> W')"

text \<open>
  Reading \<open>n\<close> bytes from an offset through a buffered section reader: the bytes that can be
  read, and whether reading ended in an error rather than at the end of the section.
\<close>

definition os_read :: "nat \<Rightarrow> nat \<Rightarrow> nat \<Rightarrow> world \<Rightarrow> world \<times> byte list \<times> bool" where
  "os_read i off n W =
     (if \<not> opened W i then (W, [], True)
      else (case draw W of
              (IOok, W') \<Rightarrow> (W', take n (drop off (files W' i)), False)
            | (IOfail k, W') \<Rightarrow> (W', take k (take n (drop off (files W' i))), True)))"

text \<open>Opening a directory, forcing it to disk and closing it; the outcomes are ignored.\<close>

definition os_sync_dir :: "world \<Rightarrow> world" where
  "os_sync_dir W =
     (case draw W of
        (IOok, W') \<Rightarrow> snd (draw (snd (draw W')))
      | (IOfail _, W') \<Rightarrow> W')"

section \<open>Facts about the world\<close>

text \<open>What a file operation leaves alone: the codec, the clock and the random source.\<close>

definition same_env :: "world \<Rightarrow> world \<Rightarrow> bool" where
  "same_env W W' \<longleftrightarrow>
     json W' = json W \<and> nows W' = nows W \<and> rnds W' = rnds W \<and> ios W' = ios W \<and>
     now_i W \<le> now_i W' \<and> rnd_i W \<le> rnd_i W' \<and> io_i W \<le> io_i W'"

lemma same_env_refl [simp, intro]: "same_env W W"
  by (simp add: same_env_def)

lemma same_env_trans [trans]: "same_env W W' \<Longrightarrow> same_env W' W'' \<Longrightarrow> same_env W W''"
  by (auto simp: same_env_def)

text \<open>A disk on which no system call fails from now on.\<close>

definition reliable :: "world \<Rightarrow> bool" where
  "reliable W \<longleftrightarrow> (\<forall>n \<ge> io_i W. ios W n = IOok)"

lemma reliable_mono: "reliable W \<Longrightarrow> same_env W W' \<Longrightarrow> reliable W'"
  by (auto simp: reliable_def same_env_def)

lemma reliable_draw [simp]: "reliable W \<Longrightarrow> draw W = (IOok, W\<lparr>io_i := Suc (io_i W)\<rparr>)"
  by (simp add: reliable_def draw_def)

lemma splice_end [simp]: "splice xs (length xs) buf = xs @ buf"
  by (simp add: splice_def)

lemma take_splice: "off \<le> length xs \<Longrightarrow> take off (splice xs off buf) = take off xs"
  by (simp add: splice_def)

lemma take_splice_all:
  "off \<le> length xs \<Longrightarrow> take (off + length buf) (splice xs off buf) = take off xs @ buf"
  by (simp add: splice_def)

lemma length_splice: "off \<le> length xs \<Longrightarrow> length (splice xs off buf) = max (length xs) (off + length buf)"
  by (simp add: splice_def)

lemma hexdigit_inj: "a < 16 \<Longrightarrow> b < 16 \<Longrightarrow> hexdigit a = hexdigit b \<Longrightarrow> a = b"
proof -
  have "distinct ''0123456789abcdef''" by simp
  moreover have "length ''0123456789abcdef'' = 16" by simp
  ultimately show "a < 16 \<Longrightarrow> b < 16 \<Longrightarrow> hexdigit a = hexdigit b \<Longrightarrow> a = b"
    unfolding hexdigit_def by (metis nth_eq_iff_index_eq)
qed

text \<open>Hexadecimal text identifies the bytes, so distinct random draws are distinct names.\<close>

lemma EncodeToString_inj: "EncodeToString xs = EncodeToString ys \<Longrightarrow> xs = ys"
proof (induction xs arbitrary: ys)
  case Nil
  then show ?case by (cases ys) (simp_all add: EncodeToString_def)
next
  case (Cons x xs)
  then obtain y zs where ys: "ys = y # zs" by (cases ys) (auto simp: EncodeToString_def)
  have lt: "unat x div 16 < 16" "unat y div 16 < 16"
    using unsigned_less [of x, where 'a = nat] unsigned_less [of y, where 'a = nat] by auto
  have "hexdigit (unat x div 16) = hexdigit (unat y div 16)"
    "hexdigit (unat x mod 16) = hexdigit (unat y mod 16)"
    "EncodeToString xs = EncodeToString zs"
    using Cons.prems ys by (auto simp: EncodeToString_def)
  then have "unat x div 16 = unat y div 16" "unat x mod 16 = unat y mod 16" "xs = zs"
    using lt hexdigit_inj Cons.IH mod_less_divisor [of 16] zero_less_numeral by metis+
  then have "unat x = unat y" by (metis div_mult_mod_eq)
  then show ?case using ys \<open>xs = zs\<close> by (simp add: word_unat_eq_iff)
qed

lemma EncodeToString_length [simp]: "length (EncodeToString xs) = 2 * length xs"
  by (induction xs) (simp_all add: EncodeToString_def)

end
