(* ===== verification/FQ_Wal.thy ===== *)
theory FQ_Wal
  imports FQ_World
begin

text \<open>
  The write ahead log of \<^verbatim>\<open>src/queue/wal.go\<close>: appending, scanning, recovery, truncation of
  a torn tail, compaction, group commit and closing.

  The mutex is not modelled as such: every operation holds it for its whole critical
  section, so an execution is an interleaving of the operations below. The background
  flusher is the operation \<open>flusher_tick\<close>. The \<^verbatim>\<open>stop\<close> channel is the flag \<open>w_stop\<close>, the
  \<^verbatim>\<open>closeOnce\<close> is \<open>w_closed\<close>.
\<close>

section \<open>State\<close>

record wal =
  w_f :: nat
  w_path :: string
  w_size :: nat
  w_epoch :: u64
  w_retired :: "nat list"
  w_failed :: "error option"
  w_syncEvery :: duration
  w_dirty :: bool
  w_stop :: bool
  w_closed :: bool

definition OpenWAL :: "string \<Rightarrow> duration \<Rightarrow> world \<Rightarrow> world \<times> wal result" where
  "OpenWAL path syncEvery W =
     (case os_MkdirAll W of
        (W1, Inl e) \<Rightarrow> (W1, Inl e)
      | (W1, Inr _) \<Rightarrow>
          (case os_OpenFile path True False W1 of
             (W2, Inl e) \<Rightarrow> (W2, Inl e)
           | (W2, Inr f) \<Rightarrow>
               (case os_Stat f W2 of
                  (W3, Inl e) \<Rightarrow> (fst (os_Close f W3), Inl e)
                | (W3, Inr sz) \<Rightarrow>
                    (W3, Inr \<lparr>w_f = f, w_path = path, w_size = sz, w_epoch = 0, w_retired = [],
                              w_failed = None, w_syncEvery = syncEvery, w_dirty = False,
                              w_stop = False, w_closed = False\<rparr>))))"

section \<open>Appending\<close>

definition stamp :: "wal_record \<Rightarrow> world \<Rightarrow> wal_record \<times> world" where
  "stamp rec W =
     (if rAt rec = 0 then (case time_Now W of (t, W') \<Rightarrow> (rec\<lparr>rAt := UnixNano t\<rparr>, W'))
      else (rec, W))"

definition wal_write :: "wal \<Rightarrow> world \<Rightarrow> wal_record \<Rightarrow> bool \<Rightarrow> wal \<times> world \<times> unit result" where
  "wal_write w W rec0 durable =
     (case stamp rec0 W of
        (rec, W0) \<Rightarrow>
          (case encode (json W0) rec of
             Inl e \<Rightarrow> (w, W0, Inl e)
           | Inr buf \<Rightarrow>
               (case w_failed w of
                  Some e \<Rightarrow> (w, W0, Inl (ErrLogUnusable e))
                | None \<Rightarrow>
                    (case os_WriteAt (w_f w) buf (w_size w) W0 of
                       (W1, Inl e) \<Rightarrow> (w, W1, Inl e)
                     | (W1, Inr _) \<Rightarrow>
                         (let w1 = w\<lparr>w_size := w_size w + length buf\<rparr>
                          in if \<not> durable then (w1, W1, Inr ())
                             else if w_syncEvery w1 > 0 then (w1\<lparr>w_dirty := True\<rparr>, W1, Inr ())
                             else (case os_Sync (w_f w1) W1 of
                                     (W2, Inl e) \<Rightarrow> (w1\<lparr>w_failed := Some e\<rparr>, W2, Inl e)
                                   | (W2, Inr _) \<Rightarrow> (w1, W2, Inr ())))))))"

definition Append :: "wal \<Rightarrow> world \<Rightarrow> wal_record \<Rightarrow> wal \<times> world \<times> unit result" where
  "Append w W rec = wal_write w W rec False"

definition AppendSync :: "wal \<Rightarrow> world \<Rightarrow> wal_record \<Rightarrow> wal \<times> world \<times> unit result" where
  "AppendSync w W rec = wal_write w W rec True"

section \<open>Scanning\<close>

text \<open>
  The scanning loop over the bytes that can be read. \<open>bad\<close> says that reading ends in an I/O
  error rather than at the end of the log. The callback \<open>fn\<close> updates its own state \<open>'s\<close> and
  may stop the scan with an error.
\<close>

type_synonym 's callback = "wal_record \<Rightarrow> nat \<Rightarrow> 's \<Rightarrow> 's \<times> error option"

datatype scan_end = ScanEOF | ScanStop error | ScanFail nat string

function scan_loop ::
  "(byte list \<Rightarrow> wal_record option) \<Rightarrow> 's callback \<Rightarrow> byte list \<Rightarrow> bool \<Rightarrow> nat \<Rightarrow> u64 \<Rightarrow> 's \<Rightarrow>
   u64 \<times> 's \<times> scan_end" where
  "scan_loop un fn bs bad off ep s =
     (if length bs < recHeader
      then (ep, s, if bs = [] \<and> \<not> bad then ScanEOF else ScanFail off ''partial header'')
      else
        let n = unat (Uint32 (take 4 bs)); sum = Uint32 (take 4 (drop 4 bs));
            rest = drop recHeader bs
        in if n = 0 \<or> n > maxRecord then (ep, s, ScanFail off ''implausible record length'')
           else if length rest < n then (ep, s, ScanFail off ''truncated body'')
           else if ChecksumIEEE (take n rest) \<noteq> sum then (ep, s, ScanFail off ''checksum mismatch'')
           else case un (take n rest) of
                  None \<Rightarrow> (ep, s, ScanFail off ''undecodable record'')
                | Some rec \<Rightarrow>
                    if rOp rec = OpEpoch
                    then scan_loop un fn (drop n rest) bad (off + recHeader + n)
                           (if rEpoch rec > ep then rEpoch rec else ep) s
                    else case fn rec off s of
                           (s', Some e) \<Rightarrow> (ep, s', ScanStop e)
                         | (s', None) \<Rightarrow>
                             scan_loop un fn (drop n rest) bad (off + recHeader + n) ep s')"
  by pat_completeness auto
termination
  by (relation "measure (\<lambda>(un, fn, bs, bad, off, ep, s). length bs)") (auto simp: recHeader_def)

declare scan_loop.simps [simp del]

definition truncate :: "wal \<Rightarrow> world \<Rightarrow> nat \<Rightarrow> wal \<times> world \<times> unit result" where
  "truncate w W at =
     (if at \<ge> w_size w then (w, W, Inr ())
      else (case os_Truncate (w_f w) at W of
              (W1, Inl e) \<Rightarrow> (w, W1, Inl e)
            | (W1, Inr _) \<Rightarrow>
                (case os_Sync (w_f w) W1 of (W2, r) \<Rightarrow> (w\<lparr>w_size := at\<rparr>, W2, r))))"

definition scan ::
  "wal \<Rightarrow> world \<Rightarrow> int \<Rightarrow> bool \<Rightarrow> 's callback \<Rightarrow> 's \<Rightarrow> wal \<times> world \<times> 's \<times> unit result" where
  "scan w W from repair fn s =
     (if from < 0 then (w, W, s, Inl (ErrOffsetNegative from))
      else if from > int (w_size w) then (w, W, s, Inl (ErrOffsetPastEnd from (w_size w)))
      else if from = int (w_size w) then (w, W, s, Inr ())
      else
        (case os_read (w_f w) (nat from) (w_size w - nat from) W of
           (W1, bs, bad) \<Rightarrow>
             (case scan_loop (unmarshal (json W1)) fn bs bad (nat from) (w_epoch w) s of
                (ep, s', fin) \<Rightarrow>
                  (let w1 = w\<lparr>w_epoch := ep\<rparr>
                   in (case fin of
                         ScanEOF \<Rightarrow> (w1, W1, s', Inr ())
                       | ScanStop e \<Rightarrow> (w1, W1, s', Inl e)
                       | ScanFail at reason \<Rightarrow>
                           if repair
                           then (case truncate w1 W1 at of (w2, W2, r) \<Rightarrow> (w2, W2, s', r))
                           else (w1, W1, s', Inl (ErrCorrupt at reason)))))))"

definition Recover :: "wal \<Rightarrow> world \<Rightarrow> 's callback \<Rightarrow> 's \<Rightarrow> wal \<times> world \<times> 's \<times> unit result" where
  "Recover w W fn s = scan w W 0 True fn s"

definition Scan :: "wal \<Rightarrow> world \<Rightarrow> int \<Rightarrow> 's callback \<Rightarrow> 's \<Rightarrow> wal \<times> world \<times> 's \<times> unit result" where
  "Scan w W from fn s = scan w W from False fn s"

section \<open>Compaction\<close>

text \<open>The loop that writes the new file, record by record.\<close>

fun write_all :: "nat \<Rightarrow> wal_record list \<Rightarrow> nat \<Rightarrow> world \<Rightarrow> world \<times> nat result" where
  "write_all f [] off W = (W, Inr off)"
| "write_all f (rec0 # recs) off W =
     (case stamp rec0 W of
        (rec, W0) \<Rightarrow>
          (case encode (json W0) rec of
             Inl e \<Rightarrow> (W0, Inl e)
           | Inr buf \<Rightarrow>
               (case os_WriteAt f buf off W0 of
                  (W1, Inl e) \<Rightarrow> (W1, Inl e)
                | (W1, Inr _) \<Rightarrow> write_all f recs (off + length buf) W1)))"

definition epoch_record :: "u64 \<Rightarrow> wal_record" where
  "epoch_record ep = zero_record\<lparr>rOp := OpEpoch, rEpoch := ep\<rparr>"

definition wal_Compact :: "wal \<Rightarrow> world \<Rightarrow> wal_record list \<Rightarrow> wal \<times> world \<times> unit result" where
  "wal_Compact w W live =
     (case w_failed w of
        Some e \<Rightarrow> (w, W, Inl (ErrLogUnusable e))
      | None \<Rightarrow>
          (let tmp = w_path w @ ''.compacting'' in
           case os_OpenFile tmp True True W of
             (W1, Inl e) \<Rightarrow> (w, W1, Inl e)
           | (W1, Inr f) \<Rightarrow>
               (case write_all f (epoch_record (w_epoch w + 1) # live) 0 W1 of
                  (W2, Inl e) \<Rightarrow> (w, os_Remove tmp (fst (os_Close f W2)), Inl e)
                | (W2, Inr off) \<Rightarrow>
                    (case os_Sync f W2 of
                       (W3, Inl e) \<Rightarrow> (w, os_Remove tmp (fst (os_Close f W3)), Inl e)
                     | (W3, Inr _) \<Rightarrow>
                         (case os_Close f W3 of
                            (W4, Inl e) \<Rightarrow> (w, os_Remove tmp W4, Inl e)
                          | (W4, Inr _) \<Rightarrow>
                              (case os_Rename tmp (w_path w) W4 of
                                 (W5, Inl e) \<Rightarrow> (w, os_Remove tmp W5, Inl e)
                               | (W5, Inr _) \<Rightarrow>
                                   (case os_OpenFile (w_path w) False False (os_sync_dir W5) of
                                      (W6, Inl e) \<Rightarrow>
                                        (w\<lparr>w_failed := Some (ErrReopen e)\<rparr>, W6, Inl (ErrReopen e))
                                    | (W6, Inr nf) \<Rightarrow>
                                        (w\<lparr>w_retired := w_retired w @ [w_f w], w_f := nf,
                                           w_size := off, w_epoch := w_epoch w + 1\<rparr>,
                                         W6, Inr ()))))))))"

section \<open>Bookmarks, health, group commit, closing\<close>

definition wal_Bookmark :: "wal \<Rightarrow> u64 \<times> nat" where
  "wal_Bookmark w = (w_epoch w, w_size w)"

definition wal_Err :: "wal \<Rightarrow> error option" where
  "wal_Err w = w_failed w"

definition flusher_tick :: "wal \<Rightarrow> world \<Rightarrow> wal \<times> world" where
  "flusher_tick w W =
     (if w_syncEvery w \<le> 0 \<or> w_stop w then (w, W)
      else if w_dirty w
      then (case os_Sync (w_f w) W of
              (W1, Inl e) \<Rightarrow>
                (w\<lparr>w_failed := (case w_failed w of None \<Rightarrow> Some e | Some e0 \<Rightarrow> Some e0),
                   w_dirty := False\<rparr>, W1)
            | (W1, Inr _) \<Rightarrow> (w\<lparr>w_dirty := False\<rparr>, W1))
      else (w, W))"

fun close_all :: "nat list \<Rightarrow> world \<Rightarrow> world" where
  "close_all [] W = W"
| "close_all (i # is) W = close_all is (fst (os_Close i W))"

definition wal_Close :: "wal \<Rightarrow> world \<Rightarrow> wal \<times> world \<times> unit result" where
  "wal_Close w W =
     (if w_closed w then (w, W, Inr ())
      else
        (let w1 = w\<lparr>w_closed := True, w_stop := (w_stop w \<or> w_syncEvery w > 0), w_retired := []\<rparr>;
             W1 = close_all (w_retired w) W
         in (case os_Sync (w_f w) W1 of
               (W2, Inl e) \<Rightarrow> (w1, fst (os_Close (w_f w) W2), Inl e)
             | (W2, Inr _) \<Rightarrow> (case os_Close (w_f w) W2 of (W3, r) \<Rightarrow> (w1, W3, r)))))"

section \<open>The records of a byte string\<close>

text \<open>
  \<open>parse\<close> is the reference reading of a log: the records of the longest prefix made of
  whole, intact frames, and the bytes left over. The scanning loop is shown to agree with
  it below.
\<close>

function parse :: "(byte list \<Rightarrow> wal_record option) \<Rightarrow> byte list \<Rightarrow> wal_record list \<times> byte list" where
  "parse un bs =
     (if length bs < recHeader then ([], bs)
      else
        let n = unat (Uint32 (take 4 bs)); rest = drop recHeader bs
        in if n = 0 \<or> n > maxRecord \<or> length rest < n \<or>
              ChecksumIEEE (take n rest) \<noteq> Uint32 (take 4 (drop 4 bs))
           then ([], bs)
           else case un (take n rest) of
                  None \<Rightarrow> ([], bs)
                | Some rec \<Rightarrow> (case parse un (drop n rest) of (rs, t) \<Rightarrow> (rec # rs, t)))"
  by pat_completeness auto
termination
  by (relation "measure (\<lambda>(un, bs). length bs)") (auto simp: recHeader_def)

declare parse.simps [simp del]

text \<open>A body that can stand in a frame, and the record it is read as.\<close>

definition body_ok :: "(byte list \<Rightarrow> wal_record option) \<Rightarrow> byte list \<Rightarrow> wal_record \<Rightarrow> bool" where
  "body_ok un body r \<longleftrightarrow> 0 < length body \<and> length body \<le> maxRecord \<and> un body = Some r"

lemma parse_Nil [simp]: "parse un [] = ([], [])"
  by (simp add: parse.simps recHeader_def)

lemma frame_split:
  assumes "body_ok un body r"
  shows "\<not> length (frame body @ bs) < recHeader"
    and "unat (Uint32 (take 4 (frame body @ bs))) = length body"
    and "Uint32 (take 4 (drop 4 (frame body @ bs))) = ChecksumIEEE body"
    and "drop recHeader (frame body @ bs) = body @ bs"
proof -
  have "length body < 2 ^ 32" using assms by (simp add: body_ok_def maxRecord_def)
  then have u: "unat (of_nat (length body) :: u32) = length body" by (simp add: unat_of_nat)
  have t: "take 4 (frame body @ bs) = PutUint32 (of_nat (length body)) @ []"
    "take 4 (drop 4 (frame body @ bs)) = PutUint32 (ChecksumIEEE body) @ []"
    by (simp_all add: frame_def)
  show "unat (Uint32 (take 4 (frame body @ bs))) = length body"
    "Uint32 (take 4 (drop 4 (frame body @ bs))) = ChecksumIEEE body"
    unfolding t Uint32_PutUint32 by (rule u) simp
  show "\<not> length (frame body @ bs) < recHeader" "drop recHeader (frame body @ bs) = body @ bs"
    by (simp_all add: frame_def recHeader_def)
qed

lemma parse_frame:
  assumes "body_ok un body r"
  shows "parse un (frame body @ bs) = (r # fst (parse un bs), snd (parse un bs))"
  using assms frame_split [OF assms, of bs]
  by (subst parse.simps) (simp add: Let_def body_ok_def split: prod.split)

text \<open>Every parsed prefix is a sequence of frames, so reading distributes over append.\<close>

lemma parse_cases:
  assumes "parse un bs = (rs, t)"
  obtains (stop) "rs = []" "t = bs"
  | (step) body r rs' bs' where "body_ok un body r" "bs = frame body @ bs'" "rs = r # rs'"
      "parse un bs' = (rs', t)"
proof -
  define n where "n = unat (Uint32 (take 4 bs))"
  define body where "body = take n (drop recHeader bs)"
  define bs' where "bs' = drop n (drop recHeader bs)"
  let ?bad = "n = 0 \<or> n > maxRecord \<or> length (drop recHeader bs) < n \<or>
    ChecksumIEEE body \<noteq> Uint32 (take 4 (drop 4 bs))"
  show thesis
  proof (cases "length bs < recHeader \<or> ?bad \<or> un body = None")
    case True
    then have "parse un bs = ([], bs)"
      by (subst parse.simps) (auto simp: Let_def n_def body_def)
    then show thesis using assms stop by simp
  next
    case False
    then obtain r where r: "un body = Some r" by auto
    have len: "length body = n" "8 \<le> length bs" using False by (auto simp: body_def recHeader_def)
    have ok: "body_ok un body r" using False r len by (simp add: body_ok_def)
    have "of_nat (length body) = Uint32 (take 4 bs)" using len by (simp add: n_def)
    then have "PutUint32 (of_nat (length body)) = take 4 bs"
      "PutUint32 (ChecksumIEEE body) = take 4 (drop 4 bs)"
      using False len PutUint32_take [of bs] PutUint32_take [of "drop 4 bs"] by auto
    moreover have "body @ bs' = drop 8 bs"
      unfolding body_def bs'_def append_take_drop_id by (simp add: recHeader_def)
    ultimately have "frame body @ bs' = take 4 bs @ take 4 (drop 4 bs) @ drop 8 bs"
      by (simp add: frame_def)
    also have "\<dots> = bs" by (metis append_take_drop_id drop_drop numeral_Bit0)
    finally have bs: "bs = frame body @ bs'" by simp
    then have "parse un bs = (r # fst (parse un bs'), snd (parse un bs'))"
      using parse_frame [OF ok] by simp
    then show thesis using step [OF ok bs] assms by (metis prod.collapse prod.inject)
  qed
qed

lemma parse_append:
  "parse un bs = (rs, []) \<Longrightarrow> parse un (bs @ u) = (rs @ fst (parse un u), snd (parse un u))"
proof (induction "length bs" arbitrary: bs rs rule: less_induct)
  case less
  from less.prems show ?case
  proof (cases rule: parse_cases)
    case stop
    then show ?thesis by simp
  next
    case (step body r rs' bs')
    have "parse un (bs' @ u) = (rs' @ fst (parse un u), snd (parse un u))"
      using less.hyps [OF _ step(4)] step(2) by (simp add: recHeader_def)
    then show ?thesis using step parse_frame [OF step(1), of "bs' @ u"] by simp
  qed
qed

lemma parse_split:
  "parse un bs = (rs, t) \<Longrightarrow> \<exists>p. bs = p @ t \<and> parse un p = (rs, [])"
proof (induction "length bs" arbitrary: bs rs rule: less_induct)
  case less
  from less.prems show ?case
  proof (cases rule: parse_cases)
    case stop
    then show ?thesis by simp
  next
    case (step body r rs' bs')
    obtain p where p: "bs' = p @ t" "parse un p = (rs', [])"
      using less.hyps [OF _ step(4)] step(2) by (auto simp: recHeader_def)
    then have "bs = (frame body @ p) @ t" "parse un (frame body @ p) = (rs, [])"
      using step parse_frame [OF step(1), of p] by simp_all
    then show ?thesis by blast
  qed
qed

text \<open>A write cut short is never mistaken for a record.\<close>

lemma parse_torn:
  assumes "body_ok un body r" and "m < length (frame body)"
  shows "parse un (take m (frame body)) = ([], take m (frame body))"
proof (cases "m < recHeader")
  case True
  then show ?thesis using assms(2) by (subst parse.simps) simp
next
  case False
  define t where "t = take m (frame body)"
  have l: "length t = m" using assms(2) by (simp add: t_def)
  have "take 4 t = take 4 (frame body @ [])" using False by (simp add: t_def recHeader_def min_def)
  then have n: "unat (Uint32 (take 4 t)) = length body" using frame_split(2) [OF assms(1)] by metis
  have "length (drop recHeader t) < length body" using l assms(2) False by simp
  then have "parse un t = ([], t)" using False l n by (subst parse.simps) (simp add: Let_def)
  then show ?thesis by (simp add: t_def)
qed

section \<open>The scanning loop reads what parse reads\<close>

definition data :: "wal_record list \<Rightarrow> wal_record list" where
  "data rs = filter (\<lambda>r. rOp r \<noteq> OpEpoch) rs"

fun epoch_after :: "u64 \<Rightarrow> wal_record list \<Rightarrow> u64" where
  "epoch_after ep [] = ep"
| "epoch_after ep (r # rs) =
     epoch_after (if rOp r = OpEpoch \<and> rEpoch r > ep then rEpoch r else ep) rs"

lemma data_append [simp]: "data (rs @ ss) = data rs @ data ss"
  by (simp add: data_def)

lemma epoch_after_append [simp]: "epoch_after ep (rs @ ss) = epoch_after (epoch_after ep rs) ss"
  by (induction rs arbitrary: ep) simp_all

lemma scan_loop_stop:
  assumes "parse un bs = ([], bs)" and "bs \<noteq> []"
  shows "\<exists>reason. scan_loop un fn bs bad off ep s = (ep, s, ScanFail off reason)"
proof (cases "length bs < recHeader")
  case True
  then show ?thesis using assms(2) by (subst scan_loop.simps) simp
next
  case False
  let ?n = "unat (Uint32 (take 4 bs))" and ?rest = "drop recHeader bs"
  have "?n = 0 \<or> ?n > maxRecord \<or> length ?rest < ?n \<or>
      ChecksumIEEE (take ?n ?rest) \<noteq> Uint32 (take 4 (drop 4 bs)) \<or> un (take ?n ?rest) = None"
    using assms(1) False
    by (subst (asm) parse.simps) (auto simp: Let_def split: if_splits option.splits prod.splits)
  then show ?thesis using False
    by (subst scan_loop.simps) (auto simp: Let_def)
qed

lemma scan_loop_frame:
  assumes "body_ok un body r"
  shows "scan_loop un (\<lambda>r off s. (g r s, None)) (frame body @ bs) bad off ep s =
     scan_loop un (\<lambda>r off s. (g r s, None)) bs bad (off + recHeader + length body)
       (epoch_after ep [r]) (fold g (data [r]) s)"
  using assms frame_split [OF assms, of bs]
  by (subst scan_loop.simps) (simp add: Let_def body_ok_def data_def)

text \<open>
  The scan delivers exactly the parsed records, in order, epoch records aside, and stops
  at the end of the log or at the first byte that \<open>parse\<close> could not use.
\<close>

lemma scan_loop_parse:
  "parse un bs = (rs, t) \<Longrightarrow>
     \<exists>reason. scan_loop un (\<lambda>r off s. (g r s, None)) bs bad off ep s =
       (epoch_after ep rs, fold g (data rs) s,
        if t = [] \<and> \<not> bad then ScanEOF else ScanFail (off + (length bs - length t)) reason)"
proof (induction "length bs" arbitrary: bs rs off ep s rule: less_induct)
  case less
  from less.prems show ?case
  proof (cases rule: parse_cases)
    case stop
    show ?thesis
    proof (cases "bs = []")
      case True
      then show ?thesis using stop by (subst scan_loop.simps) (simp add: recHeader_def data_def)
    next
      case False
      then show ?thesis using stop scan_loop_stop [of un bs] less.prems by (simp add: data_def)
    qed
  next
    case (step body r rs' bs')
    obtain p where "bs' = p @ t" using parse_split [OF step(4)] by blast
    then have "length t \<le> length bs'" by simp
    then show ?thesis
      using less.hyps [OF _ step(4), of "off + recHeader + length body" "epoch_after ep [r]"
          "fold g (data [r]) s"] step scan_loop_frame [OF step(1), of g bs' bad off ep s]
      by (auto simp: recHeader_def data_def)
  qed
qed

section \<open>The log as a list of records\<close>

text \<open>
  \<open>history\<close> abstracts a log to the records it holds, without write times and cached heap
  indices, neither of which anything reads back. \<open>wal_ok\<close> is the invariant of a log in use:
  the first \<open>w_size\<close> bytes of the file are whole frames, the handle is open and is the one
  the path names.
\<close>

definition norm :: "wal_record \<Rightarrow> wal_record" where
  "norm r = (wire r)\<lparr>rAt := 0\<rparr>"

definition logbytes :: "wal \<Rightarrow> world \<Rightarrow> byte list" where
  "logbytes w W = take (w_size w) (files W (w_f w))"

definition history :: "wal \<Rightarrow> world \<Rightarrow> wal_record list" where
  "history w W = map norm (fst (parse (unmarshal (json W)) (logbytes w W)))"

definition fs_ok :: "nat \<Rightarrow> string \<Rightarrow> world \<Rightarrow> bool" where
  "fs_ok f p W \<longleftrightarrow>
     opened W f \<and> f < next_ino W \<and> (\<forall>q i. dir W q = Some i \<longrightarrow> i < next_ino W) \<and>
     (\<forall>q q' i. dir W q = Some i \<longrightarrow> dir W q' = Some i \<longrightarrow> q = q') \<and>
     (\<forall>q. dir W q = Some f \<longrightarrow> q = p)"

definition handle_ok :: "wal \<Rightarrow> world \<Rightarrow> bool" where
  "handle_ok w W \<longleftrightarrow>
     fs_ok (w_f w) (w_path w) W \<and> (w_failed w = None \<longrightarrow> dir W (w_path w) = Some (w_f w))"

definition wal_ok :: "wal \<Rightarrow> world \<Rightarrow> bool" where
  "wal_ok w W \<longleftrightarrow>
     handle_ok w W \<and> w_size w \<le> length (files W (w_f w)) \<and>
     snd (parse (unmarshal (json W)) (logbytes w W)) = []"

text \<open>
  What the log needs of \<^verbatim>\<open>encoding/json\<close>: an encoded record is not empty and decodes to
  itself, up to the unexported field.
\<close>

definition codec_ok :: "codec \<Rightarrow> bool" where
  "codec_ok c \<longleftrightarrow>
     (\<forall>r body. marshal c r = Some body \<longrightarrow> body \<noteq> [] \<and> unmarshal c body = Some (wire r))"

lemma norm_sel [simp]:
  "rOp (norm r) = rOp r" "rQueue (norm r) = rQueue r" "rID (norm r) = rID r"
  "rMsg (norm r) = map_option strip (rMsg r)" "rConfig (norm r) = rConfig r"
  "rEpoch (norm r) = rEpoch r" "rSeq (norm r) = rSeq r" "rAt (norm r) = 0"
  by (simp_all add: norm_def wire_def)

lemma norm_wire [simp]: "norm (wire r) = norm r"
  by (simp add: norm_def wire_def option.map_comp comp_def)

lemma norm_stamp: "stamp r W = (r', W') \<Longrightarrow> norm r' = norm r"
  by (auto simp: stamp_def time_Now_def norm_def wire_def split: if_splits)

lemma stamp_time: "stamp r W = (r', W') \<Longrightarrow> rAt r = 0 \<Longrightarrow> int64_range (rAt r')"
  by (auto simp: stamp_def time_Now_def UnixNano_def wrap64_range)

lemma stamp_world:
  "stamp r W = (r', W') \<Longrightarrow>
     \<exists>k. W' = W\<lparr>now_i := now_i W + k\<rparr>"
  by (auto simp: stamp_def time_Now_def split: if_splits intro: exI [of _ 0] exI [of _ "Suc 0"])

lemma encode_ok:
  assumes "encode c r = Inr buf" and "codec_ok c"
  shows "\<exists>body. buf = frame body \<and> body_ok (unmarshal c) body (wire r)"
proof -
  obtain body where "marshal c r = Some body" "length body \<le> maxRecord" "buf = frame body"
    using assms(1) by (auto simp: encode_def split: option.splits if_splits)
  then show ?thesis using assms(2) by (auto simp: codec_ok_def body_ok_def)
qed

text \<open>Appending a frame at the end of the log appends its record to the history.\<close>

lemma parse_grow:
  assumes "snd (parse un (take n xs)) = []" and "n \<le> length xs" and "body_ok un body r"
  shows "parse un (take (n + length (frame body)) (splice xs n (frame body))) =
    (fst (parse un (take n xs)) @ [r], [])"
proof -
  have "parse un (take n xs) = (fst (parse un (take n xs)), [])" using assms(1) by (metis prod.collapse)
  from parse_append [OF this, of "frame body"] show ?thesis
    using parse_frame [OF assms(3), of "[]"] take_splice_all [OF assms(2), of "frame body"] by simp
qed

text \<open>The two halves of a write: the bytes, then the sync.\<close>

lemma os_WriteAt_ok:
  assumes "os_WriteAt i buf off W = (W', Inr u)"
  shows "W' = W\<lparr>io_i := Suc (io_i W), files := (files W)(i := splice (files W i) off buf)\<rparr>"
  using assms by (auto simp: os_WriteAt_def draw_def split: if_splits io.splits)

lemma os_WriteAt_fail:
  assumes "os_WriteAt i buf off W = (W', Inl e)"
  shows "W' = W \<or> (\<exists>m < length buf + 1. W' = W\<lparr>io_i := Suc (io_i W),
     files := (files W)(i := splice (files W i) off (take m buf))\<rparr>)"
  using assms by (auto simp: os_WriteAt_def draw_def split: if_splits io.splits
      intro!: exI [of _ "min _ (length buf - 1)"])

lemma os_Sync_ok:
  assumes "os_Sync i W = (W', Inr u)"
  shows "W' = W\<lparr>io_i := Suc (io_i W), stable := (stable W)(i := files W i)\<rparr>"
  using assms by (auto simp: os_Sync_def draw_def split: if_splits io.splits)

lemma os_Sync_fail:
  assumes "os_Sync i W = (W', Inl e)"
  shows "W' = W \<or> W' = W\<lparr>io_i := Suc (io_i W)\<rparr>"
  using assms by (auto simp: os_Sync_def draw_def split: if_splits io.splits)

lemma wal_ok_write:
  assumes ok: "wal_ok w W0" and c: "encode (json W0) r = Inr buf" "codec_ok (json W0)"
    and W1: "W1 = W0\<lparr>io_i := k, files := (files W0)(w_f w := splice (files W0 (w_f w)) (w_size w) buf)\<rparr>"
    and w1: "w1 = w\<lparr>w_size := w_size w + length buf\<rparr>"
  shows "wal_ok w1 W1" and "history w1 W1 = history w W0 @ [norm r]"
proof -
  obtain body where b: "buf = frame body" "body_ok (unmarshal (json W0)) body (wire r)"
    using encode_ok [OF c] by blast
  let ?un = "unmarshal (json W0)" and ?xs = "files W0 (w_f w)" and ?n = "w_size w"
  have p: "parse ?un (logbytes w1 W1) = (fst (parse ?un (logbytes w W0)) @ [wire r], [])"
    using parse_grow [of ?un ?n ?xs body "wire r"] ok b by (simp add: wal_ok_def handle_ok_def fs_ok_def logbytes_def W1 w1)
  show "history w1 W1 = history w W0 @ [norm r]" using p by (simp add: history_def W1)
  show "wal_ok w1 W1" using ok p by (simp add: wal_ok_def handle_ok_def fs_ok_def W1 w1 length_splice)
qed

lemma wal_ok_partial:
  assumes "wal_ok w W" and "W' = W\<lparr>io_i := k, files := (files W)(w_f w := splice (files W (w_f w)) (w_size w) buf)\<rparr>"
  shows "wal_ok w W'" and "history w W' = history w W"
  using assms by (simp_all add: wal_ok_def handle_ok_def fs_ok_def history_def logbytes_def take_splice length_splice)

lemma wal_ok_cong:
  assumes "files W' = files W" and "opened W' = opened W" and "json W' = json W"
    and "dir W' = dir W" and "next_ino W' = next_ino W"
    and "w_f w' = w_f w" and "w_size w' = w_size w" and "w_path w' = w_path w"
    and "w_failed w' = None \<longrightarrow> w_failed w = None"
  shows "wal_ok w W \<Longrightarrow> wal_ok w' W'" and "history w' W' = history w W"
  using assms by (auto simp: wal_ok_def handle_ok_def fs_ok_def history_def logbytes_def)

section \<open>What a write does to the history\<close>

text \<open>
  A write that reports success has added exactly its record. A write that reports an error
  has added nothing, or it has added its record and the log is latched as failed, which is
  the case of a failed \<^verbatim>\<open>fsync\<close>. Handle, path, epoch and the rest of the world stay.
\<close>

definition write_step :: "wal \<Rightarrow> world \<Rightarrow> wal_record \<Rightarrow> wal \<Rightarrow> world \<Rightarrow> unit result \<Rightarrow> bool" where
  "write_step w W r w' W' res \<longleftrightarrow>
     wal_ok w' W' \<and> same_env W W' \<and> w_f w' = w_f w \<and> w_path w' = w_path w \<and>
     w_epoch w' = w_epoch w \<and> w_syncEvery w' = w_syncEvery w \<and>
     (case res of
        Inr _ \<Rightarrow> history w' W' = history w W @ [norm r] \<and> w_failed w' = w_failed w \<and> w_failed w = None
      | Inl _ \<Rightarrow> history w' W' = history w W \<and> w_failed w' = w_failed w \<or>
                 history w' W' = history w W @ [norm r] \<and> w_failed w' \<noteq> None)"

lemma commit_step:
  assumes ok: "wal_ok w W" "w_failed w = None"
    and eq: "(if \<not> d then (w, W, Inr ())
      else if w_syncEvery w > 0 then (w\<lparr>w_dirty := True\<rparr>, W, Inr ())
      else (case os_Sync (w_f w) W of
              (W2, Inl e) \<Rightarrow> (w\<lparr>w_failed := Some e\<rparr>, W2, Inl e)
            | (W2, Inr _) \<Rightarrow> (w, W2, Inr ()))) = (w', W', res)"
  shows "wal_ok w' W' \<and> history w' W' = history w W \<and> same_env W W' \<and> w_f w' = w_f w \<and>
    w_path w' = w_path w \<and> w_epoch w' = w_epoch w \<and> w_syncEvery w' = w_syncEvery w \<and>
    w_size w' = w_size w \<and> files W' = files W \<and> (isl res \<longleftrightarrow> w_failed w' \<noteq> None)"
proof -
  obtain W2 r2 where sy: "os_Sync (w_f w) W = (W2, r2)" by fastforce
  show ?thesis
  proof (cases "d \<and> \<not> w_syncEvery w > 0")
    case False
    then have "W' = W" "res = Inr ()" "w' = w \<or> w' = w\<lparr>w_dirty := True\<rparr>"
      using eq by (auto split: if_splits)
    then show ?thesis using ok wal_ok_cong [of W W w' w] by auto
  next
    case True
    show ?thesis
    proof (cases r2)
      case (Inl e)
      have "W2 = W \<or> W2 = W\<lparr>io_i := Suc (io_i W)\<rparr>" using os_Sync_fail sy Inl by blast
      moreover have "W' = W2" "w' = w\<lparr>w_failed := Some e\<rparr>" "res = Inl e" using eq True sy Inl by auto
      ultimately show ?thesis using ok wal_ok_cong [of W' W w' w] by (auto simp: same_env_def)
    next
      case (Inr u)
      have "W2 = W\<lparr>io_i := Suc (io_i W), stable := (stable W)(w_f w := files W (w_f w))\<rparr>"
        using os_Sync_ok sy Inr by blast
      moreover have "W' = W2" "w' = w" "res = Inr ()" using eq True sy Inr by auto
      ultimately show ?thesis using ok wal_ok_cong [of W' W w' w] by (auto simp: same_env_def)
    qed
  qed
qed

lemma wal_write_step:
  assumes ok: "wal_ok w W" and c: "codec_ok (json W)"
    and wr: "wal_write w W r d = (w', W', res)"
  shows "write_step w W r w' W' res"
proof -
  obtain r1 W0 where st: "stamp r W = (r1, W0)" by fastforce
  obtain k where W0: "W0 = W\<lparr>now_i := now_i W + k\<rparr>" using stamp_world [OF st] by blast
  have se: "same_env W W0" by (simp add: same_env_def W0)
  have ok0: "wal_ok w W0" "history w W0 = history w W" "codec_ok (json W0)"
    using wal_ok_cong [of W0 W w w] ok c by (simp_all add: W0)
  show ?thesis
  proof (cases "\<exists>buf. encode (json W0) r1 = Inr buf \<and> w_failed w = None")
    case False
    then have "w' = w" "W' = W0" "isl res"
      using wr st by (auto simp: wal_write_def split: sum.splits option.splits)
    then show ?thesis using ok0 se by (auto simp: write_step_def split: sum.splits)
  next
    case True
    then obtain buf where buf: "encode (json W0) r1 = Inr buf" and nf: "w_failed w = None" by blast
    obtain W1 r2 where wa: "os_WriteAt (w_f w) buf (w_size w) W0 = (W1, r2)" by fastforce
    show ?thesis
    proof (cases r2)
      case (Inl e)
      have "w' = w" "W' = W1" "res = Inl e" using wr st buf nf wa Inl by (auto simp: wal_write_def)
      moreover have "wal_ok w W1 \<and> history w W1 = history w W0 \<and> same_env W0 W1"
        using os_WriteAt_fail wa Inl wal_ok_partial ok0(1) by (fastforce simp: same_env_def)
      ultimately show ?thesis using ok0 se by (auto simp: write_step_def intro: same_env_trans)
    next
      case (Inr u)
      let ?w1 = "w\<lparr>w_size := w_size w + length buf\<rparr>"
      have W1: "W1 = W0\<lparr>io_i := Suc (io_i W0),
          files := (files W0)(w_f w := splice (files W0 (w_f w)) (w_size w) buf)\<rparr>"
        using os_WriteAt_ok wa Inr by simp
      have ok1: "wal_ok ?w1 W1" "history ?w1 W1 = history w W @ [norm r]" "same_env W W1"
        using wal_ok_write [OF ok0(1) buf ok0(3) W1 refl] ok0(2) norm_stamp [OF st] se
        by (simp_all add: same_env_def W1)
      have "w_failed ?w1 = None" using nf by simp
      note commit_step [OF ok1(1) this, of d w' W' res]
      then show ?thesis using wr st buf nf wa Inr ok1
        by (auto simp: wal_write_def write_step_def Let_def intro: same_env_trans split: sum.splits)
    qed
  qed
qed

lemma wal_write_refused:
  "w_failed w = Some e \<Longrightarrow> wal_write w W r d = (w', W', res) \<Longrightarrow>
     w' = w \<and> files W' = files W \<and> (\<exists>e'. res = Inl e')"
  by (auto simp: wal_write_def stamp_def time_Now_def split: sum.splits if_splits prod.splits)

section \<open>Recovery and read-only scans\<close>

lemma os_read_world:
  "os_read i off n W = (W', bs, bad) \<Longrightarrow> W' = W \<or> W' = W\<lparr>io_i := Suc (io_i W)\<rparr>"
  by (auto simp: os_read_def draw_def split: if_splits io.splits)

lemma Scan_read_only:
  assumes "Scan w W from fn s = (w', W', s', res)"
  shows "w' = w\<lparr>w_epoch := w_epoch w'\<rparr>" and "W' = W \<or> W' = W\<lparr>io_i := Suc (io_i W)\<rparr>"
proof -
  have "w' = w\<lparr>w_epoch := w_epoch w'\<rparr> \<and> (W' = W \<or> W' = W\<lparr>io_i := Suc (io_i W)\<rparr>)"
  proof (cases "from < 0 \<or> from \<ge> int (w_size w)")
    case True
    then show ?thesis using assms by (auto simp: Scan_def scan_def split: if_splits)
  next
    case False
    obtain W1 bs bad where rd: "os_read (w_f w) (nat from) (w_size w - nat from) W = (W1, bs, bad)"
      by (metis prod_cases3)
    obtain ep s1 fin where lp:
      "scan_loop (unmarshal (json W1)) fn bs bad (nat from) (w_epoch w) s = (ep, s1, fin)"
      by (metis prod_cases3)
    have "w' = w\<lparr>w_epoch := ep\<rparr>" "W' = W1"
      using assms False rd lp by (cases fin; simp add: Scan_def scan_def)+
    then show ?thesis using os_read_world [OF rd] by simp
  qed
  then show "w' = w\<lparr>w_epoch := w_epoch w'\<rparr>" "W' = W \<or> W' = W\<lparr>io_i := Suc (io_i W)\<rparr>" by simp_all
qed

lemma truncate_ok:
  assumes "truncate w W at = (w', W', Inr u)" and "at < w_size w" and "at \<le> length (files W (w_f w))"
  shows "w' = w\<lparr>w_size := at\<rparr>" and "files W' = (files W)(w_f w := take at (files W (w_f w)))"
    and "same_env W W'" and "dir W' = dir W" and "opened W' = opened W" and "next_ino W' = next_ino W"
  using assms
  by (auto simp: truncate_def os_Truncate_def os_Sync_def draw_def same_env_def
      split: if_splits io.splits sum.splits prod.splits)

text \<open>
  Recovery over a readable file: the callback sees exactly the intact records, and a
  recovery that returns without error leaves a log made of them alone.
\<close>

definition recovered_to :: "wal \<Rightarrow> world \<Rightarrow> wal_record list \<Rightarrow> byte list \<Rightarrow> wal \<Rightarrow> world \<Rightarrow> bool" where
  "recovered_to w W rs t w' W' \<longleftrightarrow>
     wal_ok w' W' \<and> history w' W' = map norm rs \<and> same_env W W' \<and>
     w' = w\<lparr>w_epoch := epoch_after (w_epoch w) rs, w_size := w_size w'\<rparr> \<and>
     logbytes w' W' @ t = files W (w_f w) \<and> files W' (w_f w) = logbytes w' W'"

lemma Recover_spec:
  assumes h: "handle_ok w W" and sz: "w_size w = length (files W (w_f w))"
    and pr: "parse (unmarshal (json W)) (files W (w_f w)) = (rs, t)"
    and rd: "ios W (io_i W) = IOok"
    and eq: "Recover w W (\<lambda>r off s. (g r s, None)) s = (w', W', s', res)"
  shows "s' = fold g (data rs) s \<and> (res = Inr () \<longrightarrow> recovered_to w W rs t w' W')"
proof (cases "w_size w = 0")
  case True
  then show ?thesis using eq h pr sz
    by (auto simp: Recover_def scan_def data_def wal_ok_def history_def logbytes_def recovered_to_def)
next
  case False
  obtain p where p: "files W (w_f w) = p @ t" "parse (unmarshal (json W)) p = (rs, [])"
    using parse_split [OF pr] by blast
  let ?W1 = "W\<lparr>io_i := Suc (io_i W)\<rparr>"
  let ?w1 = "w\<lparr>w_epoch := epoch_after (w_epoch w) rs\<rparr>"
  have r: "os_read (w_f w) 0 (w_size w) W = (?W1, files W (w_f w), False)"
    using h rd sz by (simp add: os_read_def draw_def handle_ok_def fs_ok_def)
  have "length (files W (w_f w)) - length t = length p" using p(1) by simp
  then obtain reason where lp: "scan_loop (unmarshal (json ?W1)) (\<lambda>r off s. (g r s, None))
      (files W (w_f w)) False 0 (w_epoch w) s =
      (epoch_after (w_epoch w) rs, fold g (data rs) s,
       if t = [] then ScanEOF else ScanFail (length p) reason)"
    using scan_loop_parse [OF pr, of g False 0 "w_epoch w" s] by (cases "t = []") auto
  show ?thesis
  proof (cases "t = []")
    case True
    then have "w' = ?w1" "W' = ?W1" "s' = fold g (data rs) s" "res = Inr ()"
      using eq r lp False by (simp_all add: Recover_def scan_def Let_def)
    then show ?thesis using h p sz True
      by (auto simp: wal_ok_def handle_ok_def fs_ok_def history_def logbytes_def same_env_def recovered_to_def)
  next
    case t: False
    obtain w2 W2 r2 where tr: "truncate ?w1 ?W1 (length p) = (w2, W2, r2)" by (metis prod_cases3)
    have res: "w' = w2" "W' = W2" "s' = fold g (data rs) s" "res = r2"
      using eq r lp False t tr by (simp_all add: Recover_def scan_def Let_def)
    have at: "length p < w_size ?w1" "length p \<le> length (files ?W1 (w_f ?w1))" using p(1) t sz by auto
    show ?thesis
    proof (cases r2)
      case (Inl e)
      then show ?thesis using res by simp
    next
      case (Inr u)
      note tk = truncate_ok [OF tr [unfolded Inr] at]
      then show ?thesis using res h p
        by (auto simp: wal_ok_def handle_ok_def fs_ok_def history_def logbytes_def same_env_def recovered_to_def)
    qed
  qed
qed

section \<open>Compaction replaces the log as a whole\<close>

text \<open>
  \<open>spares f p W W'\<close>: between the two worlds nothing happened to the open file \<open>f\<close>, nor to
  the directory entry \<open>p\<close>.
\<close>

definition spares :: "nat \<Rightarrow> string \<Rightarrow> world \<Rightarrow> world \<Rightarrow> bool" where
  "spares f p W W' \<longleftrightarrow>
     fs_ok f p W' \<and> same_env W W' \<and> files W' f = files W f \<and> stable W' f = stable W f \<and>
     dir W' p = dir W p"

lemma spares_trans [trans]: "spares f p W W' \<Longrightarrow> spares f p W' W'' \<Longrightarrow> spares f p W W''"
  by (auto simp: spares_def intro: same_env_trans)

lemma spares_wal_ok:
  assumes "spares (w_f w) (w_path w) W W'" and "wal_ok w W"
  shows "wal_ok w W'" and "history w W' = history w W" and "logbytes w W' = logbytes w W"
  using assms by (auto simp: spares_def wal_ok_def handle_ok_def history_def logbytes_def same_env_def)

lemmas os_defs = os_OpenFile_def os_WriteAt_def os_Sync_def os_Close_def os_Remove_def os_Rename_def
  os_sync_dir_def draw_def spares_def fs_ok_def same_env_def

lemma spares_open:
  assumes "os_OpenFile q True True W = (W', Inr i)" and "fs_ok f p W" and "q \<noteq> p"
  shows "spares f p W W' \<and> i \<noteq> f \<and> opened W' i \<and> files W' i = [] \<and> dir W' q = Some i"
proof -
  have "dir W x \<noteq> Some (next_ino W)" for x using assms(2) by (auto simp: fs_ok_def)
  then show ?thesis using assms
    by (auto simp: os_defs Let_def less_Suc_eq split: io.splits option.splits if_splits)
qed

lemma spares_open_fail:
  assumes "os_OpenFile q c t W = (W', Inl e)" and "fs_ok f p W"
  shows "spares f p W W' \<and> dir W' = dir W"
  using assms by (auto simp: os_defs Let_def split: io.splits option.splits if_splits)

lemma spares_stamp: "stamp r W = (r', W') \<Longrightarrow> fs_ok f p W \<Longrightarrow> spares f p W W'"
  using stamp_world [of r W r' W'] by (auto simp: spares_def fs_ok_def same_env_def)

lemma spares_write:
  "os_WriteAt i buf off W = (W', r) \<Longrightarrow> fs_ok f p W \<Longrightarrow> i \<noteq> f \<Longrightarrow>
     spares f p W W' \<and> opened W' = opened W \<and> dir W' = dir W"
  by (auto simp: os_defs split: io.splits if_splits)

lemma spares_sync:
  "os_Sync i W = (W', r) \<Longrightarrow> fs_ok f p W \<Longrightarrow> i \<noteq> f \<Longrightarrow>
     spares f p W W' \<and> opened W' = opened W \<and> dir W' = dir W \<and> files W' = files W \<and>
     (\<forall>u. r = Inr u \<longrightarrow> stable W' i = files W i)"
  by (auto simp: os_defs split: io.splits if_splits)

lemma spares_close:
  "os_Close i W = (W', r) \<Longrightarrow> fs_ok f p W \<Longrightarrow> i \<noteq> f \<Longrightarrow>
     spares f p W W' \<and> dir W' = dir W \<and> files W' = files W \<and> stable W' = stable W"
  by (auto simp: os_defs split: io.splits if_splits)

lemma spares_remove: "fs_ok f p W \<Longrightarrow> q \<noteq> p \<Longrightarrow> spares f p W (os_Remove q W)"
  by (auto simp: os_defs split: io.splits if_splits)

lemma spares_abort:
  "fs_ok f p W \<Longrightarrow> i \<noteq> f \<Longrightarrow> q \<noteq> p \<Longrightarrow> spares f p W (os_Remove q (fst (os_Close i W)))"
  by (metis prod.collapse spares_close spares_def spares_remove spares_trans)

lemma write_all_spares:
  "write_all i recs off W = (W', r) \<Longrightarrow> fs_ok f p W \<Longrightarrow> i \<noteq> f \<Longrightarrow>
     spares f p W W' \<and> opened W' = opened W \<and> dir W' = dir W"
proof (induction i recs off W arbitrary: W' r rule: write_all.induct)
  case (1 i off W)
  then show ?case by (auto simp: os_defs)
next
  case (2 i rec0 recs off W)
  obtain rec W0 where st: "stamp rec0 W = (rec, W0)" by fastforce
  have s0: "spares f p W W0" "opened W0 = opened W" "dir W0 = dir W"
    using spares_stamp [OF st "2.prems"(2)] stamp_world [OF st] by auto
  show ?case
  proof (cases "encode (json W0) rec")
    case (Inl e)
    then show ?thesis using "2.prems" st s0 by auto
  next
    case (Inr buf)
    obtain W1 r1 where wa: "os_WriteAt i buf off W0 = (W1, r1)" by fastforce
    have s1: "spares f p W W1" "opened W1 = opened W" "dir W1 = dir W"
      using spares_write [OF wa _ "2.prems"(3)] s0 by (auto simp: spares_def intro: same_env_trans)
    show ?thesis
    proof (cases r1)
      case (Inl e)
      then show ?thesis using "2.prems" st Inr wa s1 by auto
    next
      case u: (Inr u)
      have "write_all i recs (off + length buf) W1 = (W', r)" using "2.prems"(1) st Inr wa u by simp
      then have "spares f p W1 W' \<and> opened W' = opened W1 \<and> dir W' = dir W1"
        using "2.IH" [OF st [symmetric] Inr wa [symmetric] u] s1 "2.prems"(3) by (auto simp: spares_def)
      then show ?thesis using s1 spares_trans by metis
    qed
  qed
qed

lemma write_all_content:
  "write_all i recs off W = (W', Inr off') \<Longrightarrow> codec_ok (json W) \<Longrightarrow> off = length (files W i) \<Longrightarrow>
     parse (unmarshal (json W)) (files W i) = (rs, []) \<Longrightarrow>
     off' = length (files W' i) \<and> json W' = json W \<and>
     (\<exists>ss. parse (unmarshal (json W)) (files W' i) = (rs @ ss, []) \<and> map norm ss = map norm recs)"
proof (induction i recs off W arbitrary: rs rule: write_all.induct)
  case (1 i off W)
  then show ?case by auto
next
  case (2 i rec0 recs off W)
  obtain rec W0 where st: "stamp rec0 W = (rec, W0)" by fastforce
  have W0: "files W0 = files W" "json W0 = json W" using stamp_world [OF st] by auto
  obtain buf where buf: "encode (json W0) rec = Inr buf"
    using "2.prems"(1) st by (auto split: sum.splits)
  obtain body where b: "buf = frame body" "body_ok (unmarshal (json W)) body (wire rec)"
    using encode_ok [OF buf] "2.prems"(2) W0 by auto
  obtain W1 u where wa: "os_WriteAt i buf off W0 = (W1, Inr u)"
    using "2.prems"(1) st buf by (auto split: sum.splits prod.splits)
  have W1: "files W1 i = files W i @ buf" "json W1 = json W"
    using os_WriteAt_ok [OF wa] "2.prems"(3) W0 by simp_all
  have p1: "parse (unmarshal (json W1)) (files W1 i) = (rs @ [wire rec], [])"
    using parse_append [OF "2.prems"(4), of buf] parse_frame [OF b(2), of "[]"] b(1) W1 by simp
  have "write_all i recs (off + length buf) W1 = (W', Inr off')" using "2.prems"(1) st buf wa by simp
  from "2.IH" [OF st [symmetric] buf wa [symmetric] refl this _ _ p1] "2.prems"(2,3) W1
  obtain ss where ss: "off' = length (files W' i)" "json W' = json W"
    "parse (unmarshal (json W)) (files W' i) = ((rs @ [wire rec]) @ ss, [])" "map norm ss = map norm recs"
    by auto
  moreover have "map norm (wire rec # ss) = map norm (rec0 # recs)" using ss(4) norm_stamp [OF st] by simp
  ultimately show ?case by (metis append_Cons append_Nil append_assoc)
qed

definition compacted :: "wal \<Rightarrow> world \<Rightarrow> wal_record list \<Rightarrow> wal \<Rightarrow> world \<Rightarrow> bool" where
  "compacted w W live w' W' \<longleftrightarrow>
     wal_ok w' W' \<and> same_env W W' \<and> w_failed w' = None \<and> w_path w' = w_path w \<and>
     w_epoch w' = w_epoch w + 1 \<and> w_retired w' = w_retired w @ [w_f w] \<and>
     w_syncEvery w' = w_syncEvery w \<and>
     history w' W' = norm (epoch_record (w_epoch w + 1)) # map norm live \<and>
     stable W' (w_f w') = logbytes w' W' \<and> files W' (w_f w') = logbytes w' W' \<and>
     files W' (w_f w) = files W (w_f w) \<and> opened W' (w_f w)"

lemma Rename_sync_dir:
  assumes "os_Rename q p W = (W1, Inr u)"
  obtains k where "os_sync_dir W1 = W\<lparr>io_i := io_i W + k, dir := (dir W)(q := None, p := dir W q)\<rparr>"
proof -
  have W1: "W1 = W\<lparr>io_i := Suc (io_i W), dir := (dir W)(q := None, p := dir W q)\<rparr>"
    using assms(1) by (auto simp: os_Rename_def draw_def split: io.splits)
  have "\<exists>k. os_sync_dir W1 = W1\<lparr>io_i := Suc (io_i W) + k\<rparr>"
    unfolding os_sync_dir_def draw_def W1
    by (auto split: io.splits intro: exI [of _ "Suc 0"] exI [of _ "Suc (Suc (Suc 0))"])
  then obtain k where "os_sync_dir W1 = W1\<lparr>io_i := Suc (io_i W) + k\<rparr>" by blast
  then show thesis using that [of "Suc k"] W1 by simp
qed

lemma Rename_open:
  assumes "os_Rename q p W = (W1, Inr u)" and "os_OpenFile p False False (os_sync_dir W1) = (W2, Inr i)"
    and "dir W q = Some j" and "q \<noteq> p"
  shows "i = j \<and> opened W2 = (opened W)(j := True) \<and> files W2 = files W \<and> stable W2 = stable W \<and>
    dir W2 = (dir W)(q := None, p \<mapsto> j) \<and> next_ino W2 = next_ino W \<and> same_env W W2"
proof -
  obtain k where "os_sync_dir W1 = W\<lparr>io_i := io_i W + k, dir := (dir W)(q := None, p := dir W q)\<rparr>"
    using Rename_sync_dir [OF assms(1)] by blast
  then show ?thesis using assms(2-4)
    by (auto simp: os_OpenFile_def draw_def same_env_def split: io.splits)
qed

lemma wal_Compact_run:
  assumes eq: "wal_Compact w W live = (w', W', Inr u)"
  obtains W1 W2 W3 W4 W5 i off nf v1 v2 v3 where
    "w_failed w = None"
    "os_OpenFile (w_path w @ ''.compacting'') True True W = (W1, Inr i)"
    "write_all i (epoch_record (w_epoch w + 1) # live) 0 W1 = (W2, Inr off)"
    "os_Sync i W2 = (W3, Inr v1)" "os_Close i W3 = (W4, Inr v2)"
    "os_Rename (w_path w @ ''.compacting'') (w_path w) W4 = (W5, Inr v3)"
    "os_OpenFile (w_path w) False False (os_sync_dir W5) = (W', Inr nf)"
    "w' = w\<lparr>w_retired := w_retired w @ [w_f w], w_f := nf, w_size := off, w_epoch := w_epoch w + 1\<rparr>"
  using eq
  by (auto simp: wal_Compact_def Let_def simp del: write_all.simps
      split: option.splits prod.splits sum.splits)

lemma wal_Compact_ok:
  assumes ok: "wal_ok w W" and c: "codec_ok (json W)" and eq: "wal_Compact w W live = (w', W', Inr u)"
  shows "compacted w W live w' W'"
  using eq
proof (cases rule: wal_Compact_run)
  case (1 W1 W2 W3 W4 W5 i off nf' v1 v2 v3)
  note nf = 1(1) and o = 1(2) and wr = 1(3) and sy = 1(4) and cl = 1(5) and rn = 1(6) and ro = 1(7)
    and w' = 1(8)
  let ?p = "w_path w" and ?tmp = "w_path w @ ''.compacting''" and ?f = "w_f w"
  have fs: "fs_ok ?f ?p W" using ok by (simp add: wal_ok_def handle_ok_def)
  have s1: "spares ?f ?p W W1" "i \<noteq> ?f" "files W1 i = []" "dir W1 ?tmp = Some i"
    using spares_open [OF o fs] by auto
  have s2: "spares ?f ?p W1 W2" "dir W2 = dir W1" using write_all_spares [OF wr _ s1(2)] s1(1) by (auto simp: spares_def)
  have s3: "spares ?f ?p W2 W3" "dir W3 = dir W2" "files W3 = files W2" "stable W3 i = files W2 i"
    using spares_sync [OF sy _ s1(2)] s2(1) by (auto simp: spares_def)
  have s4: "spares ?f ?p W3 W4" "dir W4 = dir W3" "files W4 = files W3" "stable W4 = stable W3"
    using spares_close [OF cl _ s1(2)] s3(1) by (auto simp: spares_def)
  have sp: "spares ?f ?p W W4" using s1(1) s2(1) s3(1) s4(1) spares_trans by blast
  have R: "nf' = i" "opened W' = (opened W4)(i := True)" "files W' = files W4" "stable W' = stable W4"
      "dir W' = (dir W4)(?tmp := None, ?p \<mapsto> i)" "next_ino W' = next_ino W4" "same_env W4 W'"
    using Rename_open [OF rn ro, of i] s1 s2 s3 s4 by auto
  have js: "json W1 = json W" "json W2 = json W" "json W' = json W"
    using s1 s2 sp R(7) by (auto simp: spares_def same_env_def)
  obtain ss where c: "off = length (files W2 i)" "parse (unmarshal (json W)) (files W2 i) = (ss, [])"
      "map norm ss = map norm (epoch_record (w_epoch w + 1) # live)"
    using write_all_content [OF wr, of "[]"] c s1(3) js by auto
  have lb: "logbytes w' W' = files W2 i" using c(1) w' R s3 s4 by (simp add: logbytes_def)
  have d4: "dir W4 ?tmp = Some i" "fs_ok ?f ?p W4" using s1 s2 s3 s4 sp by (auto simp: spares_def)
  have "fs_ok i ?p W'" using d4 R(2,5,6) by (auto simp: fs_ok_def)
  then have "wal_ok w' W'"
    using c lb w' R js nf by (auto simp: wal_ok_def handle_ok_def logbytes_def s3 s4)
  moreover have "history w' W' = norm (epoch_record (w_epoch w + 1)) # map norm live"
    using c lb js by (simp add: history_def)
  moreover have "stable W' (w_f w') = logbytes w' W'" "files W' (w_f w') = logbytes w' W'" using lb w' R s3 s4 by simp_all
  moreover have "same_env W W'" "files W' ?f = files W ?f" "opened W' ?f"
    using sp R s1(2) by (auto simp: spares_def fs_ok_def intro: same_env_trans)
  ultimately show ?thesis using w' nf by (simp add: compacted_def)
qed

text \<open>
  A compaction that fails leaves the log it started from: before the rename nothing has
  happened to it, after the rename (the new file cannot be opened) it is latched as failed.
\<close>

lemma Rename_reopen_fail:
  assumes "os_Rename q p W = (W1, Inr u)" and "os_OpenFile p False False (os_sync_dir W1) = (W2, Inl e)"
    and "fs_ok f p W" and "dir W q \<noteq> Some f"
  shows "fs_ok f p W2 \<and> files W2 = files W \<and> stable W2 = stable W \<and> same_env W W2"
proof -
  obtain k where k: "os_sync_dir W1 = W\<lparr>io_i := io_i W + k, dir := (dir W)(q := None, p := dir W q)\<rparr>"
    using Rename_sync_dir [OF assms(1)] by blast
  then have "W2 = W\<lparr>io_i := Suc (io_i W + k), dir := (dir W)(q := None, p := dir W q)\<rparr>"
    using assms(2) by (auto simp: os_OpenFile_def draw_def Let_def split: io.splits option.splits)
  then show ?thesis using assms(3,4) by (auto simp: fs_ok_def same_env_def split: if_splits)
qed

lemma wal_Compact_err:
  assumes eq: "wal_Compact w W live = (w', W', Inl e)"
  obtains
    (refused) "w' = w" "W' = W"
  | (no_tmp) e' where "os_OpenFile (w_path w @ ''.compacting'') True True W = (W', Inl e')" "w' = w"
  | (writing) i W1 W2 r2 where "os_OpenFile (w_path w @ ''.compacting'') True True W = (W1, Inr i)"
      "write_all i (epoch_record (w_epoch w + 1) # live) 0 W1 = (W2, r2)"
      "\<exists>V r. (V = W2 \<or> os_Sync i W2 = (V, r)) \<and>
         W' = os_Remove (w_path w @ ''.compacting'') (fst (os_Close i V))" "w' = w"
  | (renaming) i W1 W2 r2 W3 r3 W4 r4 where
      "os_OpenFile (w_path w @ ''.compacting'') True True W = (W1, Inr i)"
      "write_all i (epoch_record (w_epoch w + 1) # live) 0 W1 = (W2, r2)"
      "os_Sync i W2 = (W3, r3)" "os_Close i W3 = (W4, r4)" "w' = w"
      "W' = os_Remove (w_path w @ ''.compacting'') W4 \<or>
       (\<exists>W5 e5. os_Rename (w_path w @ ''.compacting'') (w_path w) W4 = (W5, Inl e5) \<and>
          W' = os_Remove (w_path w @ ''.compacting'') W5)"
  | (reopening) i W1 W2 r2 W3 r3 W4 r4 W5 v e' where
      "os_OpenFile (w_path w @ ''.compacting'') True True W = (W1, Inr i)"
      "write_all i (epoch_record (w_epoch w + 1) # live) 0 W1 = (W2, r2)"
      "os_Sync i W2 = (W3, r3)" "os_Close i W3 = (W4, r4)"
      "os_Rename (w_path w @ ''.compacting'') (w_path w) W4 = (W5, Inr v)"
      "os_OpenFile (w_path w) False False (os_sync_dir W5) = (W', Inl e')"
      "w' = w\<lparr>w_failed := Some e\<rparr>"
proof (cases "w_failed w")
  case (Some e0)
  then have "w' = w" "W' = W" using eq by (simp_all add: wal_Compact_def)
  then show thesis by (rule refused)
next
  case nf: None
  let ?tmp = "w_path w @ ''.compacting''"
  note D = wal_Compact_def Let_def nf
  obtain W1 r1 where o: "os_OpenFile ?tmp True True W = (W1, r1)" by fastforce
  show thesis
  proof (cases r1)
    case (Inl e1)
    then have "w' = w" "W' = W1" using eq o by (simp_all add: D)
    then show thesis using no_tmp o Inl by blast
  next
    case i: (Inr i)
    obtain W2 r2 where wr: "write_all i (epoch_record (w_epoch w + 1) # live) 0 W1 = (W2, r2)" by fastforce
    obtain W3 r3 where sy: "os_Sync i W2 = (W3, r3)" by fastforce
    obtain W4 r4 where cl: "os_Close i W3 = (W4, r4)" by fastforce
    obtain W5 r5 where rn: "os_Rename ?tmp (w_path w) W4 = (W5, r5)" by fastforce
    obtain W6 r6 where ro: "os_OpenFile (w_path w) False False (os_sync_dir W5) = (W6, r6)" by fastforce
    note run = eq o i wr sy cl rn ro and oi = o [unfolded i]
    consider "isl r2" | "\<not> isl r2" "isl r3" | "\<not> isl r2" "\<not> isl r3" "isl r4 \<or> isl r5"
      | "\<not> isl r2" "\<not> isl r3" "\<not> isl r4" "\<not> isl r5" by blast
    then show thesis
    proof cases
      case 1
      then have "w' = w \<and> W' = os_Remove ?tmp (fst (os_Close i W2))"
        using run by (cases r2) (auto simp: D simp del: write_all.simps)
      then show thesis using writing [OF oi wr] by blast
    next
      case 2
      then have "w' = w \<and> W' = os_Remove ?tmp (fst (os_Close i W3))"
        using run by (cases r2; cases r3) (auto simp: D simp del: write_all.simps)
      then show thesis using writing [OF oi wr] sy by blast
    next
      case 3
      then have "w' = w \<and> (W' = os_Remove ?tmp W4 \<or> isl r5 \<and> W' = os_Remove ?tmp W5)"
        using run by (cases r2; cases r3; cases r4; cases r5) (auto simp: D simp del: write_all.simps)
      then have "w' = w" "W' = os_Remove ?tmp W4 \<or>
          (\<exists>W5 e5. os_Rename ?tmp (w_path w) W4 = (W5, Inl e5) \<and> W' = os_Remove ?tmp W5)"
        using rn by (auto simp: isl_def)
      then show thesis by (rule renaming [OF oi wr sy cl])
    next
      case 4
      then obtain off v1 v2 v where v: "r2 = Inr off" "r3 = Inr v1" "r4 = Inr v2" "r5 = Inr v"
        by (cases r2; cases r3; cases r4; cases r5) auto
      have "(case r6 of
          Inl e \<Rightarrow> (w\<lparr>w_failed := Some (ErrReopen e)\<rparr>, W6, Inl (ErrReopen e))
        | Inr nf \<Rightarrow> (w\<lparr>w_retired := w_retired w @ [w_f w], w_f := nf, w_size := off,
            w_epoch := w_epoch w + 1\<rparr>, W6, Inr ())) = (w', W', Inl e)"
        using run v by (simp add: D del: write_all.simps)
      then have r6: "isl r6 \<and> w' = w\<lparr>w_failed := Some e\<rparr> \<and> W' = W6"
        by (cases r6) auto
      then obtain e' where e': "r6 = Inl e'" by (auto simp: isl_def)
      show thesis
        by (rule reopening [OF oi wr sy cl rn [unfolded v(4)]]) (use r6 ro e' in auto)
    qed
  qed
qed

lemma wal_Compact_prefix:
  assumes fs: "fs_ok f p W" and q: "q \<noteq> p" and o: "os_OpenFile q True True W = (W1, Inr i)"
    and wr: "write_all i recs 0 W1 = (W2, r2)"
  shows "i \<noteq> f" and "spares f p W W2"
    and "os_Sync i W2 = (W3, r3) \<Longrightarrow> spares f p W W3"
    and "os_Sync i W2 = (W3, r3) \<Longrightarrow> os_Close i W3 = (W4, r4) \<Longrightarrow> spares f p W W4 \<and> dir W4 q = Some i"
proof -
  have s1: "spares f p W W1" "i \<noteq> f" "dir W1 q = Some i" using spares_open [OF o fs q] by auto
  then have s2: "spares f p W W2" "dir W2 q = Some i"
    using write_all_spares [OF wr _ s1(2), of p] spares_trans [of f p W W1 W2] by (auto simp: spares_def)
  have s3: "spares f p W W3 \<and> dir W3 q = Some i" if "os_Sync i W2 = (W3, r3)"
    using spares_sync [OF that _ s1(2), of p] s2 spares_trans [of f p W W2 W3] by (auto simp: spares_def)
  show "i \<noteq> f" "spares f p W W2" "os_Sync i W2 = (W3, r3) \<Longrightarrow> spares f p W W3"
    using s1 s2 s3 by simp_all
  show "spares f p W W4 \<and> dir W4 q = Some i" if "os_Sync i W2 = (W3, r3)" "os_Close i W3 = (W4, r4)"
    using spares_close [OF that(2) _ s1(2), of p] s3 [OF that(1)] spares_trans [of f p W W3 W4]
    by (auto simp: spares_def)
qed

lemma spares_rename_fail:
  "os_Rename q p W = (W', Inl e) \<Longrightarrow> fs_ok f p' W \<Longrightarrow> spares f p' W W'"
  by (auto simp: os_defs split: io.splits)

definition compact_failed :: "wal \<Rightarrow> world \<Rightarrow> error \<Rightarrow> wal \<Rightarrow> world \<Rightarrow> bool" where
  "compact_failed w W e w' W' \<longleftrightarrow>
     (w' = w \<and> spares (w_f w) (w_path w) W W') \<or>
     (w' = w\<lparr>w_failed := Some e\<rparr> \<and> fs_ok (w_f w) (w_path w) W' \<and> same_env W W' \<and>
      files W' (w_f w) = files W (w_f w) \<and> stable W' (w_f w) = stable W (w_f w))"

lemma wal_Compact_fail:
  assumes ok: "wal_ok w W" and eq: "wal_Compact w W live = (w', W', Inl e)"
  shows "compact_failed w W e w' W'"
proof -
  have fs: "fs_ok (w_f w) (w_path w) W" using ok by (simp add: wal_ok_def handle_ok_def)
  have neq: "w_path w @ ''.compacting'' \<noteq> w_path w" by simp
  from eq show ?thesis
  proof (cases rule: wal_Compact_err)
    case refused
    then show ?thesis using fs by (simp add: compact_failed_def spares_def)
  next
    case (no_tmp e')
    then show ?thesis using spares_open_fail [OF no_tmp(1)] ok
      by (simp add: compact_failed_def wal_ok_def handle_ok_def)
  next
    case (writing i W1 W2 r2)
    note P = wal_Compact_prefix [OF fs neq writing(1,2)]
    obtain V where V: "spares (w_f w) (w_path w) W V"
        "W' = os_Remove (w_path w @ ''.compacting'') (fst (os_Close i V))"
      using writing(3) P(2,3) by blast
    then have "spares (w_f w) (w_path w) V W'" using spares_abort [OF _ P(1) neq] by (simp add: spares_def)
    then show ?thesis using V(1) writing(4) spares_trans by (auto simp: compact_failed_def)
  next
    case (renaming i W1 W2 r2 W3 r3 W4 r4)
    have s4: "spares (w_f w) (w_path w) W W4"
      using wal_Compact_prefix(4) [OF fs neq renaming(1-4)] by blast
    have "spares (w_f w) (w_path w) W W5" if "os_Rename q p W4 = (W5, Inl e5)" for q p W5 e5
      using spares_trans [OF s4 spares_rename_fail [OF that]] s4 by (simp add: spares_def)
    then obtain V where V: "spares (w_f w) (w_path w) W V" "W' = os_Remove (w_path w @ ''.compacting'') V"
      using renaming(6) s4 by blast
    then have "spares (w_f w) (w_path w) V W'"
      using spares_remove [of "w_f w" "w_path w" V, OF _ neq] by (auto simp: spares_def)
    then show ?thesis using V(1) renaming(5) spares_trans by (auto simp: compact_failed_def)
  next
    case (reopening i W1 W2 r2 W3 r3 W4 r4 W5 v e')
    have s4: "spares (w_f w) (w_path w) W W4" "dir W4 (w_path w @ ''.compacting'') \<noteq> Some (w_f w)"
      using wal_Compact_prefix(1,4) [OF fs neq reopening(1,2)] reopening(3,4) by auto
    then show ?thesis
      using Rename_reopen_fail [OF reopening(5,6), of "w_f w"] reopening(7)
      by (auto simp: compact_failed_def spares_def intro: same_env_trans)
  qed
qed

section \<open>What survives a crash\<close>

text \<open>
  \<open>durable_upto w W n\<close>: the first \<open>n\<close> bytes of the log are on disk as they are in the file.
  After a crash a file may hold anything, except that a byte that was on disk and had not
  been overwritten since is still there.
\<close>

definition durable_upto :: "wal \<Rightarrow> world \<Rightarrow> nat \<Rightarrow> bool" where
  "durable_upto w W n \<longleftrightarrow>
     n \<le> w_size w \<and> n \<le> length (stable W (w_f w)) \<and> n \<le> length (files W (w_f w)) \<and>
     take n (stable W (w_f w)) = take n (files W (w_f w))"

definition crash_image :: "world \<Rightarrow> nat \<Rightarrow> byte list \<Rightarrow> bool" where
  "crash_image W f img \<longleftrightarrow>
     (\<forall>k < min (length (stable W f)) (length (files W f)).
        stable W f ! k = files W f ! k \<longrightarrow> k < length img \<and> img ! k = stable W f ! k)"

fun wal_writes :: "wal \<Rightarrow> world \<Rightarrow> (wal_record \<times> bool) list \<Rightarrow> wal \<times> world" where
  "wal_writes w W [] = (w, W)"
| "wal_writes w W ((r, d) # rds) = (case wal_write w W r d of (w', W', _) \<Rightarrow> wal_writes w' W' rds)"

lemma durable_crash:
  assumes "durable_upto w W n" and "crash_image W (w_f w) img"
  shows "take n img = take n (files W (w_f w))"
proof -
  let ?S = "stable W (w_f w)" and ?F = "files W (w_f w)"
  have d: "n \<le> length ?S" "n \<le> length ?F" "take n ?S = take n ?F"
    using assms(1) by (auto simp: durable_upto_def)
  have at: "k < length img \<and> img ! k = ?F ! k" if "k < n" for k
  proof -
    have "?S ! k = ?F ! k" using d(3) that by (metis nth_take)
    then show ?thesis using assms(2) d(1,2) that by (simp add: crash_image_def)
  qed
  then have "n \<le> length img" by (meson leI less_irrefl)
  then show ?thesis using at d by (intro nth_equalityI) auto
qed

lemma wal_write_durable:
  assumes ok: "wal_ok w W" and du: "durable_upto w W n" and wr: "wal_write w W r d = (w', W', res)"
  shows "durable_upto w' W' n"
    and "res = Inr () \<Longrightarrow> d \<Longrightarrow> w_syncEvery w \<le> 0 \<Longrightarrow> durable_upto w' W' (w_size w')"
    and "take n (files W' (w_f w)) = take n (files W (w_f w))"
proof -
  obtain r1 W0 where st: "stamp r W = (r1, W0)" by fastforce
  have W0: "files W0 = files W" "stable W0 = stable W" using stamp_world [OF st] by auto
  let ?f = "w_f w"
  have sz: "w_size w \<le> length (files W ?f)" using ok by (simp add: wal_ok_def)
  have n: "n \<le> w_size w" "n \<le> length (stable W ?f)" "take n (stable W ?f) = take n (files W ?f)"
    using du by (auto simp: durable_upto_def)
  have pre: "take n (splice (files W ?f) (w_size w) buf) = take n (files W ?f)" for buf
    using take_splice [OF sz, of buf] n(1) by (metis min.absorb1 take_take)
  have len: "n \<le> length (splice (files W ?f) (w_size w) buf)" for buf
    using sz n(1) by (simp add: length_splice)
  have "durable_upto w' W' n \<and> (res = Inr () \<longrightarrow> d \<longrightarrow> w_syncEvery w \<le> 0 \<longrightarrow> durable_upto w' W' (w_size w')) \<and>
    take n (files W' (w_f w)) = take n (files W (w_f w))"
    using wr st du W0 n sz pre len
    by (auto simp: wal_write_def os_WriteAt_def os_Sync_def draw_def durable_upto_def Let_def length_splice
        split: sum.splits option.splits if_splits io.splits)
  then show "durable_upto w' W' n"
    and "res = Inr () \<Longrightarrow> d \<Longrightarrow> w_syncEvery w \<le> 0 \<Longrightarrow> durable_upto w' W' (w_size w')"
    and "take n (files W' (w_f w)) = take n (files W (w_f w))" by simp_all
qed

lemma wal_writes_durable:
  assumes "wal_ok w W" and "codec_ok (json W)" and "durable_upto w W n"
    and "wal_writes w W rds = (w', W')"
  shows "durable_upto w' W' n \<and> w_f w' = w_f w \<and> json W' = json W \<and>
    take n (files W' (w_f w)) = take n (files W (w_f w))"
  using assms
proof (induction rds arbitrary: w W)
  case Nil
  then show ?case by simp
next
  case (Cons rd rds)
  obtain r d where rd: "rd = (r, d)" by fastforce
  obtain w1 W1 res where wr: "wal_write w W r d = (w1, W1, res)" by (metis prod_cases3)
  have st: "write_step w W r w1 W1 res" by (rule wal_write_step [OF Cons.prems(1,2) wr])
  have d1: "durable_upto w1 W1 n" by (rule wal_write_durable(1) [OF Cons.prems(1,3) wr])
  have j: "json W1 = json W" "w_f w1 = w_f w" "wal_ok w1 W1"
    using st by (auto simp: write_step_def same_env_def)
  have "take n (files W1 (w_f w)) = take n (files W (w_f w))"
    by (rule wal_write_durable(3) [OF Cons.prems(1,3) wr])
  then show ?case using Cons.IH [OF j(3) _ d1] Cons.prems rd wr j by simp
qed

lemma crash_keeps_prefix:
  assumes "wal_ok w W" and "durable_upto w W (w_size w)" and "crash_image W' f img"
    and "durable_upto w' W' (w_size w)" and "w_f w' = f" and "f = w_f w" and "json W' = json W"
    and "take (w_size w) (files W' f) = take (w_size w) (files W f)"
  shows "\<exists>rs. map norm rs = history w W \<and> (\<exists>more. fst (parse (unmarshal (json W)) img) = rs @ more)"
proof -
  let ?un = "unmarshal (json W)"
  have "take (w_size w) img = logbytes w W"
    using durable_crash [OF assms(4)] assms(3,5,6,8) by (simp add: logbytes_def)
  then have "img = logbytes w W @ drop (w_size w) img" by (metis append_take_drop_id)
  moreover have "parse ?un (logbytes w W) = (fst (parse ?un (logbytes w W)), [])"
    using assms(1) by (metis prod.collapse wal_ok_def)
  ultimately show ?thesis using parse_append by (metis fst_conv history_def)
qed

section \<open>The log as its clients see it\<close>

text \<open>
  A queue and the manager only append and look at the outcome. This is the contract they
  rely on: \<open>hist\<close> is what a restart would read, a success appends one record, an error
  appends nothing or breaks the log for good, and a broken log refuses everything.
\<close>

locale append_log =
  fixes app :: "'s \<Rightarrow> wal_record \<Rightarrow> 's \<times> unit result"
    and hist :: "'s \<Rightarrow> wal_record list" and ok :: "'s \<Rightarrow> bool" and broken :: "'s \<Rightarrow> bool"
  assumes app_ok: "ok s \<Longrightarrow> app s r = (s', Inr u) \<Longrightarrow> ok s' \<and> hist s' = hist s @ [norm r] \<and> \<not> broken s"
    and app_err: "ok s \<Longrightarrow> app s r = (s', Inl e) \<Longrightarrow>
      ok s' \<and> (hist s' = hist s \<or> hist s' = hist s @ [norm r] \<and> broken s')"
    and app_broken: "ok s \<Longrightarrow> broken s \<Longrightarrow> app s r = (s', res) \<Longrightarrow>
      broken s' \<and> hist s' = hist s \<and> isl res"
begin

text \<open>Append records until one fails.\<close>

fun app_all :: "'s \<Rightarrow> wal_record list \<Rightarrow> 's \<times> nat" where
  "app_all s [] = (s, 0)"
| "app_all s (r # rs) =
     (case app s r of
        (s', Inl e) \<Rightarrow> (s', 0)
      | (s', Inr _) \<Rightarrow> (case app_all s' rs of (s'', n) \<Rightarrow> (s'', Suc n)))"

text \<open>
  What a restart reads back after a series of appends: everything that was reported as
  appended, and at most the one record whose append broke the log.
\<close>

lemma app_all_hist:
  "ok s \<Longrightarrow> app_all s rs = (s', n) \<Longrightarrow>
     ok s' \<and> (hist s' = hist s @ map norm (take n rs) \<or>
       n < length rs \<and> broken s' \<and> hist s' = hist s @ map norm (take (Suc n) rs))"
proof (induction s rs arbitrary: s' n rule: app_all.induct)
  case (1 s)
  then show ?case by simp
next
  case (2 s r rs)
  obtain s1 res where ap: "app s r = (s1, res)" by fastforce
  show ?case
  proof (cases res)
    case (Inl e)
    then show ?thesis using "2.prems" ap app_err [OF "2.prems"(1)] by auto
  next
    case (Inr u)
    obtain s2 m where rec: "app_all s1 rs = (s2, m)" by fastforce
    have "ok s1" "hist s1 = hist s @ [norm r]" using app_ok [OF "2.prems"(1)] ap Inr by auto
    then show ?thesis using "2.IH" [OF ap [symmetric] Inr _ rec] "2.prems"(2) ap Inr rec by auto
  qed
qed

end

definition wal_append :: "bool \<Rightarrow> wal \<times> world \<Rightarrow> wal_record \<Rightarrow> (wal \<times> world) \<times> unit result" where
  "wal_append d s r = (case wal_write (fst s) (snd s) r d of (w', W', res) \<Rightarrow> ((w', W'), res))"

interpretation wlog: append_log "wal_append d" "\<lambda>(w, W). history w W"
  "\<lambda>(w, W). wal_ok w W \<and> codec_ok (json W)" "\<lambda>(w, W). w_failed w \<noteq> None"
proof (unfold_locales, goal_cases)
  case (1 s r s' u)
  then show ?case
    using wal_write_step [of "fst s" "snd s" r d]
    by (fastforce simp: wal_append_def write_step_def same_env_def split: prod.splits)
next
  case (2 s r s' e)
  then show ?case
    using wal_write_step [of "fst s" "snd s" r d]
    by (fastforce simp: wal_append_def write_step_def same_env_def split: prod.splits)
next
  case (3 s r s' res)
  then obtain e where e: "w_failed (fst s) = Some e" by (auto split: prod.splits)
  obtain w' W' where wr: "wal_write (fst s) (snd s) r d = (w', W', res)" "s' = (w', W')"
    using 3 by (auto simp: wal_append_def split: prod.splits)
  have "w' = fst s" "isl res" using wal_write_refused [OF e wr(1)] by auto
  moreover have "write_step (fst s) (snd s) r w' W' res"
    using wal_write_step 3 wr(1) by (auto split: prod.splits)
  moreover have "history w' W' = history (fst s) (snd s)"
    using wal_write_refused [OF e wr(1)] calculation(3)
    by (auto simp: history_def logbytes_def write_step_def same_env_def)
  ultimately show ?case using e wr(2) by (auto split: prod.splits)
qed

section \<open>Runs of appends\<close>

text \<open>
  A log on a disk that works: nothing is latched, the file is open, and no system call fails
  from now on. Such a log refuses only a record that cannot be encoded within the size limit
  at some write time and with some cached heap index.
\<close>

definition good_log :: "wal \<Rightarrow> world \<Rightarrow> bool" where
  "good_log w W \<longleftrightarrow> w_failed w = None \<and> opened W (w_f w) \<and> reliable W"

definition encodable :: "codec \<Rightarrow> wal_record \<Rightarrow> bool" where
  "encodable c r \<longleftrightarrow> (\<forall>r'. norm r' = norm r \<longrightarrow> int64_range (rAt r') \<longrightarrow> \<not> isl (encode c r'))"

lemma encodable_norm: "norm r = norm r' \<Longrightarrow> encodable c r = encodable c r'"
  by (simp add: encodable_def)

lemma good_log_env [simp]:
  "good_log w (W\<lparr>now_i := n\<rparr>) = good_log w W" "good_log w (W\<lparr>rnd_i := n\<rparr>) = good_log w W"
  by (simp_all add: good_log_def reliable_def)

lemma wal_write_good:
  assumes "good_log w W"
  shows "\<exists>w' W' res. wal_write w W r d = (w', W', res) \<and> good_log w' W' \<and>
    (isl res \<longrightarrow> rAt r = 0 \<longrightarrow> \<not> encodable (json W) r)"
proof -
  obtain r1 W0 where st: "stamp r W = (r1, W0)" by fastforce
  obtain k where W0: "W0 = W\<lparr>now_i := now_i W + k\<rparr>" using stamp_world [OF st] by blast
  show ?thesis
  proof (cases "encode (json W) r1")
    case (Inl e)
    then have "rAt r = 0 \<longrightarrow> \<not> encodable (json W) r"
      using norm_stamp [OF st] stamp_time [OF st] by (auto simp: encodable_def)
    then show ?thesis using Inl assms st W0 by (simp add: wal_write_def)
  next
    case (Inr buf)
    then show ?thesis
      using assms st W0 unfolding good_log_def
      by (auto simp: wal_write_def os_WriteAt_def os_Sync_def reliable_def draw_def Let_def)
  qed
qed

text \<open>
  \<open>same_log\<close>: what appending leaves alone of the handle. \<open>grew s rs s'\<close>: between the two states of log and world the records \<open>rs\<close>, and no others,
  were reported as appended. The clock and the random source have only been read; on a
  sound log, unless a failure was latched, a restart reads exactly these records more.
\<close>

definition same_log :: "wal \<Rightarrow> wal \<Rightarrow> bool" where
  "same_log w w' \<longleftrightarrow> w_path w' = w_path w \<and> w_closed w' = w_closed w \<and> w_syncEvery w' = w_syncEvery w"

lemma same_log_refl [simp, intro]: "same_log w w"
  by (simp add: same_log_def)

lemma same_log_trans [trans]: "same_log w w' \<Longrightarrow> same_log w' w'' \<Longrightarrow> same_log w w''"
  by (simp add: same_log_def)

definition grew :: "wal \<times> world \<Rightarrow> wal_record list \<Rightarrow> wal \<times> world \<Rightarrow> bool" where
  "grew s rs s' \<longleftrightarrow>
     same_env (snd s) (snd s') \<and> same_log (fst s) (fst s') \<and> (good_log (fst s) (snd s) \<longrightarrow> good_log (fst s') (snd s')) \<and>
     (case s of (w, W) \<Rightarrow> case s' of (w', W') \<Rightarrow>
        wal_ok w W \<longrightarrow> codec_ok (json W) \<longrightarrow>
          wal_ok w' W' \<and>
          (w_failed w' = None \<longrightarrow> w_failed w = None \<and> history w' W' = history w W @ map norm rs))"

lemma grew_refl [simp, intro]: "grew s [] s"
  by (simp add: grew_def split: prod.split)

lemma grew_trans [trans]:
  "grew s rs s' \<Longrightarrow> grew s' rs' s'' \<Longrightarrow> grew s (rs @ rs') s''"
  by (fastforce simp: grew_def same_env_def same_log_def split: prod.splits)

lemma grew_env: "same_env W W' \<Longrightarrow> files W' = files W \<Longrightarrow> opened W' = opened W \<Longrightarrow> dir W' = dir W \<Longrightarrow>
    next_ino W' = next_ino W \<Longrightarrow> grew (w, W) [] (w, W')"
  using wal_ok_cong [of W' W w w] by (auto simp: grew_def same_env_def good_log_def reliable_def)

lemma grew_now [simp]: "grew (w, W) [] (w, W\<lparr>now_i := Suc (now_i W)\<rparr>)"
  by (rule grew_env) (simp_all add: same_env_def)

lemma grew_rnd [simp]: "grew (w, W) [] (w, W\<lparr>rnd_i := Suc (rnd_i W)\<rparr>)"
  by (rule grew_env) (simp_all add: same_env_def)

lemma wal_write_env:
  assumes "wal_write w W r d = (w', W', res)" shows "same_env W W'" and "same_log w w'"
  using assms
  by (auto simp: wal_write_def stamp_def time_Now_def os_WriteAt_def os_Sync_def draw_def same_env_def same_log_def Let_def
      split: prod.splits if_splits sum.splits option.splits io.splits)

lemma wal_write_grew:
  assumes wr: "wal_write w W r d = (w', W', res)"
  shows "grew (w, W) (if isl res then [] else [r]) (w', W')"
proof -
  have "wal_ok w' W' \<and> (w_failed w' = None \<longrightarrow>
      w_failed w = None \<and> history w' W' = history w W @ map norm (if isl res then [] else [r]))"
    if "wal_ok w W" "codec_ok (json W)"
    using wal_write_step [OF that wr] by (cases res) (auto simp: write_step_def)
  moreover have "good_log w W \<longrightarrow> good_log w' W'" using wal_write_good [of w W r d] wr by auto
  ultimately show ?thesis using wal_write_env [OF wr] by (simp add: grew_def)
qed

lemmas AppendSync_good = wal_write_good [where d = True, folded AppendSync_def]
lemmas Append_good = wal_write_good [where d = False, folded Append_def]
lemmas AppendSync_grew = wal_write_grew [where d = True, folded AppendSync_def]
lemmas Append_grew = wal_write_grew [where d = False, folded Append_def]

lemma grew_norm: "map norm rs = map norm rs' \<Longrightarrow> grew s rs s' = grew s rs' s'"
  by (simp add: grew_def split: prod.split)

end
