(* ===== verification/FQ_Queue.thy ===== *)
theory FQ_Queue
  imports FQ_Heaps FQ_Wal
begin

text \<open>
  A single queue, \<^verbatim>\<open>src/queue/queue.go\<close>: enqueue, lease, acknowledge, extend, return,
  expiry, dead lettering, and the statistics.

  An operation takes the queue, the log and the world and returns them updated with its
  result. Each runs under the queue's mutex from start to end, so an execution is an
  interleaving of whole operations. An operation that manipulates heap slots through cached
  indices is an option: \<^const>\<open>None\<close> is a Go panic, shown below never to happen.
  The \<^verbatim>\<open>wake\<close> channel is the number of the current channel: closing it and installing a
  fresh one is counting up, and a channel is closed when its number is below the current.
\<close>

section \<open>State\<close>

record queue =
  q_cfg :: Config
  q_mem :: mem
  q_next :: ref
  q_seq :: u64
  q_ready :: msgHeap
  q_delayed :: msgHeap
  q_inflight :: msgHeap
  q_leases :: "string \<Rightarrow> ref option"
  q_dlq :: "ref list"
  q_enqueued :: u64
  q_delivered :: u64
  q_acked :: u64
  q_nacked :: u64
  q_expired :: u64
  q_walErr :: "error option"
  q_wake :: nat

definition zero_msg :: msg where
  "zero_msg = \<lparr>ID = '''', Body = '''', Priority = 0, Seq = 0, VisibleAt = zero_time,
     EnqueuedAt = zero_time, Attempts = 0, Receipt = '''', LeaseExpiry = zero_time, index = 0\<rparr>"

definition New :: "Config \<Rightarrow> queue" where
  "New cfg0 =
     (let cfg1 = (if Mode_of cfg0 = '''' then cfg0\<lparr>Mode_of := FIFO\<rparr> else cfg0);
          cfg = (if VisibilityTimeoutMS cfg1 \<le> 0 then cfg1\<lparr>VisibilityTimeoutMS := 30000\<rparr> else cfg1)
      in \<lparr>q_cfg = cfg, q_mem = (\<lambda>_. zero_msg), q_next = 0, q_seq = 0,
          q_ready = newMsgHeap (orderBy (Mode_of cfg)), q_delayed = newMsgHeap byVisibleAt,
          q_inflight = newMsgHeap byLeaseExpiry, q_leases = (\<lambda>_. None), q_dlq = [],
          q_enqueued = 0, q_delivered = 0, q_acked = 0, q_nacked = 0, q_expired = 0,
          q_walErr = None, q_wake = 0\<rparr>)"

text \<open>Updating the message behind a pointer, and the heap operations on the three heaps.\<close>

definition set_msg :: "queue \<Rightarrow> ref \<Rightarrow> (msg \<Rightarrow> msg) \<Rightarrow> queue" where
  "set_msg q p f = q\<lparr>q_mem := (q_mem q)(p := f (q_mem q p))\<rparr>"

definition push_ready :: "queue \<Rightarrow> ref \<Rightarrow> queue" where
  "push_ready q p =
     (case heap_Push (q_mem q) (q_ready q) p of (M, h) \<Rightarrow> q\<lparr>q_mem := M, q_ready := h\<rparr>)"

definition push_delayed :: "queue \<Rightarrow> ref \<Rightarrow> queue" where
  "push_delayed q p =
     (case heap_Push (q_mem q) (q_delayed q) p of (M, h) \<Rightarrow> q\<lparr>q_mem := M, q_delayed := h\<rparr>)"

definition push_inflight :: "queue \<Rightarrow> ref \<Rightarrow> queue" where
  "push_inflight q p =
     (case heap_Push (q_mem q) (q_inflight q) p of (M, h) \<Rightarrow> q\<lparr>q_mem := M, q_inflight := h\<rparr>)"

definition pop_ready :: "queue \<Rightarrow> queue option" where
  "pop_ready q =
     map_option (\<lambda>(M, h, _). q\<lparr>q_mem := M, q_ready := h\<rparr>) (heap_Pop (q_mem q) (q_ready q))"

definition pop_delayed :: "queue \<Rightarrow> queue option" where
  "pop_delayed q =
     map_option (\<lambda>(M, h, _). q\<lparr>q_mem := M, q_delayed := h\<rparr>) (heap_Pop (q_mem q) (q_delayed q))"

definition pop_inflight :: "queue \<Rightarrow> queue option" where
  "pop_inflight q =
     map_option (\<lambda>(M, h, _). q\<lparr>q_mem := M, q_inflight := h\<rparr>) (heap_Pop (q_mem q) (q_inflight q))"

definition remove_inflight :: "queue \<Rightarrow> ref \<Rightarrow> queue option" where
  "remove_inflight q p =
     map_option (\<lambda>(M, h, _). q\<lparr>q_mem := M, q_inflight := h\<rparr>)
       (heap_Remove (q_mem q) (q_inflight q) (index (q_mem q p)))"

definition fix_inflight :: "queue \<Rightarrow> ref \<Rightarrow> queue option" where
  "fix_inflight q p =
     map_option (\<lambda>(M, h). q\<lparr>q_mem := M, q_inflight := h\<rparr>)
       (heap_Fix (q_mem q) (q_inflight q) (index (q_mem q p)))"

section \<open>Placing, signalling, retrying\<close>

definition placeLocked :: "queue \<Rightarrow> ref \<Rightarrow> gotime \<Rightarrow> queue" where
  "placeLocked q p now = (if Ready (q_mem q p) now then push_ready q p else push_delayed q p)"

definition signalLocked :: "queue \<Rightarrow> queue" where
  "signalLocked q = q\<lparr>q_wake := Suc (q_wake q)\<rparr>"

definition q_record :: "queue \<Rightarrow> Op \<Rightarrow> wal_record" where
  "q_record q oper = zero_record\<lparr>rOp := oper, rQueue := Name (q_cfg q)\<rparr>"

definition retryLocked ::
  "queue \<Rightarrow> wal \<Rightarrow> world \<Rightarrow> ref \<Rightarrow> gotime \<Rightarrow> duration \<Rightarrow> queue \<times> wal \<times> world \<times> unit result" where
  "retryLocked q w W p now delay =
     (if MaxAttempts (q_cfg q) > 0 \<and> Attempts (q_mem q p) \<ge> MaxAttempts (q_cfg q)
      then (case AppendSync w W ((q_record q OpDLQ)\<lparr>rID := ID (q_mem q p)\<rparr>) of
              (w1, W1, Inl e) \<Rightarrow>
                (placeLocked (set_msg q p (\<lambda>m. m\<lparr>VisibleAt := now\<rparr>)) p now, w1, W1, Inl e)
            | (w1, W1, Inr _) \<Rightarrow> (q\<lparr>q_dlq := q_dlq q @ [p]\<rparr>, w1, W1, Inr ()))
      else (let q1 = set_msg q p (\<lambda>m. m\<lparr>VisibleAt := now + delay\<rparr>)
            in (case AppendSync w W ((q_record q1 OpNack)\<lparr>rID := ID (q_mem q1 p), rMsg := Some (q_mem q1 p)\<rparr>) of
                  (w1, W1, Inl e) \<Rightarrow> (q1, w1, W1, Inl e)
                | (w1, W1, Inr _) \<Rightarrow> (placeLocked q1 p now, w1, W1, Inr ()))))"

section \<open>The two clocks\<close>

text \<open>
  The two loops of \<open>advanceLocked\<close>. Both end because each round takes one element out of
  its heap and none goes back into it; the facts the termination proofs need come first.
\<close>

lemma Swap_length: "Swap M h i j = (M', h') \<Longrightarrow> length (items h') = length (items h)"
  by (auto simp: Swap_def Let_def)

lemma down_length: "down M h i n = (M', h', b) \<Longrightarrow> length (items h') = length (items h)"
proof (induction M h i n arbitrary: M' h' b rule: down.induct)
  case (1 M h i n)
  let ?j1 = "2 * i + 1"
  let ?j = "if ?j1 + 1 < n \<and> Less M h (?j1 + 1) ?j1 then ?j1 + 1 else ?j1"
  show ?case
  proof (cases "?j1 \<ge> n \<or> \<not> Less M h ?j i")
    case True
    then show ?thesis
      using "1.prems" by (subst (asm) down.simps) (auto simp: Let_def split: if_splits)
  next
    case False
    then have nle: "\<not> ?j1 \<ge> n" and lj: "\<not> \<not> Less M h ?j i" by simp_all
    obtain N g where sw: "Swap M h i ?j = (N, g)" by fastforce
    obtain M2 h2 b2 where rec: "down N g ?j n = (M2, h2, b2)" by (metis prod_cases3)
    have "h' = h2"
      using "1.prems" nle lj sw rec unfolding down.simps [of M h i n] Let_def by (auto split: if_splits)
    then show ?thesis using "1.IH" [OF refl nle refl lj sw [symmetric] rec] Swap_length [OF sw] by simp
  qed
qed

lemma heap_Pop_length: "heap_Pop M h = Some (M', h', m) \<Longrightarrow> length (items h') < length (items h)"
  by (auto simp: heap_Pop_def Let_def Pop_def Len_def split: if_splits prod.splits
      dest!: down_length Swap_length)

lemma pop_delayed_length:
  "pop_delayed q = Some q' \<Longrightarrow> length (items (q_delayed q')) < length (items (q_delayed q))"
  by (auto simp: pop_delayed_def dest!: heap_Pop_length)

lemma pop_inflight_length:
  "pop_inflight q = Some q' \<Longrightarrow> length (items (q_inflight q')) < length (items (q_inflight q))"
  by (auto simp: pop_inflight_def dest!: heap_Pop_length)

lemma push_ready_frame [simp]:
  "q_delayed (push_ready q p) = q_delayed q" "q_inflight (push_ready q p) = q_inflight q"
  "q_cfg (push_ready q p) = q_cfg q" "q_dlq (push_ready q p) = q_dlq q" "q_next (push_ready q p) = q_next q"
  "q_leases (push_ready q p) = q_leases q" "q_seq (push_ready q p) = q_seq q"
  by (simp_all add: push_ready_def split: prod.splits)

lemma push_delayed_frame [simp]:
  "q_ready (push_delayed q p) = q_ready q" "q_inflight (push_delayed q p) = q_inflight q"
  "q_cfg (push_delayed q p) = q_cfg q" "q_dlq (push_delayed q p) = q_dlq q"
  "q_next (push_delayed q p) = q_next q"
  "q_leases (push_delayed q p) = q_leases q" "q_seq (push_delayed q p) = q_seq q"
  by (simp_all add: push_delayed_def split: prod.splits)

lemma push_inflight_frame [simp]:
  "q_ready (push_inflight q p) = q_ready q" "q_delayed (push_inflight q p) = q_delayed q"
  "q_cfg (push_inflight q p) = q_cfg q" "q_dlq (push_inflight q p) = q_dlq q"
  "q_next (push_inflight q p) = q_next q"
  "q_leases (push_inflight q p) = q_leases q" "q_seq (push_inflight q p) = q_seq q"
  by (simp_all add: push_inflight_def split: prod.splits)

lemma set_msg_frame [simp]:
  "q_ready (set_msg q p f) = q_ready q" "q_delayed (set_msg q p f) = q_delayed q"
  "q_inflight (set_msg q p f) = q_inflight q" "q_cfg (set_msg q p f) = q_cfg q"
  "q_dlq (set_msg q p f) = q_dlq q" "q_next (set_msg q p f) = q_next q"
  "q_leases (set_msg q p f) = q_leases q" "q_seq (set_msg q p f) = q_seq q"
  "q_mem (set_msg q p f) = (q_mem q)(p := f (q_mem q p))"
  by (simp_all add: set_msg_def)

lemma placeLocked_frame [simp]:
  "q_inflight (placeLocked q p now) = q_inflight q" "q_cfg (placeLocked q p now) = q_cfg q"
  "q_dlq (placeLocked q p now) = q_dlq q" "q_next (placeLocked q p now) = q_next q"
  "q_leases (placeLocked q p now) = q_leases q" "q_seq (placeLocked q p now) = q_seq q"
  by (simp_all add: placeLocked_def)

lemma retryLocked_frame:
  "retryLocked q w W p now delay = (q', w', W', r) \<Longrightarrow>
     q_inflight q' = q_inflight q \<and> q_cfg q' = q_cfg q \<and> q_next q' = q_next q \<and>
     q_leases q' = q_leases q \<and> q_seq q' = q_seq q"
  by (auto simp: retryLocked_def Let_def split: if_splits prod.splits sum.splits)

function promote :: "queue \<Rightarrow> gotime \<Rightarrow> bool \<Rightarrow> (queue \<times> bool) option" where
  "promote q now woke =
     (case peek (q_delayed q) of
        None \<Rightarrow> Some (q, woke)
      | Some m \<Rightarrow>
          if \<not> Ready (q_mem q m) now then Some (q, woke)
          else (case pop_delayed q of
                  None \<Rightarrow> None
                | Some q1 \<Rightarrow> promote (push_ready q1 m) now True))"
  by pat_completeness auto
termination
  by (relation "measure (\<lambda>(q, now, woke). length (items (q_delayed q)))") (auto dest: pop_delayed_length)

function reclaim ::
  "queue \<Rightarrow> wal \<Rightarrow> world \<Rightarrow> gotime \<Rightarrow> bool \<Rightarrow> (queue \<times> wal \<times> world \<times> bool) option" where
  "reclaim q w W now woke =
     (case peek (q_inflight q) of
        None \<Rightarrow> Some (q, w, W, woke)
      | Some m \<Rightarrow>
          if LeaseExpiry (q_mem q m) > now then Some (q, w, W, woke)
          else (case pop_inflight q of
                  None \<Rightarrow> None
                | Some q1 \<Rightarrow>
                    (let q2 = q1\<lparr>q_leases := (q_leases q1)(Receipt (q_mem q1 m) := None)\<rparr>;
                         q3 = set_msg q2 m (\<lambda>x. x\<lparr>Receipt := '''', LeaseExpiry := zero_time\<rparr>);
                         q4 = q3\<lparr>q_expired := q_expired q3 + 1\<rparr>
                     in (case retryLocked q4 w W m now 0 of
                           (q5, w1, W1, r) \<Rightarrow>
                             reclaim
                               (case r of
                                  Inl e \<Rightarrow> (if q_walErr q5 = None then q5\<lparr>q_walErr := Some e\<rparr> else q5)
                                | Inr _ \<Rightarrow> q5) w1 W1 now True))))"
  by pat_completeness auto
termination
  by (relation "measure (\<lambda>(q, w, W, now, woke). length (items (q_inflight q)))")
     (auto dest!: pop_inflight_length retryLocked_frame [OF sym] split: sum.splits)

declare promote.simps [simp del] reclaim.simps [simp del]

definition advanceLocked :: "queue \<Rightarrow> wal \<Rightarrow> world \<Rightarrow> gotime \<Rightarrow> (queue \<times> wal \<times> world) option" where
  "advanceLocked q w W now =
     (case promote q now False of
        None \<Rightarrow> None
      | Some (q1, woke1) \<Rightarrow>
          (case reclaim q1 w W now woke1 of
             None \<Rightarrow> None
           | Some (q2, w1, W1, woke) \<Rightarrow> Some (if woke then signalLocked q2 else q2, w1, W1)))"

definition Tick :: "queue \<Rightarrow> wal \<Rightarrow> world \<Rightarrow> gotime \<Rightarrow> (queue \<times> wal \<times> world) option" where
  "Tick q w W now = advanceLocked q w W now"

section \<open>Enqueue\<close>

definition Enqueue ::
  "queue \<Rightarrow> wal \<Rightarrow> world \<Rightarrow> string \<Rightarrow> int \<Rightarrow> duration \<Rightarrow> queue \<times> wal \<times> world \<times> msg result" where
  "Enqueue q w W body priority delay =
     (if priority \<noteq> 0 \<and> \<not> Priority_on (q_cfg q) then (q, w, W, Inl ErrPriorityDisabled)
      else
        (case time_Now W of (now, W1) \<Rightarrow>
         case newID W1 of (ident, W2) \<Rightarrow>
           (let q1 = q\<lparr>q_seq := q_seq q + 1\<rparr>;
                m = zero_msg\<lparr>ID := ident, Body := body, Priority := priority, Seq := q_seq q1,
                      VisibleAt := now + delay, EnqueuedAt := now\<rparr>;
                p = q_next q1;
                q2 = q1\<lparr>q_mem := (q_mem q1)(p := m), q_next := Suc p\<rparr>
            in (case AppendSync w W2 ((q_record q2 OpEnqueue)\<lparr>rMsg := Some (q_mem q2 p)\<rparr>) of
                  (w3, W3, Inl e) \<Rightarrow> (q2, w3, W3, Inl e)
                | (w3, W3, Inr _) \<Rightarrow>
                    (let q3 = placeLocked q2 p now;
                         q4 = signalLocked (q3\<lparr>q_enqueued := q_enqueued q3 + 1\<rparr>)
                     in (q4, w3, W3, Inr (q_mem q4 p)))))))"

section \<open>Receive\<close>

text \<open>Taking up to \<open>n\<close> messages off the ready heap.\<close>

fun pick :: "nat \<Rightarrow> queue \<Rightarrow> (queue \<times> ref list) option" where
  "pick 0 q = Some (q, [])"
| "pick (Suc n) q =
     (case peek (q_ready q) of
        None \<Rightarrow> Some (q, [])
      | Some m \<Rightarrow>
          (case pop_ready q of
             None \<Rightarrow> None
           | Some q1 \<Rightarrow> map_option (\<lambda>(q2, ps). (q2, m # ps)) (pick n q1)))"

text \<open>
  Logging the leases before taking them: one record per message, carrying what the message
  is about to become. The receipts drawn are returned.
\<close>

fun log_leases ::
  "queue \<Rightarrow> wal \<Rightarrow> world \<Rightarrow> gotime \<Rightarrow> ref list \<Rightarrow> wal \<times> world \<times> (string list) result" where
  "log_leases q w W expiry [] = (w, W, Inr [])"
| "log_leases q w W expiry (p # ps) =
     (case newID W of
        (receipt, W1) \<Rightarrow>
          (let snap = (q_mem q p)\<lparr>Attempts := wrap64 (Attempts (q_mem q p) + 1), Receipt := receipt,
                 LeaseExpiry := expiry\<rparr>
           in (case Append w W1 ((q_record q OpLease)\<lparr>rMsg := Some snap\<rparr>) of
                 (w2, W2, Inl e) \<Rightarrow> (w2, W2, Inl e)
               | (w2, W2, Inr _) \<Rightarrow>
                   (case log_leases q w2 W2 expiry ps of
                      (w3, W3, Inl e) \<Rightarrow> (w3, W3, Inl e)
                    | (w3, W3, Inr rs) \<Rightarrow> (w3, W3, Inr (receipt # rs))))))"

text \<open>Taking the leases: the loop after the comment \<^verbatim>\<open>Commit\<close>.\<close>

fun commit_leases :: "queue \<Rightarrow> gotime \<Rightarrow> (ref \<times> string) list \<Rightarrow> queue \<times> msg list" where
  "commit_leases q expiry [] = (q, [])"
| "commit_leases q expiry ((p, receipt) # prs) =
     (let q1 = set_msg q p (\<lambda>m. m\<lparr>Attempts := wrap64 (Attempts m + 1), Receipt := receipt,
                 LeaseExpiry := expiry\<rparr>);
          q2 = push_inflight q1 p;
          q3 = q2\<lparr>q_leases := (q_leases q2)(receipt \<mapsto> p), q_delivered := q_delivered q2 + 1\<rparr>
      in (case commit_leases q3 expiry prs of (q4, out) \<Rightarrow> (q4, q_mem q3 p # out)))"

definition tryReceive ::
  "queue \<Rightarrow> wal \<Rightarrow> world \<Rightarrow> int \<Rightarrow> duration \<Rightarrow>
   (queue \<times> wal \<times> world \<times> nat \<times> (msg list) result) option" where
  "tryReceive q w W limit visibility =
     (let wake = q_wake q in
      case time_Now W of
        (now, W1) \<Rightarrow>
          (case advanceLocked q w W1 now of
             None \<Rightarrow> None
           | Some (q2, w2, W2) \<Rightarrow>
               (case pick (nat limit) q2 of
                  None \<Rightarrow> None
                | Some (q3, picked) \<Rightarrow>
                    if picked = [] then Some (q3, w2, W2, wake, Inr [])
                    else (case log_leases q3 w2 W2 (now + visibility) picked of
                            (w4, W4, Inl e) \<Rightarrow>
                              Some (fold (\<lambda>p q. push_ready q p) picked q3, w4, W4, wake, Inl e)
                          | (w4, W4, Inr receipts) \<Rightarrow>
                              (case commit_leases q3 (now + visibility) (zip picked receipts) of
                                 (q5, out) \<Rightarrow> Some (q5, w4, W4, wake, Inr out))))))"

text \<open>
  The long poll. What happens while a receiver is parked is a schedule: how its \<^verbatim>\<open>select\<close>
  ended, and what the other goroutines did to the queue, the log and the world meanwhile.
  The loop is \<open>Waiting\<close> when the schedule runs out, that is while the receiver is still
  parked; the length of the wait (at most 50 ms, \<open>remaining\<close>) only matters for how far the
  clock has moved at the next reading, which the schedule's effect on the world contains.
\<close>

datatype wakeup = Woken | Fired | Cancelled

datatype 'a outcome = Waiting | Panic | Returned 'a

type_synonym shared = "queue \<times> wal \<times> world"
type_synonym schedule = "(wakeup \<times> (shared \<Rightarrow> shared)) list"

definition remaining :: "gotime \<Rightarrow> gotime \<Rightarrow> duration" where
  "remaining deadline now =
     (if deadline - now > 50 * Millisecond then 50 * Millisecond else deadline - now)"

fun Receive_loop ::
  "schedule \<Rightarrow> shared \<Rightarrow> int \<Rightarrow> duration \<Rightarrow> duration \<Rightarrow> gotime \<Rightarrow> (shared \<times> (msg list) result) outcome" where
  "Receive_loop sch (q, w, W) limit visibility wait deadline =
     (case tryReceive q w W limit visibility of
        None \<Rightarrow> Panic
      | Some (q1, w1, W1, wake, Inl e) \<Rightarrow> Returned ((q1, w1, W1), Inl e)
      | Some (q1, w1, W1, wake, Inr out) \<Rightarrow>
          if out \<noteq> [] \<or> wait \<le> 0 then Returned ((q1, w1, W1), Inr out)
          else (case time_Now W1 of
                  (now, W2) \<Rightarrow>
                    if remaining deadline now \<le> 0 then Returned ((q1, w1, W2), Inr [])
                    else (case sch of
                            [] \<Rightarrow> Waiting
                          | (ev, others) # sch' \<Rightarrow>
                              if ev = Cancelled then Returned (others (q1, w1, W2), Inl ErrCanceled)
                              else Receive_loop sch' (others (q1, w1, W2)) limit visibility wait deadline)))"

definition Receive ::
  "schedule \<Rightarrow> shared \<Rightarrow> int \<Rightarrow> duration \<Rightarrow> duration \<Rightarrow> (shared \<times> (msg list) result) outcome" where
  "Receive sch s limit0 visibility0 wait =
     (case s of
        (q, w, W) \<Rightarrow>
          (let limit = (if limit0 \<le> 0 then 1 else limit0);
               visibility = (if visibility0 \<le> 0 then Visibility (q_cfg q) else visibility0)
           in (case time_Now W of
                 (now, W1) \<Rightarrow> Receive_loop sch (q, w, W1) limit visibility wait (now + wait))))"

section \<open>Ack, Extend, Nack\<close>

definition Ack ::
  "queue \<Rightarrow> wal \<Rightarrow> world \<Rightarrow> string \<Rightarrow> (queue \<times> wal \<times> world \<times> unit result) option" where
  "Ack q w W receipt =
     (case q_leases q receipt of
        None \<Rightarrow> Some (q, w, W, Inl ErrNoLease)
      | Some p \<Rightarrow>
          (case AppendSync w W ((q_record q OpAck)\<lparr>rID := ID (q_mem q p)\<rparr>) of
             (w1, W1, Inl e) \<Rightarrow> Some (q, w1, W1, Inl e)
           | (w1, W1, Inr _) \<Rightarrow>
               (case remove_inflight q p of
                  None \<Rightarrow> None
                | Some q1 \<Rightarrow>
                    Some (q1\<lparr>q_leases := (q_leases q1)(receipt := None), q_acked := q_acked q1 + 1\<rparr>,
                          w1, W1, Inr ()))))"

definition Extend ::
  "queue \<Rightarrow> world \<Rightarrow> string \<Rightarrow> duration \<Rightarrow> (queue \<times> world \<times> gotime result) option" where
  "Extend q W receipt visibility0 =
     (case q_leases q receipt of
        None \<Rightarrow> Some (q, W, Inl ErrNoLease)
      | Some p \<Rightarrow>
          (let visibility = (if visibility0 \<le> 0 then Visibility (q_cfg q) else visibility0) in
           case time_Now W of
             (now, W1) \<Rightarrow>
               (case fix_inflight (set_msg q p (\<lambda>m. m\<lparr>LeaseExpiry := now + visibility\<rparr>)) p of
                  None \<Rightarrow> None
                | Some q1 \<Rightarrow> Some (q1, W1, Inr (LeaseExpiry (q_mem q1 p))))))"

definition Nack ::
  "queue \<Rightarrow> wal \<Rightarrow> world \<Rightarrow> string \<Rightarrow> duration \<Rightarrow> (queue \<times> wal \<times> world \<times> unit result) option" where
  "Nack q w W receipt delay =
     (case q_leases q receipt of
        None \<Rightarrow> Some (q, w, W, Inl ErrNoLease)
      | Some p \<Rightarrow>
          (case time_Now W of
             (now, W1) \<Rightarrow>
               (case remove_inflight q p of
                  None \<Rightarrow> None
                | Some q1 \<Rightarrow>
                    (let q2 = q1\<lparr>q_leases := (q_leases q1)(receipt := None)\<rparr>;
                         q3 = set_msg q2 p (\<lambda>x. x\<lparr>Receipt := '''', LeaseExpiry := zero_time\<rparr>);
                         q4 = q3\<lparr>q_nacked := q_nacked q3 + 1\<rparr>
                     in (case retryLocked q4 w W1 p now delay of
                           (q5, w2, W2, Inl e) \<Rightarrow> Some (q5, w2, W2, Inl e)
                         | (q5, w2, W2, Inr _) \<Rightarrow> Some (signalLocked q5, w2, W2, Inr ()))))))"

section \<open>Replaying the dead letters\<close>

text \<open>The loop over the dead letter queue: what it has done so far, and what is left.\<close>

fun replay_dlq ::
  "queue \<Rightarrow> wal \<Rightarrow> world \<Rightarrow> gotime \<Rightarrow> ref list \<Rightarrow> nat \<Rightarrow>
   queue \<times> wal \<times> world \<times> ref list \<times> nat \<times> unit result" where
  "replay_dlq q w W now [] n = (q, w, W, [], n, Inr ())"
| "replay_dlq q w W now (p # ps) n =
     (case AppendSync w W ((q_record q OpReplay)\<lparr>rID := ID (q_mem q p)\<rparr>) of
        (w1, W1, Inl e) \<Rightarrow> (q, w1, W1, p # ps, n, Inl e)
      | (w1, W1, Inr _) \<Rightarrow>
          replay_dlq (placeLocked (set_msg q p (\<lambda>m. m\<lparr>Attempts := 0, VisibleAt := now\<rparr>)) p now)
            w1 W1 now ps (Suc n))"

definition ReplayDLQ :: "queue \<Rightarrow> wal \<Rightarrow> world \<Rightarrow> queue \<times> wal \<times> world \<times> nat \<times> unit result" where
  "ReplayDLQ q w W =
     (case time_Now W of
        (now, W1) \<Rightarrow>
          (case replay_dlq q w W1 now (q_dlq q) 0 of
             (q1, w1, W2, left, n, r) \<Rightarrow>
               (let q2 = q1\<lparr>q_dlq := left\<rparr>
                in (if n > 0 then signalLocked q2 else q2, w1, W2, n, r))))"

section \<open>Statistics\<close>

record Stats =
  s_Name :: string
  s_Mode :: Mode
  s_Priority :: bool
  s_Ready :: nat
  s_Delayed :: nat
  s_Inflight :: nat
  s_DLQ :: nat
  s_Enqueued :: u64
  s_Delivered :: u64
  s_Acked :: u64
  s_Nacked :: u64
  s_Expired :: u64
  s_OldestReadyAgeMS :: int
  s_Degraded :: "error option"

text \<open>
  The scan for the oldest ready message; Go's zero time is the starting value. \<open>time_Since\<close>
  saturates like \<^verbatim>\<open>time.Time.Sub\<close>, \<open>Milliseconds\<close> truncates toward zero.
\<close>

definition oldest_ready :: "msg list \<Rightarrow> gotime" where
  "oldest_ready ms =
     foldl (\<lambda>oldest m. if oldest = zero_time \<or> EnqueuedAt m < oldest then EnqueuedAt m else oldest)
       zero_time ms"

definition time_Since :: "gotime \<Rightarrow> gotime \<Rightarrow> duration" where
  "time_Since now t = max (- (2 ^ 63)) (min (2 ^ 63 - 1) (now - t))"

definition Milliseconds :: "duration \<Rightarrow> int" where
  "Milliseconds d = sgn d * (\<bar>d\<bar> div Millisecond)"

definition Stats_of :: "queue \<Rightarrow> world \<Rightarrow> world \<times> Stats" where
  "Stats_of q W =
     (let oldest = oldest_ready (map (q_mem q) (items (q_ready q)));
          (age, W1) = (if oldest = zero_time then (0, W)
             else (case time_Now W of (now, W') \<Rightarrow> (Milliseconds (time_Since now oldest), W')))
      in (W1, \<lparr>s_Name = Name (q_cfg q), s_Mode = Mode_of (q_cfg q), s_Priority = Priority_on (q_cfg q),
           s_Ready = Len (q_ready q), s_Delayed = Len (q_delayed q), s_Inflight = Len (q_inflight q),
           s_DLQ = length (q_dlq q), s_Enqueued = q_enqueued q, s_Delivered = q_delivered q,
           s_Acked = q_acked q, s_Nacked = q_nacked q, s_Expired = q_expired q,
           s_OldestReadyAgeMS = age, s_Degraded = q_walErr q\<rparr>))"

end
