(* ===== verification/FQ_Queue_Inv.thy ===== *)
theory FQ_Queue_Inv
  imports FQ_Queue
begin

text \<open>
  What a queue's operations keep and what they do to its contents.

  \<open>hold H q\<close> is the structural invariant while the operation in progress has the messages
  \<open>H\<close> in its hands: the three heaps are well formed and ordered by the right clock, and no
  message is in two places. \<open>lease_ok\<close> ties the lease table to the inflight heap. \<open>qinv\<close>, the
  invariant between operations, is both with empty hands.

  \<open>abs\<close> is the abstract queue: three bags of messages and a list of dead letters, without
  pointers, slots or cached indices. The operations are specified as transitions of it.
\<close>

section \<open>The invariant and the abstract queue\<close>

definition refs :: "queue \<Rightarrow> ref multiset" where
  "refs q = mset (items (q_ready q)) + mset (items (q_delayed q)) + mset (items (q_inflight q)) +
     mset (q_dlq q)"

definition apart :: "ref multiset \<Rightarrow> ref \<Rightarrow> bool" where
  "apart R n \<longleftrightarrow> (\<forall>r. count R r \<le> 1) \<and> (\<forall>r \<in># R. r < n)"

definition hold :: "ref list \<Rightarrow> queue \<Rightarrow> bool" where
  "hold H q \<longleftrightarrow>
     heap_inv (q_mem q) (q_ready q) \<and> heap_inv (q_mem q) (q_delayed q) \<and>
     heap_inv (q_mem q) (q_inflight q) \<and>
     less (q_ready q) = orderBy (Mode_of (q_cfg q)) \<and> less (q_delayed q) = byVisibleAt \<and>
     less (q_inflight q) = byLeaseExpiry \<and>
     apart (refs q + mset H) (q_next q)"

definition lease_ok :: "queue \<Rightarrow> bool" where
  "lease_ok q \<longleftrightarrow>
     (\<forall>r p. q_leases q r = Some p \<longrightarrow> p \<in> set (items (q_inflight q)) \<and> Receipt (q_mem q p) = r)"

definition qinv :: "queue \<Rightarrow> bool" where
  "qinv q \<longleftrightarrow> hold [] q \<and> lease_ok q"

record aqueue =
  a_ready :: "msg multiset"
  a_delayed :: "msg multiset"
  a_inflight :: "msg multiset"
  a_dlq :: "msg list"

definition val :: "queue \<Rightarrow> ref \<Rightarrow> msg" where
  "val q p = strip (q_mem q p)"

definition abs :: "queue \<Rightarrow> aqueue" where
  "abs q = \<lparr>a_ready = image_mset (val q) (mset (items (q_ready q))),
     a_delayed = image_mset (val q) (mset (items (q_delayed q))),
     a_inflight = image_mset (val q) (mset (items (q_inflight q))),
     a_dlq = map (val q) (q_dlq q)\<rparr>"

text \<open>Everything of a queue but the messages and the places they are in.\<close>

definition rest :: "queue \<Rightarrow> Config \<times> ref \<times> u64 \<times> (string \<Rightarrow> ref option) \<times> u64 list \<times> error option \<times> nat" where
  "rest q = (q_cfg q, q_next q, q_seq q, q_leases q,
     [q_enqueued q, q_delivered q, q_acked q, q_nacked q, q_expired q], q_walErr q, q_wake q)"

lemma rest_sel:
  assumes "rest q' = rest q"
  shows "q_cfg q' = q_cfg q" "q_next q' = q_next q" "q_seq q' = q_seq q" "q_leases q' = q_leases q"
    "q_walErr q' = q_walErr q" "q_wake q' = q_wake q" "q_expired q' = q_expired q"
  using assms by (simp_all add: rest_def)

lemma rest_push [simp]:
  "rest (push_ready q p) = rest q" "rest (push_delayed q p) = rest q" "rest (push_inflight q p) = rest q"
  "rest (set_msg q p f) = rest q" "rest (placeLocked q p now) = rest q"
  by (simp_all add: rest_def push_ready_def push_delayed_def push_inflight_def placeLocked_def set_msg_def
      split: prod.split)

text \<open>Fields the invariant and the abstraction do not look at.\<close>

lemma hold_other [simp]:
  "hold H (q\<lparr>q_leases := l\<rparr>) = hold H q" "hold H (q\<lparr>q_walErr := e\<rparr>) = hold H q"
  "hold H (q\<lparr>q_wake := n\<rparr>) = hold H q" "hold H (q\<lparr>q_enqueued := a\<rparr>) = hold H q"
  "hold H (q\<lparr>q_delivered := a\<rparr>) = hold H q" "hold H (q\<lparr>q_acked := a\<rparr>) = hold H q"
  "hold H (q\<lparr>q_nacked := a\<rparr>) = hold H q" "hold H (q\<lparr>q_expired := a\<rparr>) = hold H q"
  "hold H (q\<lparr>q_seq := a\<rparr>) = hold H q" "hold H (signalLocked q) = hold H q"
  by (simp_all add: hold_def refs_def signalLocked_def)

lemma abs_other [simp]:
  "abs (q\<lparr>q_leases := l\<rparr>) = abs q" "abs (q\<lparr>q_walErr := e\<rparr>) = abs q"
  "abs (q\<lparr>q_wake := n\<rparr>) = abs q" "abs (q\<lparr>q_enqueued := a\<rparr>) = abs q"
  "abs (q\<lparr>q_delivered := a\<rparr>) = abs q" "abs (q\<lparr>q_acked := a\<rparr>) = abs q"
  "abs (q\<lparr>q_nacked := a\<rparr>) = abs q" "abs (q\<lparr>q_expired := a\<rparr>) = abs q"
  "abs (q\<lparr>q_seq := a\<rparr>) = abs q" "abs (signalLocked q) = abs q"
  by (simp_all add: abs_def val_def [abs_def] signalLocked_def)

lemma val_other [simp]:
  "val (q\<lparr>q_leases := l\<rparr>) = val q" "val (q\<lparr>q_walErr := e\<rparr>) = val q"
  "val (q\<lparr>q_wake := n\<rparr>) = val q" "val (q\<lparr>q_enqueued := a\<rparr>) = val q"
  "val (q\<lparr>q_delivered := a\<rparr>) = val q" "val (q\<lparr>q_acked := a\<rparr>) = val q"
  "val (q\<lparr>q_nacked := a\<rparr>) = val q" "val (q\<lparr>q_expired := a\<rparr>) = val q"
  "val (q\<lparr>q_seq := a\<rparr>) = val q" "val (q\<lparr>q_dlq := d\<rparr>) = val q" "val (signalLocked q) = val q"
  by (simp_all add: val_def [abs_def] signalLocked_def)

lemma lease_ok_other [simp]:
  "lease_ok (q\<lparr>q_walErr := e\<rparr>) = lease_ok q" "lease_ok (q\<lparr>q_wake := n\<rparr>) = lease_ok q"
  "lease_ok (q\<lparr>q_enqueued := a\<rparr>) = lease_ok q" "lease_ok (q\<lparr>q_delivered := a\<rparr>) = lease_ok q"
  "lease_ok (q\<lparr>q_acked := a\<rparr>) = lease_ok q" "lease_ok (q\<lparr>q_nacked := a\<rparr>) = lease_ok q"
  "lease_ok (q\<lparr>q_expired := a\<rparr>) = lease_ok q" "lease_ok (q\<lparr>q_seq := a\<rparr>) = lease_ok q"
  "lease_ok (q\<lparr>q_dlq := d\<rparr>) = lease_ok q" "lease_ok (signalLocked q) = lease_ok q"
  by (simp_all add: lease_ok_def signalLocked_def)

lemma heap_inv_frame:
  assumes "heap_inv M h" and "\<forall>r \<in> set (items h). N r = M r"
  shows "heap_inv N h"
proof -
  have "N (items h ! k) = M (items h ! k)" if "k < length (items h)" for k
    using assms(2) that by simp
  moreover have "parent k < length (items h)" if "k < length (items h)" "0 < k" for k
    using parent_less [OF that(2)] that(1) by simp
  ultimately show ?thesis
    using assms(1) by (simp add: heap_inv_def idx_ok_def ordered_def keys_def)
qed

lemma hold_apart:
  assumes "hold H q"
  shows "r \<in> set (items (q_ready q)) \<Longrightarrow>
      r \<notin> set (items (q_delayed q)) \<and> r \<notin> set (items (q_inflight q)) \<and> r \<notin> set (q_dlq q) \<and> r \<notin> set H"
    and "r \<in> set (items (q_delayed q)) \<Longrightarrow>
      r \<notin> set (items (q_ready q)) \<and> r \<notin> set (items (q_inflight q)) \<and> r \<notin> set (q_dlq q) \<and> r \<notin> set H"
    and "r \<in> set (items (q_inflight q)) \<Longrightarrow>
      r \<notin> set (items (q_ready q)) \<and> r \<notin> set (items (q_delayed q)) \<and> r \<notin> set (q_dlq q) \<and> r \<notin> set H"
    and "r \<in> set H \<Longrightarrow>
      r \<notin> set (items (q_ready q)) \<and> r \<notin> set (items (q_delayed q)) \<and> r \<notin> set (items (q_inflight q)) \<and>
      r \<notin> set (q_dlq q)"
    and "distinct H"
proof -
  let ?R = "mset (items (q_ready q))" and ?D = "mset (items (q_delayed q))"
  let ?I = "mset (items (q_inflight q))" and ?Q = "mset (q_dlq q)"
  have c: "count ?R r + count ?D r + count ?I r + count ?Q r + count (mset H) r \<le> 1" for r
    using assms by (simp add: hold_def apart_def refs_def add.assoc)
  have pos: "x \<in> set xs \<Longrightarrow> 0 < count (mset xs) x" for x and xs :: "ref list"
    by (simp add: count_greater_zero_iff)
  have neg: "count (mset xs) x = 0 \<Longrightarrow> x \<notin> set xs" for x and xs :: "ref list"
    by (metis count_mset_0_iff)
  show "r \<in> set (items (q_ready q)) \<Longrightarrow>
      r \<notin> set (items (q_delayed q)) \<and> r \<notin> set (items (q_inflight q)) \<and> r \<notin> set (q_dlq q) \<and> r \<notin> set H"
    using c [of r] pos [of r "items (q_ready q)"] by (intro conjI neg) linarith+
  show "r \<in> set (items (q_delayed q)) \<Longrightarrow>
      r \<notin> set (items (q_ready q)) \<and> r \<notin> set (items (q_inflight q)) \<and> r \<notin> set (q_dlq q) \<and> r \<notin> set H"
    using c [of r] pos [of r "items (q_delayed q)"] by (intro conjI neg) linarith+
  show "r \<in> set (items (q_inflight q)) \<Longrightarrow>
      r \<notin> set (items (q_ready q)) \<and> r \<notin> set (items (q_delayed q)) \<and> r \<notin> set (q_dlq q) \<and> r \<notin> set H"
    using c [of r] pos [of r "items (q_inflight q)"] by (intro conjI neg) linarith+
  show "r \<in> set H \<Longrightarrow>
      r \<notin> set (items (q_ready q)) \<and> r \<notin> set (items (q_delayed q)) \<and> r \<notin> set (items (q_inflight q)) \<and>
      r \<notin> set (q_dlq q)"
    using c [of r] pos [of r H] by (intro conjI neg) linarith+
  have "count (mset H) x \<le> 1" for x using c [of x] by linarith
  then show "distinct H" by (metis distinct_count_atmost_1 count_eq_zero_iff le_Suc_eq le_zero_eq One_nat_def
        set_mset_mset)
qed

lemma hold_disjoint:
  assumes "hold H q"
  shows "set (items (q_delayed q)) \<inter> set (items (q_ready q)) = {}"
    and "set (items (q_inflight q)) \<inter> set (items (q_ready q)) = {}"
    and "set (items (q_ready q)) \<inter> set (items (q_delayed q)) = {}"
    and "set (items (q_inflight q)) \<inter> set (items (q_delayed q)) = {}"
    and "set (items (q_ready q)) \<inter> set (items (q_inflight q)) = {}"
    and "set (items (q_delayed q)) \<inter> set (items (q_inflight q)) = {}"
  using hold_apart(1,2,3) [OF assms] by blast+

lemma hold_heaps:
  assumes "hold H q"
  shows "heap_inv (q_mem q) (q_ready q)" "heap_inv (q_mem q) (q_delayed q)" "heap_inv (q_mem q) (q_inflight q)"
  using assms by (simp_all add: hold_def)

section \<open>Pushing\<close>

lemma put_val:
  "put M h p M' h' \<Longrightarrow> strip (M' r) = strip (M r)"
  by (simp add: put_def same_msgs_def)

lemma put_others:
  assumes "put M h p M' h'" and "heap_inv M g" and "set (items g) \<inter> set (items h) = {}"
    and "p \<notin> set (items g)"
  shows "heap_inv M' g"
  using assms by (intro heap_inv_frame [OF assms(2)]) (auto simp: put_def)

lemma put_set: "put M h p M' h' \<Longrightarrow> set (items h') = insert p (set (items h))"
  by (metis put_def set_mset_add_mset_insert set_mset_mset)

lemma push_ready_put:
  assumes "hold (p # H) q"
  shows "put (q_mem q) (q_ready q) p (q_mem (push_ready q p)) (q_ready (push_ready q p))"
  using ready_order.heap_Push_put [of "q_mem q" "q_ready q"] hold_apart(4) [OF assms, of p] assms
  by (auto simp: push_ready_def hold_def split: prod.split)

lemma push_delayed_put:
  assumes "hold (p # H) q"
  shows "put (q_mem q) (q_delayed q) p (q_mem (push_delayed q p)) (q_delayed (push_delayed q p))"
  using delay_order.heap_Push_put [of "q_mem q" "q_delayed q"] hold_apart(4) [OF assms, of p] assms
  by (auto simp: push_delayed_def hold_def split: prod.split)

lemma push_inflight_put:
  assumes "hold (p # H) q"
  shows "put (q_mem q) (q_inflight q) p (q_mem (push_inflight q p)) (q_inflight (push_inflight q p))"
  using lease_order.heap_Push_put [of "q_mem q" "q_inflight q"] hold_apart(4) [OF assms, of p] assms
  by (auto simp: push_inflight_def hold_def split: prod.split)

lemma push_ready_hold:
  assumes "hold (p # H) q"
  shows "hold H (push_ready q p)" and "val (push_ready q p) = val q"
    and "abs (push_ready q p) = (abs q)\<lparr>a_ready := add_mset (val q p) (a_ready (abs q))\<rparr>"
proof -
  note pt = push_ready_put [OF assms]
  note ap = hold_apart(4) [OF assms, of p]
  show v: "val (push_ready q p) = val q" using put_val [OF pt] by (simp add: val_def fun_eq_iff)
  have ms: "mset (items (q_ready (push_ready q p))) = add_mset p (mset (items (q_ready q)))"
    using pt by (simp add: put_def)
  then show "abs (push_ready q p) = (abs q)\<lparr>a_ready := add_mset (val q p) (a_ready (abs q))\<rparr>"
    by (simp add: abs_def v)
  have "refs (push_ready q p) + mset H = refs q + mset (p # H)" using ms by (simp add: refs_def)
  moreover have "heap_inv (q_mem (push_ready q p)) (q_delayed q)" "heap_inv (q_mem (push_ready q p)) (q_inflight q)"
    using put_others [OF pt] hold_heaps [OF assms] hold_disjoint [OF assms] ap by simp_all
  ultimately show "hold H (push_ready q p)" using assms pt by (simp add: hold_def put_def)
qed

lemma push_delayed_hold:
  assumes "hold (p # H) q"
  shows "hold H (push_delayed q p)" and "val (push_delayed q p) = val q"
    and "abs (push_delayed q p) = (abs q)\<lparr>a_delayed := add_mset (val q p) (a_delayed (abs q))\<rparr>"
proof -
  note pt = push_delayed_put [OF assms]
  note ap = hold_apart(4) [OF assms, of p]
  show v: "val (push_delayed q p) = val q" using put_val [OF pt] by (simp add: val_def fun_eq_iff)
  have ms: "mset (items (q_delayed (push_delayed q p))) = add_mset p (mset (items (q_delayed q)))"
    using pt by (simp add: put_def)
  then show "abs (push_delayed q p) = (abs q)\<lparr>a_delayed := add_mset (val q p) (a_delayed (abs q))\<rparr>"
    by (simp add: abs_def v)
  have "refs (push_delayed q p) + mset H = refs q + mset (p # H)" using ms by (simp add: refs_def)
  moreover have "heap_inv (q_mem (push_delayed q p)) (q_ready q)" "heap_inv (q_mem (push_delayed q p)) (q_inflight q)"
    using put_others [OF pt] hold_heaps [OF assms] hold_disjoint [OF assms] ap by simp_all
  ultimately show "hold H (push_delayed q p)" using assms pt by (simp add: hold_def put_def)
qed

lemma push_inflight_hold:
  assumes "hold (p # H) q"
  shows "hold H (push_inflight q p)" and "val (push_inflight q p) = val q"
    and "abs (push_inflight q p) = (abs q)\<lparr>a_inflight := add_mset (val q p) (a_inflight (abs q))\<rparr>"
    and "set (items (q_inflight (push_inflight q p))) = insert p (set (items (q_inflight q)))"
proof -
  note pt = push_inflight_put [OF assms]
  note ap = hold_apart(4) [OF assms, of p]
  show v: "val (push_inflight q p) = val q" using put_val [OF pt] by (simp add: val_def fun_eq_iff)
  have ms: "mset (items (q_inflight (push_inflight q p))) = add_mset p (mset (items (q_inflight q)))"
    using pt by (simp add: put_def)
  then show "abs (push_inflight q p) = (abs q)\<lparr>a_inflight := add_mset (val q p) (a_inflight (abs q))\<rparr>"
    by (simp add: abs_def v)
  have "refs (push_inflight q p) + mset H = refs q + mset (p # H)" using ms by (simp add: refs_def)
  moreover have "heap_inv (q_mem (push_inflight q p)) (q_ready q)" "heap_inv (q_mem (push_inflight q p)) (q_delayed q)"
    using put_others [OF pt] hold_heaps [OF assms] hold_disjoint [OF assms] ap by simp_all
  ultimately show "hold H (push_inflight q p)" using assms pt by (simp add: hold_def put_def)
  show "set (items (q_inflight (push_inflight q p))) = insert p (set (items (q_inflight q)))"
    by (rule put_set [OF pt])
qed

lemma set_msg_hold:
  assumes "hold H q" and "p \<in> set H"
  shows "hold H (set_msg q p f)" and "abs (set_msg q p f) = abs q"
    and "val (set_msg q p f) = (val q)(p := strip (f (q_mem q p)))"
proof -
  note ap = hold_apart(4) [OF assms]
  have hi: "heap_inv (q_mem (set_msg q p f)) h" if "heap_inv (q_mem q) h" "p \<notin> set (items h)" for h
    using that by (intro heap_inv_frame [OF that(1)]) auto
  show "hold H (set_msg q p f)"
    using assms ap by (simp add: hold_def hi del: set_msg_frame(9)) (simp add: refs_def)
  show "val (set_msg q p f) = (val q)(p := strip (f (q_mem q p)))" by (auto simp: val_def)
  then have "val (set_msg q p f) r = val q r" if "r \<noteq> p" for r using that by simp
  then have "image_mset (val (set_msg q p f)) (mset xs) = image_mset (val q) (mset xs)"
    "map (val (set_msg q p f)) xs = map (val q) xs" if "p \<notin> set xs" for xs
    using that by (auto intro!: image_mset_cong) metis+
  then show "abs (set_msg q p f) = abs q" using ap unfolding abs_def set_msg_frame by metis
qed

lemma placeLocked_hold:
  assumes "hold (p # H) q"
  shows "hold H (placeLocked q p now)" and "val (placeLocked q p now) = val q"
    and "abs (placeLocked q p now) =
      (if Ready (q_mem q p) now then (abs q)\<lparr>a_ready := add_mset (val q p) (a_ready (abs q))\<rparr>
       else (abs q)\<lparr>a_delayed := add_mset (val q p) (a_delayed (abs q))\<rparr>)"
  using push_ready_hold [OF assms] push_delayed_hold [OF assms] by (auto simp: placeLocked_def)

section \<open>Popping, removing, repairing\<close>

text \<open>\<open>gone q p q'\<close>: \<open>p\<close> has left its place in the queue and nothing else has changed.\<close>

lemma took_val: "took M h p M' h' \<Longrightarrow> strip (M' r) = strip (M r)"
  by (simp add: took_def same_msgs_def)

lemma took_others:
  assumes "took M h p M' h'" and "heap_inv M g" and "set (items g) \<inter> set (items h) = {}"
  shows "heap_inv M' g"
  using assms by (intro heap_inv_frame [OF assms(2)]) (auto simp: took_def)

lemma took_in: "took M h p M' h' \<Longrightarrow> p \<in> set (items h)"
  by (metis took_def union_single_eq_member set_mset_mset)

lemma pop_ready_hold:
  assumes "hold H q" and "peek (q_ready q) = Some m"
  shows "\<exists>q'. pop_ready q = Some q' \<and> hold (m # H) q' \<and> val q' = val q \<and>
    rest q' = rest q \<and> q_delayed q' = q_delayed q \<and> q_inflight q' = q_inflight q \<and> q_dlq q' = q_dlq q \<and>
    abs q = (abs q')\<lparr>a_ready := add_mset (val q m) (a_ready (abs q'))\<rparr>"
proof -
  have hi: "heap_inv (q_mem q) (q_ready q)" "less (q_ready q) = orderBy (Mode_of (q_cfg q))"
    using assms by (simp_all add: hold_def)
  obtain M' h' where hp: "heap_Pop (q_mem q) (q_ready q) = Some (M', h', m)"
    and tk: "took (q_mem q) (q_ready q) m M' h'"
    using ready_order.heap_Pop_took [OF hi assms(2)] by blast
  let ?q = "q\<lparr>q_mem := M', q_ready := h'\<rparr>"
  have v: "val ?q = val q" using took_val [OF tk] by (simp add: val_def fun_eq_iff)
  have ms: "mset (items (q_ready q)) = add_mset m (mset (items h'))" using tk by (simp add: took_def)
  have "refs q = add_mset m (refs ?q)" using ms by (simp add: refs_def)
  moreover have "heap_inv M' (q_delayed q)" "heap_inv M' (q_inflight q)"
    using took_others [OF tk] hold_heaps [OF assms(1)] hold_disjoint [OF assms(1)] by simp_all
  ultimately have "hold (m # H) ?q" using assms tk by (simp add: hold_def took_def)
  moreover have "abs q = (abs ?q)\<lparr>a_ready := add_mset (val q m) (a_ready (abs ?q))\<rparr>" using ms v by (simp add: abs_def)
  ultimately show ?thesis using hp v by (intro exI [of _ ?q]) (simp add: pop_ready_def rest_def)
qed

lemma pop_delayed_hold:
  assumes "hold H q" and "peek (q_delayed q) = Some m"
  shows "\<exists>q'. pop_delayed q = Some q' \<and> hold (m # H) q' \<and> val q' = val q \<and>
    rest q' = rest q \<and> q_ready q' = q_ready q \<and> q_inflight q' = q_inflight q \<and> q_dlq q' = q_dlq q \<and>
    abs q = (abs q')\<lparr>a_delayed := add_mset (val q m) (a_delayed (abs q'))\<rparr>"
proof -
  have hi: "heap_inv (q_mem q) (q_delayed q)" "less (q_delayed q) = byVisibleAt"
    using assms by (simp_all add: hold_def)
  obtain M' h' where hp: "heap_Pop (q_mem q) (q_delayed q) = Some (M', h', m)"
    and tk: "took (q_mem q) (q_delayed q) m M' h'"
    using delay_order.heap_Pop_took [OF hi assms(2)] by blast
  let ?q = "q\<lparr>q_mem := M', q_delayed := h'\<rparr>"
  have v: "val ?q = val q" using took_val [OF tk] by (simp add: val_def fun_eq_iff)
  have ms: "mset (items (q_delayed q)) = add_mset m (mset (items h'))" using tk by (simp add: took_def)
  have "refs q = add_mset m (refs ?q)" using ms by (simp add: refs_def)
  moreover have "heap_inv M' (q_ready q)" "heap_inv M' (q_inflight q)"
    using took_others [OF tk] hold_heaps [OF assms(1)] hold_disjoint [OF assms(1)] by simp_all
  ultimately have "hold (m # H) ?q" using assms tk by (simp add: hold_def took_def)
  moreover have "abs q = (abs ?q)\<lparr>a_delayed := add_mset (val q m) (a_delayed (abs ?q))\<rparr>" using ms v by (simp add: abs_def)
  ultimately show ?thesis using hp v by (intro exI [of _ ?q]) (simp add: pop_delayed_def rest_def)
qed

lemma remove_inflight_hold:
  assumes "hold H q" and "m \<in> set (items (q_inflight q))"
  shows "\<exists>q'. remove_inflight q m = Some q' \<and> hold (m # H) q' \<and> val q' = val q \<and>
    rest q' = rest q \<and> q_ready q' = q_ready q \<and> q_delayed q' = q_delayed q \<and> q_dlq q' = q_dlq q \<and>
    set (items (q_inflight q)) = insert m (set (items (q_inflight q'))) \<and>
    abs q = (abs q')\<lparr>a_inflight := add_mset (val q m) (a_inflight (abs q'))\<rparr>"
proof -
  let ?h = "q_inflight q"
  have hi: "heap_inv (q_mem q) ?h" "less ?h = byLeaseExpiry" using assms by (simp_all add: hold_def)
  obtain i where i: "i < length (items ?h)" "m = items ?h ! i" using assms(2) by (metis in_set_conv_nth)
  have ix: "index (q_mem q m) = int i" using hi i by (simp add: heap_inv_def idx_ok_def)
  obtain M' h' where hp: "heap_Remove (q_mem q) ?h (index (q_mem q m)) = Some (M', h', m)"
    and tk: "took (q_mem q) ?h m M' h'"
    using lease_order.heap_Remove_took [OF hi i(1)] i ix by auto
  let ?q = "q\<lparr>q_mem := M', q_inflight := h'\<rparr>"
  have v: "val ?q = val q" using took_val [OF tk] by (simp add: val_def fun_eq_iff)
  have ms: "mset (items ?h) = add_mset m (mset (items h'))" using tk by (simp add: took_def)
  have "refs q = add_mset m (refs ?q)" using ms by (simp add: refs_def)
  moreover have "heap_inv M' (q_ready q)" "heap_inv M' (q_delayed q)"
    using took_others [OF tk] hold_heaps [OF assms(1)] hold_disjoint [OF assms(1)] by simp_all
  ultimately have "hold (m # H) ?q" using assms tk by (simp add: hold_def took_def)
  moreover have "set (items ?h) = insert m (set (items h'))" using ms by (metis set_mset_mset set_mset_add_mset_insert)
  moreover have "abs q = (abs ?q)\<lparr>a_inflight := add_mset (val q m) (a_inflight (abs ?q))\<rparr>" using ms v by (simp add: abs_def)
  ultimately show ?thesis using hp v by (intro exI [of _ ?q]) (simp add: remove_inflight_def rest_def)
qed

text \<open>Popping the inflight heap is removing its root.\<close>

lemma pop_inflight_remove:
  assumes "hold H q" and "peek (q_inflight q) = Some m"
  shows "pop_inflight q = remove_inflight q m" and "m \<in> set (items (q_inflight q))"
proof -
  have m: "items (q_inflight q) \<noteq> []" "m = items (q_inflight q) ! 0"
    using assms(2) by (auto simp: peek_def split: if_splits)
  then have "index (q_mem q m) = 0" using assms(1) by (simp add: hold_def heap_inv_def idx_ok_def)
  then show "pop_inflight q = remove_inflight q m"
    using lease_order.heap_Pop_Remove [OF m(1)] by (simp add: pop_inflight_def remove_inflight_def)
  show "m \<in> set (items (q_inflight q))" using m by simp
qed

lemma extend_hold:
  assumes "hold H q" and "p \<in> set (items (q_inflight q))"
  shows "\<exists>q'. fix_inflight (set_msg q p (\<lambda>m. m\<lparr>LeaseExpiry := t\<rparr>)) p = Some q' \<and> hold H q' \<and>
    val q' = (val q)(p := (val q p)\<lparr>LeaseExpiry := t\<rparr>) \<and>
    rest q' = rest q \<and> q_ready q' = q_ready q \<and> q_delayed q' = q_delayed q \<and> q_dlq q' = q_dlq q \<and>
    mset (items (q_inflight q')) = mset (items (q_inflight q))"
proof -
  let ?N = "(q_mem q)(p := (q_mem q p)\<lparr>LeaseExpiry := t\<rparr>)"
  let ?h = "q_inflight q"
  have hi: "heap_inv (q_mem q) ?h" "less ?h = byLeaseExpiry" using assms by (simp_all add: hold_def)
  obtain M' h' where fx: "heap_Fix ?N ?h (index (q_mem q p)) = Some (M', h')" and fd: "fixed ?N ?h M' h'"
    using lease_order.heap_Fix_fixed [OF hi assms(2) refl, of "(q_mem q p)\<lparr>LeaseExpiry := t\<rparr>"] by auto
  let ?q = "q\<lparr>q_mem := M', q_inflight := h'\<rparr>"
  have "strip (M' r) = strip (?N r)" for r using fd by (simp add: fixed_def same_msgs_def)
  then have v: "val ?q = (val q)(p := (val q p)\<lparr>LeaseExpiry := t\<rparr>)" by (auto simp: val_def)
  have ms: "mset (items h') = mset (items ?h)" using fd by (simp add: fixed_def)
  have out: "M' r = q_mem q r" if "r \<notin> set (items ?h)" for r
    using fd assms(2) that by (auto simp: fixed_def)
  have "heap_inv M' g" if "heap_inv (q_mem q) g" "set (items g) \<inter> set (items ?h) = {}" for g
    using that out by (intro heap_inv_frame [OF that(1)]) auto
  then have "heap_inv M' (q_ready q)" "heap_inv M' (q_delayed q)"
    using hold_heaps [OF assms(1)] hold_disjoint [OF assms(1)] by simp_all
  moreover have "refs q = refs ?q" using ms by (simp add: refs_def)
  ultimately have "hold H ?q" using assms(1) fd by (simp add: hold_def fixed_def)
  then show ?thesis using fx v ms by (intro exI [of _ ?q]) (simp add: fix_inflight_def set_msg_def rest_def)
qed

section \<open>The lease table\<close>

lemma val_sel:
  "ID (q_mem q p) = ID (val q p)" "Attempts (q_mem q p) = Attempts (val q p)"
  "Receipt (q_mem q p) = Receipt (val q p)" "LeaseExpiry (q_mem q p) = LeaseExpiry (val q p)"
  "VisibleAt (q_mem q p) = VisibleAt (val q p)" "Ready (q_mem q p) now = Ready (val q p) now"
  by (simp_all add: val_def)

lemma lease_ok_cong:
  assumes "q_leases q' = q_leases q" and "set (items (q_inflight q')) = set (items (q_inflight q))"
    and "\<forall>p \<in> set (items (q_inflight q)). Receipt (val q' p) = Receipt (val q p)" and "lease_ok q"
  shows "lease_ok q'"
  using assms unfolding lease_ok_def val_sel by metis

lemma apart_drop: "apart (add_mset p R) n \<Longrightarrow> apart R n"
  by (simp add: apart_def) (metis Suc_leD)

lemma hold_drop: "hold (p # H) q \<Longrightarrow> hold H q"
  using apart_drop [of p "refs q + mset H"] by (simp add: hold_def)

lemma hold_dlq:
  assumes "hold (p # H) q"
  shows "hold H (q\<lparr>q_dlq := q_dlq q @ [p]\<rparr>)"
    and "abs (q\<lparr>q_dlq := q_dlq q @ [p]\<rparr>) = (abs q)\<lparr>a_dlq := a_dlq (abs q) @ [val q p]\<rparr>"
  using assms by (simp_all add: hold_def refs_def abs_def)

text \<open>Taking a leased message out of circulation: the common beginning of expiry and \<open>Nack\<close>.\<close>

definition released :: "msg \<Rightarrow> msg" where
  "released m = m\<lparr>Receipt := '''', LeaseExpiry := zero_time\<rparr>"

lemma release_spec:
  assumes inv: "qinv q" and m: "m \<in> set (items (q_inflight q))"
  shows "\<exists>q1. remove_inflight q m = Some q1 \<and> hold [m] q1 \<and> rest q1 = rest q \<and> val q1 = val q \<and>
    q_ready q1 = q_ready q \<and> q_delayed q1 = q_delayed q \<and> q_dlq q1 = q_dlq q \<and>
    abs q = (abs q1)\<lparr>a_inflight := add_mset (val q m) (a_inflight (abs q1))\<rparr> \<and>
    lease_ok (q1\<lparr>q_leases := (q_leases q)(Receipt (val q m) := None)\<rparr>)"
proof -
  obtain q1 where q1: "remove_inflight q m = Some q1" "hold [m] q1" "val q1 = val q" "rest q1 = rest q"
    "set (items (q_inflight q)) = insert m (set (items (q_inflight q1)))"
    "abs q = (abs q1)\<lparr>a_inflight := add_mset (val q m) (a_inflight (abs q1))\<rparr>"
    "q_ready q1 = q_ready q" "q_delayed q1 = q_delayed q" "q_dlq q1 = q_dlq q"
    using remove_inflight_hold [OF _ m, of "[]"] inv by (auto simp: qinv_def)
  have "lease_ok (q1\<lparr>q_leases := (q_leases q)(Receipt (val q m) := None)\<rparr>)"
    using inv q1(3,5) unfolding lease_ok_def qinv_def val_sel by (auto split: if_splits)
  then show ?thesis using q1 by blast
qed

section \<open>Retrying and the two clocks, abstractly\<close>

definition dead :: "Config \<Rightarrow> msg \<Rightarrow> bool" where
  "dead cfg m \<longleftrightarrow> MaxAttempts cfg > 0 \<and> Attempts m \<ge> MaxAttempts cfg"

text \<open>Filing a message by its delay gate.\<close>

definition gate :: "gotime \<Rightarrow> msg \<Rightarrow> aqueue \<Rightarrow> aqueue" where
  "gate now m A =
     (if Ready m now then A\<lparr>a_ready := add_mset m (a_ready A)\<rparr>
      else A\<lparr>a_delayed := add_mset m (a_delayed A)\<rparr>)"

text \<open>
  Retrying: dead letter or file again. \<open>ok\<close> says whether the log took the record. Without
  the log a dead letter is made visible again, any other message is dropped from memory.
\<close>

definition retry_spec :: "Config \<Rightarrow> gotime \<Rightarrow> duration \<Rightarrow> bool \<Rightarrow> msg \<Rightarrow> aqueue \<Rightarrow> aqueue" where
  "retry_spec cfg now delay ok m A =
     (if dead cfg m
      then (if ok then A\<lparr>a_dlq := a_dlq A @ [m]\<rparr> else gate now (m\<lparr>VisibleAt := now\<rparr>) A)
      else if ok then gate now (m\<lparr>VisibleAt := now + delay\<rparr>) A
      else A)"

text \<open>The record that makes a retry durable.\<close>

definition retry_rec :: "Config \<Rightarrow> gotime \<Rightarrow> duration \<Rightarrow> msg \<Rightarrow> wal_record" where
  "retry_rec cfg now delay m =
     (if dead cfg m then zero_record\<lparr>rOp := OpDLQ, rQueue := Name cfg, rID := ID m\<rparr>
      else zero_record\<lparr>rOp := OpNack, rQueue := Name cfg, rID := ID m,
        rMsg := Some (m\<lparr>VisibleAt := now + delay\<rparr>)\<rparr>)"

definition logged :: "bool \<Rightarrow> wal_record \<Rightarrow> wal_record list" where
  "logged ok r = (if ok then [r] else [])"

lemma placeLocked_gate:
  assumes "hold (p # H) q"
  shows "abs (placeLocked q p now) = gate now (val q p) (abs q)"
  using placeLocked_hold(3) [OF assms] by (simp add: gate_def val_sel)

lemma retryLocked_spec:
  assumes h: "hold (p # H) q" and eq: "retryLocked q w W p now delay = (q', w', W', r)"
  shows "hold H q'" and "abs q' = retry_spec (q_cfg q) now delay (\<not> isl r) (val q p) (abs q)"
    and "\<forall>x. x \<noteq> p \<longrightarrow> val q' x = val q x" and "rest q' = rest q"
    and "grew (w, W) (logged (\<not> isl r) (retry_rec (q_cfg q) now delay (val q p))) (w', W')"
    and "good_log w W \<Longrightarrow> isl r \<Longrightarrow> \<not> encodable (json W) (retry_rec (q_cfg q) now delay (val q p))"
    and "w_failed w \<noteq> None \<Longrightarrow> isl r"
proof -
  let ?s = "\<lambda>t. set_msg q p (\<lambda>m. m\<lparr>VisibleAt := t\<rparr>)"
  have s: "hold (p # H) (?s t)" "abs (?s t) = abs q"
    "val (?s t) = (val q)(p := (val q p)\<lparr>VisibleAt := t\<rparr>)" for t
    using set_msg_hold [OF h, of p] by (simp_all add: val_def)
  note pl = placeLocked_hold [OF s(1)] placeLocked_gate [OF s(1)]
  have ne: "rest (q\<lparr>q_dlq := x\<rparr>) = rest q" for x by (simp add: rest_def)
  have dd: "dead (q_cfg q) (val q p) \<longleftrightarrow>
      MaxAttempts (q_cfg q) > 0 \<and> Attempts (q_mem q p) \<ge> MaxAttempts (q_cfg q)"
    by (simp add: dead_def val_sel)
  obtain rec where ap: "AppendSync w W rec = (w', W', r)" and ra: "rAt rec = 0"
    and nr: "norm rec = norm (retry_rec (q_cfg q) now delay (val q p))"
    using eq dd
    by (auto simp: retryLocked_def retry_rec_def q_record_def Let_def norm_def wire_def val_def zero_record_def
        split: if_splits prod.splits sum.splits)
  then show "grew (w, W) (logged (\<not> isl r) (retry_rec (q_cfg q) now delay (val q p))) (w', W')"
    using AppendSync_grew [OF ap] grew_norm [of "[rec]" "[retry_rec (q_cfg q) now delay (val q p)]"]
    by (auto simp: logged_def)
  show "good_log w W \<Longrightarrow> isl r \<Longrightarrow> \<not> encodable (json W) (retry_rec (q_cfg q) now delay (val q p))"
    using AppendSync_good [of w W rec] ap ra encodable_norm [OF nr] by auto
  show "w_failed w \<noteq> None \<Longrightarrow> isl r"
    using wal_write_refused ap by (fastforce simp: AppendSync_def)
  show "hold H q'" "abs q' = retry_spec (q_cfg q) now delay (\<not> isl r) (val q p) (abs q)"
    "\<forall>x. x \<noteq> p \<longrightarrow> val q' x = val q x" "rest q' = rest q"
    using eq h pl s hold_drop [OF s(1)] hold_dlq [OF h] ne
    by (auto simp: retryLocked_def retry_spec_def dd Let_def split: if_splits prod.splits sum.splits)
qed

lemma retryLocked_lease_ok:
  assumes h: "hold (p # H) q" and eq: "retryLocked q w W p now delay = (q', w', W', r)" and "lease_ok q"
  shows "lease_ok q'"
proof -
  have "p \<notin> set (items (q_inflight q))" using hold_apart(4) [OF h, of p] by simp
  then have "val q' x = val q x" if "x \<in> set (items (q_inflight q))" for x
    using retryLocked_spec(3) [OF h eq] that by metis
  then show ?thesis
    using retryLocked_frame [OF eq] assms(3) by (intro lease_ok_cong [of q' q]) simp_all
qed

lemma filter_mset_all: "(\<And>x. x \<in># A \<Longrightarrow> P x) \<Longrightarrow> filter_mset P A = A"
  by (simp add: filter_mset_eq_conv)

lemma abs_in:
  "x \<in># a_ready (abs q) \<longleftrightarrow> (\<exists>r \<in> set (items (q_ready q)). x = val q r)"
  "x \<in># a_delayed (abs q) \<longleftrightarrow> (\<exists>r \<in> set (items (q_delayed q)). x = val q r)"
  "x \<in># a_inflight (abs q) \<longleftrightarrow> (\<exists>r \<in> set (items (q_inflight q)). x = val q r)"
  by (auto simp: abs_def)

text \<open>The delay gate: exactly the messages that are due move to ready.\<close>

lemma promote_spec:
  "hold [] q \<Longrightarrow> \<exists>q' woke'. promote q now woke = Some (q', woke') \<and> hold [] q' \<and> val q' = val q \<and>
     rest q' = rest q \<and> q_inflight q' = q_inflight q \<and> q_dlq q' = q_dlq q \<and>
     a_ready (abs q') = a_ready (abs q) + filter_mset (\<lambda>m. Ready m now) (a_delayed (abs q)) \<and>
     a_delayed (abs q') = filter_mset (\<lambda>m. \<not> Ready m now) (a_delayed (abs q)) \<and>
     (woke' \<longleftrightarrow> woke \<or> filter_mset (\<lambda>m. Ready m now) (a_delayed (abs q)) \<noteq> {#})"
proof (induction q now woke rule: promote.induct)
  case (1 q now woke)
  show ?case
  proof (cases "peek (q_delayed q)")
    case None
    then have "a_delayed (abs q) = {#}" by (simp add: peek_def abs_def split: if_splits)
    then show ?thesis using None "1.prems" by (simp add: promote.simps)
  next
    case (Some m)
    show ?thesis
    proof (cases "Ready (q_mem q m) now")
      case False
      have "\<not> Ready x now" if x: "x \<in># a_delayed (abs q)" for x
      proof -
        obtain r where r: "r \<in> set (items (q_delayed q))" "x = val q r" using x abs_in(2) by blast
        then have "\<not> byVisibleAt (q_mem q r) (q_mem q m)"
          using delay_order.peek_least [OF _ _ Some] "1.prems" by (simp add: hold_def)
        then show ?thesis using False r by (simp add: byVisibleAt_def Ready_def val_def)
      qed
      then have "filter_mset (\<lambda>m. Ready m now) (a_delayed (abs q)) = {#}"
        "filter_mset (\<lambda>m. \<not> Ready m now) (a_delayed (abs q)) = a_delayed (abs q)"
        by (simp_all add: filter_mset_all)
      then show ?thesis using False Some "1.prems" by (simp add: promote.simps)
    next
      case True
      obtain q1 where q1: "pop_delayed q = Some q1" "hold [m] q1" "val q1 = val q" "rest q1 = rest q"
        "abs q = (abs q1)\<lparr>a_delayed := add_mset (val q m) (a_delayed (abs q1))\<rparr>"
        "q_inflight q1 = q_inflight q" "q_dlq q1 = q_dlq q"
        using pop_delayed_hold [OF "1.prems" Some] by auto
      note pr = push_ready_hold [OF q1(2)]
      have "promote q now woke = promote (push_ready q1 m) now True"
        using Some True q1(1) by (subst promote.simps) simp
      moreover have "Ready (val q m) now" using True by (simp add: val_sel)
      moreover note "1.IH" [OF Some _ q1(1) pr(1)] True
      ultimately show ?thesis using pr(2,3) q1 by auto
    qed
  qed
qed

lemma gate_inflight [simp]:
  "a_inflight (gate now m A) = a_inflight A" "gate now m (A\<lparr>a_inflight := X\<rparr>) = (gate now m A)\<lparr>a_inflight := X\<rparr>"
  "a_dlq (gate now m A) = a_dlq A"
  by (simp_all add: gate_def)

lemma retry_spec_inflight [simp]:
  "a_inflight (retry_spec cfg now d ok m A) = a_inflight A"
  "retry_spec cfg now d ok m (A\<lparr>a_inflight := X\<rparr>) = (retry_spec cfg now d ok m A)\<lparr>a_inflight := X\<rparr>"
  by (simp_all add: retry_spec_def)

text \<open>
  Lease reclamation: exactly the messages whose lease has run out leave the inflight heap,
  in the order of their expiry, each released and retried without delay. An error of the
  log on the way is latched.
\<close>

definition reclaim_recs :: "Config \<Rightarrow> gotime \<Rightarrow> (msg \<times> bool) list \<Rightarrow> wal_record list" where
  "reclaim_recs cfg now xs = concat (map (\<lambda>(m, ok). logged ok (retry_rec cfg now 0 (released m))) xs)"

text \<open>On a working disk only a record that cannot be encoded is refused.\<close>

definition unwritten :: "Config \<Rightarrow> wal \<Rightarrow> world \<Rightarrow> gotime \<Rightarrow> (msg \<times> bool) list \<Rightarrow> bool" where
  "unwritten cfg w W now xs \<longleftrightarrow>
     (good_log w W \<longrightarrow>
        (\<forall>x \<in> set xs. \<not> snd x \<longrightarrow> \<not> encodable (json W) (retry_rec cfg now 0 (released (fst x)))))"

definition reclaim_run :: "shared \<Rightarrow> gotime \<Rightarrow> (msg \<times> bool) list \<Rightarrow> shared \<Rightarrow> bool" where
  "reclaim_run s now xs s' \<longleftrightarrow> (case s of (q, w, W) \<Rightarrow> case s' of (q', w', W') \<Rightarrow>
     mset (map fst xs) = filter_mset (\<lambda>m. LeaseExpiry m \<le> now) (a_inflight (abs q)) \<and>
     sorted (map (LeaseExpiry \<circ> fst) xs) \<and>
     abs q' = fold (\<lambda>(m, ok). retry_spec (q_cfg q) now 0 ok (released m)) xs
       ((abs q)\<lparr>a_inflight := filter_mset (\<lambda>m. \<not> LeaseExpiry m \<le> now) (a_inflight (abs q))\<rparr>) \<and>
     (q_walErr q' = None \<longrightarrow> q_walErr q = None \<and> (\<forall>x \<in> set xs. snd x)) \<and>
     q_cfg q' = q_cfg q \<and> q_next q' = q_next q \<and> q_seq q' = q_seq q \<and> q_wake q' = q_wake q \<and>
     q_expired q' = q_expired q + of_nat (length xs) \<and>
     unwritten (q_cfg q) w W now xs \<and> ((\<forall>x \<in> set xs. snd x) \<longrightarrow> q_walErr q' = q_walErr q) \<and>
     grew (w, W) (reclaim_recs (q_cfg q) now xs) (w', W'))"

lemma reclaim_stop:
  assumes "hold [] q" and "peek (q_inflight q) = None \<or> (\<exists>m. peek (q_inflight q) = Some m \<and> LeaseExpiry (q_mem q m) > now)"
  shows "reclaim_run (q, w, W) now [] (q, w, W)" and "reclaim q w W now woke = Some (q, w, W, woke)"
proof -
  have "\<not> LeaseExpiry x \<le> now" if x: "x \<in># a_inflight (abs q)" for x
  proof -
    obtain r where r: "r \<in> set (items (q_inflight q))" "x = val q r" using x abs_in(3) by blast
    then obtain m where m: "peek (q_inflight q) = Some m" "LeaseExpiry (q_mem q m) > now"
      using assms(2) by (auto simp: peek_def split: if_splits)
    then have "\<not> byLeaseExpiry (q_mem q r) (q_mem q m)"
      using lease_order.peek_least [OF _ _ m(1) r(1)] assms(1) by (simp add: hold_def)
    then show ?thesis using m(2) r by (simp add: byLeaseExpiry_def val_def)
  qed
  then have "filter_mset (\<lambda>m. LeaseExpiry m \<le> now) (a_inflight (abs q)) = {#}"
    "filter_mset (\<lambda>m. \<not> LeaseExpiry m \<le> now) (a_inflight (abs q)) = a_inflight (abs q)"
    by (simp_all add: filter_mset_all)
  then show "reclaim_run (q, w, W) now [] (q, w, W)" by (simp add: reclaim_run_def reclaim_recs_def unwritten_def)
  show "reclaim q w W now woke = Some (q, w, W, woke)"
    using assms(2) by (subst reclaim.simps) auto
qed

text \<open>One round of the loop.\<close>

definition latch :: "queue \<Rightarrow> unit result \<Rightarrow> queue" where
  "latch q r = (case r of
      Inl e \<Rightarrow> (if q_walErr q = None then q\<lparr>q_walErr := Some e\<rparr> else q) | Inr _ \<Rightarrow> q)"

lemma latch_simps [simp]:
  "hold H (latch q r) = hold H q" "lease_ok (latch q r) = lease_ok q" "abs (latch q r) = abs q"
  "q_walErr (latch q r) = None \<longleftrightarrow> q_walErr q = None \<and> \<not> isl r" "q_cfg (latch q r) = q_cfg q"
  "q_next (latch q r) = q_next q" "q_seq (latch q r) = q_seq q" "q_wake (latch q r) = q_wake q"
  "q_expired (latch q r) = q_expired q" "val (latch q r) = val q" "q_inflight (latch q r) = q_inflight q"
  "q_leases (latch q r) = q_leases q"
  by (auto simp: latch_def split: sum.split)

lemma reclaim_round:
  assumes inv: "qinv q" and pk: "peek (q_inflight q) = Some m" and le: "\<not> LeaseExpiry (q_mem q m) > now"
  shows "\<exists>q5 w1 W1 r. reclaim q w W now woke = reclaim (latch q5 r) w1 W1 now True \<and> qinv (latch q5 r) \<and>
    (\<exists>A. abs q = A\<lparr>a_inflight := add_mset (val q m) (a_inflight A)\<rparr> \<and>
      abs q5 = retry_spec (q_cfg q) now 0 (\<not> isl r) (released (val q m)) A) \<and>
    q_cfg q5 = q_cfg q \<and> q_walErr q5 = q_walErr q \<and> q_next q5 = q_next q \<and> q_seq q5 = q_seq q \<and>
    q_wake q5 = q_wake q \<and> q_expired q5 = q_expired q + 1 \<and>
    unwritten (q_cfg q) w W now [(val q m, \<not> isl r)] \<and>
    grew (w, W) (logged (\<not> isl r) (retry_rec (q_cfg q) now 0 (released (val q m)))) (w1, W1)"
proof -
  have h: "hold [] q" using inv by (simp add: qinv_def)
  note pm = pop_inflight_remove [OF h pk]
  obtain q1 where q1: "remove_inflight q m = Some q1" "hold [m] q1" "rest q1 = rest q" "val q1 = val q"
    "abs q = (abs q1)\<lparr>a_inflight := add_mset (val q m) (a_inflight (abs q1))\<rparr>"
    "lease_ok (q1\<lparr>q_leases := (q_leases q)(Receipt (val q m) := None)\<rparr>)"
    using release_spec [OF inv pm(2)] by blast
  define q2 where "q2 = q1\<lparr>q_leases := (q_leases q1)(Receipt (q_mem q1 m) := None)\<rparr>"
  define q3 where "q3 = set_msg q2 m (\<lambda>x. x\<lparr>Receipt := '''', LeaseExpiry := zero_time\<rparr>)"
  define q4 where "q4 = q3\<lparr>q_expired := q_expired q3 + 1\<rparr>"
  obtain q5 w1 W1 r where rt: "retryLocked q4 w W m now 0 = (q5, w1, W1, r)" by (metis prod_cases4)
  have rs: "q_leases q1 = q_leases q" "q_cfg q1 = q_cfg q" "q_next q1 = q_next q" "q_seq q1 = q_seq q"
    "q_wake q1 = q_wake q" "q_expired q1 = q_expired q" "q_walErr q1 = q_walErr q" using rest_sel [OF q1(3)] by auto
  have h2: "hold [m] q2" "lease_ok q2" "abs q2 = abs q1" "val q2 = val q"
    using q1 rs by (simp_all add: q2_def val_sel)
  have "strip (q_mem q2 m) = val q m" using h2(4) by (metis val_def)
  then have s: "hold [m] q3" "abs q3 = abs q1" "val q3 = (val q)(m := released (val q m))"
    using set_msg_hold [OF h2(1), of m] h2 by (simp_all add: q3_def released_def)
  have "m \<notin> set (items (q_inflight q2))" using hold_apart(4) [OF h2(1), of m] by simp
  then have "lease_ok q3" using h2(2,4) s(3) by (intro lease_ok_cong [of q3 q2]) (auto simp: q3_def)
  then have h4: "hold [m] q4" "lease_ok q4" "val q4 m = released (val q m)" "abs q4 = abs q1"
    "rest q4 = rest (q2\<lparr>q_expired := q_expired q2 + 1\<rparr>)"
    using s by (simp_all add: q4_def q3_def rest_def set_msg_def)
  note sp = retryLocked_spec [OF h4(1) rt]
  have "qinv (latch q5 r)"
    using sp(1) retryLocked_lease_ok [OF h4(1) rt h4(2)] by (simp add: qinv_def)
  moreover have "q_cfg q5 = q_cfg q \<and> q_walErr q5 = q_walErr q \<and> q_next q5 = q_next q \<and> q_seq q5 = q_seq q \<and>
      q_wake q5 = q_wake q \<and> q_expired q5 = q_expired q + 1"
    using rest_sel [OF sp(4)] rest_sel [OF h4(5)] rs by (simp add: q2_def)
  moreover have "abs q5 = retry_spec (q_cfg q) now 0 (\<not> isl r) (released (val q m)) (abs q1)"
    "grew (w, W) (logged (\<not> isl r) (retry_rec (q_cfg q) now 0 (released (val q m)))) (w1, W1)"
    "unwritten (q_cfg q) w W now [(val q m, \<not> isl r)]"
    using sp(2,5,6) h4 rest_sel [OF h4(5)] rs by (simp_all add: q2_def unwritten_def)
  moreover have "reclaim q w W now woke = reclaim (latch q5 r) w1 W1 now True"
    using pk le pm(1) q1(1) rt
    by (subst reclaim.simps) (simp add: Let_def q2_def q3_def q4_def latch_def)
  ultimately show ?thesis using q1(5) by blast
qed

lemma reclaim_run_Cons:
  assumes h: "hold [] q" and m: "peek (q_inflight q) = Some m" "\<not> LeaseExpiry (q_mem q m) > now"
    and A: "abs q = A\<lparr>a_inflight := add_mset (val q m) (a_inflight A)\<rparr>"
    and q5: "abs q5 = retry_spec (q_cfg q) now 0 (\<not> isl r) (released (val q m)) A"
      "q_cfg q5 = q_cfg q" "q_walErr q5 = q_walErr q" "q_next q5 = q_next q" "q_seq q5 = q_seq q"
      "q_wake q5 = q_wake q" "q_expired q5 = q_expired q + 1"
      "grew (w, W) (logged (\<not> isl r) (retry_rec (q_cfg q) now 0 (released (val q m)))) (w1, W1)"
      "unwritten (q_cfg q) w W now [(val q m, \<not> isl r)]"
    and run: "reclaim_run (latch q5 r, w1, W1) now xs (q', w', W')"
  shows "reclaim_run (q, w, W) now ((val q m, \<not> isl r) # xs) (q', w', W')"
proof -
  have rf: "abs q' = fold (\<lambda>(m, ok). retry_spec (q_cfg q5) now 0 ok (released m)) xs
      ((abs q5)\<lparr>a_inflight := filter_mset (\<lambda>m. \<not> LeaseExpiry m \<le> now) (a_inflight (abs q5))\<rparr>)"
    "q_cfg q' = q_cfg q5" "q_next q' = q_next q5" "q_seq q' = q_seq q5" "q_wake q' = q_wake q5"
    "q_expired q' = q_expired q5 + of_nat (length xs)"
    using run unfolding reclaim_run_def prod.case latch_simps by blast+
  have lm: "LeaseExpiry (val q m) \<le> now" using m(2) by (simp add: val_sel)
  have least: "LeaseExpiry (val q m) \<le> LeaseExpiry x" if x: "x \<in># a_inflight A" for x
  proof -
    have "x \<in># a_inflight (abs q)" using x A by simp
    then obtain p where p: "p \<in> set (items (q_inflight q))" "x = val q p" using abs_in(3) by blast
    then show ?thesis
      using lease_order.peek_least [OF _ _ m(1) p(1), of "q_mem q"] h
      by (simp add: hold_def byLeaseExpiry_def val_def)
  qed
  have ms: "mset (map fst xs) = filter_mset (\<lambda>m. LeaseExpiry m \<le> now) (a_inflight A)"
    using run q5(1) by (simp add: reclaim_run_def)
  have "fst x \<in># a_inflight A" if "x \<in> set xs" for x
  proof -
    have "fst x \<in># mset (map fst xs)" using that by simp
    then show ?thesis unfolding ms by simp
  qed
  then have "sorted (map (LeaseExpiry \<circ> fst) ((val q m, \<not> isl r) # xs))"
    using run least by (auto simp: reclaim_run_def)
  moreover have "grew (w, W) (reclaim_recs (q_cfg q) now ((val q m, \<not> isl r) # xs)) (w', W')"
    using grew_trans [OF q5(8)] run q5(2) by (simp add: reclaim_run_def reclaim_recs_def)
  moreover have "unwritten (q_cfg q) w W now ((val q m, \<not> isl r) # xs)"
  proof -
    have "unwritten (q_cfg (latch q5 r)) w1 W1 now xs"
      using run unfolding reclaim_run_def prod.case by blast
    moreover have "good_log w W \<longrightarrow> good_log w1 W1" "json W1 = json W"
      using q5(8) by (simp_all add: grew_def same_env_def)
    ultimately show ?thesis using q5(2,9) by (auto simp: unwritten_def)
  qed
  moreover have "(\<forall>x \<in> set ((val q m, \<not> isl r) # xs). snd x) \<longrightarrow> q_walErr q' = q_walErr q"
  proof -
    have "(\<forall>x \<in> set xs. snd x) \<longrightarrow> q_walErr q' = q_walErr (latch q5 r)"
      using run unfolding reclaim_run_def prod.case by blast
    moreover have "\<not> isl r \<Longrightarrow> q_walErr (latch q5 r) = q_walErr q5" by (cases r) (simp_all add: latch_def)
    ultimately show ?thesis using q5(3) by simp
  qed
  moreover have "q_walErr q' = None \<longrightarrow> q_walErr q = None \<and> (\<forall>x \<in> set ((val q m, \<not> isl r) # xs). snd x)"
  proof -
    have "q_walErr q' = None \<longrightarrow> q_walErr (latch q5 r) = None \<and> (\<forall>x \<in> set xs. snd x)"
      using run unfolding reclaim_run_def prod.case by blast
    then show ?thesis using q5(3) by auto
  qed
  moreover have "mset (map fst ((val q m, \<not> isl r) # xs)) = filter_mset (\<lambda>m. LeaseExpiry m \<le> now) (a_inflight (abs q))"
    using A ms lm by simp
  moreover have "abs q' = fold (\<lambda>(m, ok). retry_spec (q_cfg q) now 0 ok (released m)) ((val q m, \<not> isl r) # xs)
      ((abs q)\<lparr>a_inflight := filter_mset (\<lambda>m. \<not> LeaseExpiry m \<le> now) (a_inflight (abs q))\<rparr>)"
    "q_cfg q' = q_cfg q \<and> q_next q' = q_next q \<and> q_seq q' = q_seq q \<and> q_wake q' = q_wake q \<and>
     q_expired q' = q_expired q + of_nat (length ((val q m, \<not> isl r) # xs))"
    using rf A q5(1-7) lm by simp_all
  ultimately show ?thesis unfolding reclaim_run_def prod.case by blast
qed

lemma reclaim_spec:
  "qinv q \<Longrightarrow> \<exists>q' w' W' xs. reclaim q w W now woke = Some (q', w', W', woke \<or> xs \<noteq> []) \<and> qinv q' \<and>
     reclaim_run (q, w, W) now xs (q', w', W')"
proof (induction "length (items (q_inflight q))" arbitrary: q w W woke rule: less_induct)
  case less
  have h: "hold [] q" using less.prems by (simp add: qinv_def)
  show ?case
  proof (cases "\<exists>m. peek (q_inflight q) = Some m \<and> \<not> LeaseExpiry (q_mem q m) > now")
    case False
    then have "peek (q_inflight q) = None \<or>
        (\<exists>m. peek (q_inflight q) = Some m \<and> LeaseExpiry (q_mem q m) > now)"
      by (cases "peek (q_inflight q)") auto
    note rs = reclaim_stop [OF h this]
    show ?thesis using rs(1) [of w W] rs(2) [of w W woke] less.prems
      by (intro exI [of _ q] exI [of _ w] exI [of _ W] exI [of _ "[]"]) simp
  next
    case True
    then obtain m where m: "peek (q_inflight q) = Some m" "\<not> LeaseExpiry (q_mem q m) > now" by blast
    obtain q5 w1 W1 r A where st: "reclaim q w W now woke = reclaim (latch q5 r) w1 W1 now True"
      "qinv (latch q5 r)" "abs q = A\<lparr>a_inflight := add_mset (val q m) (a_inflight A)\<rparr>"
      "abs q5 = retry_spec (q_cfg q) now 0 (\<not> isl r) (released (val q m)) A"
      "q_cfg q5 = q_cfg q" "q_walErr q5 = q_walErr q" "q_next q5 = q_next q" "q_seq q5 = q_seq q"
      "q_wake q5 = q_wake q" "q_expired q5 = q_expired q + 1"
      "grew (w, W) (logged (\<not> isl r) (retry_rec (q_cfg q) now 0 (released (val q m)))) (w1, W1)"
      "unwritten (q_cfg q) w W now [(val q m, \<not> isl r)]"
      using reclaim_round [OF less.prems m, of w W woke] by blast
    have sz: "length (items (q_inflight q)) = size (a_inflight (abs q))" for q by (simp add: abs_def)
    have "length (items (q_inflight (latch q5 r))) < length (items (q_inflight q))"
      unfolding sz using st(3,4) by simp
    from less.hyps [OF this st(2), of w1 W1 True] obtain q' w' W' xs
      where IH: "reclaim (latch q5 r) w1 W1 now True = Some (q', w', W', True)" "qinv q'"
        "reclaim_run (latch q5 r, w1, W1) now xs (q', w', W')" by auto
    show ?thesis
      using IH(1,2) st(1) reclaim_run_Cons [OF h m st(3-12) IH(3)]
      by (intro exI [of _ q'] exI [of _ w'] exI [of _ W'] exI [of _ "(val q m, \<not> isl r) # xs"]) simp
  qed
qed

text \<open>Both clocks: the transition \<open>advance\<close> of the abstract queue.\<close>

definition advance :: "Config \<Rightarrow> gotime \<Rightarrow> (msg \<times> bool) list \<Rightarrow> aqueue \<Rightarrow> aqueue" where
  "advance cfg now xs A =
     fold (\<lambda>(m, ok). retry_spec cfg now 0 ok (released m)) xs
       (A\<lparr>a_ready := a_ready A + filter_mset (\<lambda>m. Ready m now) (a_delayed A),
          a_delayed := filter_mset (\<lambda>m. \<not> Ready m now) (a_delayed A),
          a_inflight := filter_mset (\<lambda>m. \<not> LeaseExpiry m \<le> now) (a_inflight A)\<rparr>)"

definition advance_run :: "shared \<Rightarrow> gotime \<Rightarrow> (msg \<times> bool) list \<Rightarrow> shared \<Rightarrow> bool" where
  "advance_run s now xs s' \<longleftrightarrow> (case s of (q, w, W) \<Rightarrow> case s' of (q', w', W') \<Rightarrow>
     qinv q' \<and> mset (map fst xs) = filter_mset (\<lambda>m. LeaseExpiry m \<le> now) (a_inflight (abs q)) \<and>
     sorted (map (LeaseExpiry \<circ> fst) xs) \<and> abs q' = advance (q_cfg q) now xs (abs q) \<and>
     (q_walErr q' = None \<longrightarrow> q_walErr q = None \<and> (\<forall>x \<in> set xs. snd x)) \<and>
     q_cfg q' = q_cfg q \<and> q_next q' = q_next q \<and> q_seq q' = q_seq q \<and>
     q_expired q' = q_expired q + of_nat (length xs) \<and>
     q_wake q' = (if xs = [] \<and> filter_mset (\<lambda>m. Ready m now) (a_delayed (abs q)) = {#}
                  then q_wake q else Suc (q_wake q)) \<and>
     unwritten (q_cfg q) w W now xs \<and> ((\<forall>x \<in> set xs. snd x) \<longrightarrow> q_walErr q' = q_walErr q) \<and>
     grew (w, W) (reclaim_recs (q_cfg q) now xs) (w', W'))"

lemma promote_lease_ok:
  assumes "val q' = val q" and "rest q' = rest q" and "q_inflight q' = q_inflight q" and "lease_ok q"
  shows "lease_ok q'"
  using assms rest_sel [OF assms(2)] by (intro lease_ok_cong [of q' q]) auto

lemma advanceLocked_spec:
  assumes "qinv q"
  shows "\<exists>q' w' W' xs. advanceLocked q w W now = Some (q', w', W') \<and>
    advance_run (q, w, W) now xs (q', w', W')"
proof -
  obtain q1 k where q1: "promote q now False = Some (q1, k)" "hold [] q1" "val q1 = val q" "rest q1 = rest q"
    "q_inflight q1 = q_inflight q" "q_dlq q1 = q_dlq q"
    "a_ready (abs q1) = a_ready (abs q) + filter_mset (\<lambda>m. Ready m now) (a_delayed (abs q))"
    "a_delayed (abs q1) = filter_mset (\<lambda>m. \<not> Ready m now) (a_delayed (abs q))"
    and k: "k \<longleftrightarrow> filter_mset (\<lambda>m. Ready m now) (a_delayed (abs q)) \<noteq> {#}"
    using promote_spec [of q now False] assms unfolding qinv_def by blast
  have "qinv q1" using promote_lease_ok [OF q1(3,4,5)] q1(2) assms by (simp add: qinv_def)
  from reclaim_spec [OF this, of w W now k] obtain q2 w' W' xs where
    rc: "reclaim q1 w W now k = Some (q2, w', W', k \<or> xs \<noteq> [])" "qinv q2" "reclaim_run (q1, w, W) now xs (q2, w', W')" by blast
  have ab: "a_inflight (abs q1) = a_inflight (abs q)" "a_dlq (abs q1) = a_dlq (abs q)"
    using q1(3,5,6) by (simp_all add: abs_def)
  have A: "(abs q1)\<lparr>a_inflight := X\<rparr> =
      (abs q)\<lparr>a_ready := a_ready (abs q) + filter_mset (\<lambda>m. Ready m now) (a_delayed (abs q)),
        a_delayed := filter_mset (\<lambda>m. \<not> Ready m now) (a_delayed (abs q)), a_inflight := X\<rparr>" for X
    using q1(7,8) ab by (cases "abs q1"; cases "abs q") simp
  let ?q = "if k \<or> xs \<noteq> [] then signalLocked q2 else q2"
  have qi: "qinv ?q" "abs ?q = abs q2" "q_cfg ?q = q_cfg q2" "q_next ?q = q_next q2" "q_seq ?q = q_seq q2"
    "q_expired ?q = q_expired q2" "q_walErr ?q = q_walErr q2"
    "q_wake ?q = (if k \<or> xs \<noteq> [] then Suc (q_wake q2) else q_wake q2)"
    using rc(2) by (simp_all add: qinv_def) (simp_all add: signalLocked_def)
  note r = rc(3) [unfolded reclaim_run_def prod.case A ab rest_sel [OF q1(4)]]
  have "q_wake ?q = (if xs = [] \<and> filter_mset (\<lambda>m. Ready m now) (a_delayed (abs q)) = {#}
      then q_wake q else Suc (q_wake q))"
    using r k qi(8) by metis
  then have "advance_run (q, w, W) now xs (?q, w', W')"
    using r qi(1) unfolding advance_run_def advance_def prod.case qi(2-7) by blast
  moreover have "advanceLocked q w W now = Some (?q, w', W')"
    using q1(1) rc(1) by (simp add: advanceLocked_def)
  ultimately show ?thesis by blast
qed

section \<open>Receiving\<close>

lemma hold_perm: "mset H = mset H' \<Longrightarrow> hold H q = hold H' q"
  by (simp add: hold_def)

text \<open>What \<open>pick\<close> takes: the messages at the front of the delivery order, in that order.\<close>

definition front :: "(msg \<Rightarrow> msg \<Rightarrow> bool) \<Rightarrow> nat \<Rightarrow> msg multiset \<Rightarrow> msg list \<Rightarrow> bool" where
  "front lt n A ms \<longleftrightarrow>
     mset ms \<subseteq># A \<and> length ms = min n (size A) \<and> sorted_wrt (\<lambda>a b. \<not> lt b a) ms \<and>
     (\<forall>x \<in># A - mset ms. \<forall>m \<in> set ms. \<not> lt x m)"

lemma front_Cons:
  assumes "front lt n A ms" and "\<forall>x \<in># add_mset m A. \<not> lt x m"
  shows "front lt (Suc n) (add_mset m A) (m # ms)"
  using assms by (auto simp: front_def in_diff_count dest: mset_subset_eqD in_diffD)

lemma pick_spec:
  "hold H q \<Longrightarrow> \<exists>q' ps. pick n q = Some (q', ps) \<and> hold (ps @ H) q' \<and> val q' = val q \<and> rest q' = rest q \<and>
     q_delayed q' = q_delayed q \<and> q_inflight q' = q_inflight q \<and> q_dlq q' = q_dlq q \<and>
     abs q = (abs q')\<lparr>a_ready := mset (map (val q) ps) + a_ready (abs q')\<rparr> \<and>
     front (orderBy (Mode_of (q_cfg q))) n (a_ready (abs q)) (map (val q) ps)"
proof (induction n arbitrary: q H)
  case 0
  then show ?case by (simp add: front_def)
next
  case (Suc n)
  show ?case
  proof (cases "peek (q_ready q)")
    case None
    then have "a_ready (abs q) = {#}" by (simp add: peek_def abs_def split: if_splits)
    then show ?thesis using None Suc.prems by (simp add: front_def)
  next
    case (Some m)
    obtain q1 where q1: "pop_ready q = Some q1" "hold (m # H) q1" "val q1 = val q" "rest q1 = rest q"
      "q_delayed q1 = q_delayed q" "q_inflight q1 = q_inflight q" "q_dlq q1 = q_dlq q"
      "abs q = (abs q1)\<lparr>a_ready := add_mset (val q m) (a_ready (abs q1))\<rparr>"
      using pop_ready_hold [OF Suc.prems Some] by auto
    from Suc.IH [OF q1(2)] obtain q2 ps where q2: "pick n q1 = Some (q2, ps)" "hold (ps @ m # H) q2"
      "val q2 = val q" "rest q2 = rest q" "q_delayed q2 = q_delayed q" "q_inflight q2 = q_inflight q"
      "q_dlq q2 = q_dlq q" "abs q1 = (abs q2)\<lparr>a_ready := mset (map (val q) ps) + a_ready (abs q2)\<rparr>"
      "front (orderBy (Mode_of (q_cfg q))) n (a_ready (abs q1)) (map (val q) ps)"
      using q1(3-7) rest_sel(1) [OF q1(4)] by auto
    have least: "\<not> orderBy (Mode_of (q_cfg q)) x (val q m)" if x: "x \<in># a_ready (abs q)" for x
    proof -
      obtain r where r: "r \<in> set (items (q_ready q))" "x = val q r" using x abs_in(1) by blast
      then show ?thesis
        using ready_order.peek_least [OF _ _ Some r(1), of "q_mem q"] Suc.prems
        by (simp add: hold_def val_def ready_order.lt_strip)
    qed
    have "front (orderBy (Mode_of (q_cfg q))) (Suc n) (a_ready (abs q)) (map (val q) (m # ps))"
      using front_Cons [OF q2(9), of "val q m"] least q1(8) by simp
    moreover have "hold ((m # ps) @ H) q2"
      using q2(2) hold_perm [of "ps @ m # H" "(m # ps) @ H"] by simp
    moreover have "pick (Suc n) q = Some (q2, m # ps)" using Some q1(1) q2(1) by simp
    ultimately show ?thesis using q1(8) q2 by (intro exI [of _ q2] exI [of _ "m # ps"]) simp
  qed
qed

text \<open>What a lease makes of a message.\<close>

definition leased :: "gotime \<Rightarrow> msg \<Rightarrow> string \<Rightarrow> msg" where
  "leased expiry m receipt =
     m\<lparr>Attempts := wrap64 (Attempts m + 1), Receipt := receipt, LeaseExpiry := expiry\<rparr>"

definition lease_rec :: "string \<Rightarrow> msg \<Rightarrow> wal_record" where
  "lease_rec name m = zero_record\<lparr>rOp := OpLease, rQueue := name, rMsg := Some m\<rparr>"

text \<open>
  Logging the leases: the receipts are the next draws of the random source, one record is
  appended per message, and a failure stops after some of them.
\<close>

definition receipts :: "world \<Rightarrow> nat \<Rightarrow> string list" where
  "receipts W n = map (\<lambda>i. EncodeToString (map (rnds W (rnd_i W + i)) [0..<16])) [0..<n]"

lemma receipts_Suc:
  "receipts W (Suc n) = fst (newID W) # receipts (snd (newID W)) n"
  by (simp add: receipts_def newID_def upt_conv_Cons map_Suc_upt [symmetric] del: upt_Suc)

lemma wal_write_rnd: "wal_write w W r d = (w', W', res) \<Longrightarrow> rnd_i W' = rnd_i W \<and> rnds W' = rnds W"
  by (auto simp: wal_write_def stamp_def time_Now_def os_WriteAt_def os_Sync_def draw_def Let_def
      split: prod.splits if_splits sum.splits option.splits io.splits)

lemma log_leases_spec:
  "log_leases q w W t ps = (w', W', res) \<Longrightarrow>
     \<exists>k \<le> length ps. (\<not> isl res \<longleftrightarrow> k = length ps) \<and>
       (\<not> isl res \<longrightarrow> res = Inr (receipts W (length ps))) \<and> rnd_i W' \<ge> rnd_i W + k \<and>
       (good_log w W \<longrightarrow> isl res \<longrightarrow>
          (\<exists>p \<in> set ps. \<exists>r. \<not> encodable (json W) (lease_rec (Name (q_cfg q)) (leased t (val q p) r)))) \<and>
       grew (w, W) (map (lease_rec (Name (q_cfg q)))
         (map2 (leased t) (map (val q) (take k ps)) (receipts W k))) (w', W')"
proof (induction ps arbitrary: w W w' W' res)
  case Nil
  then show ?case by (auto simp: receipts_def)
next
  case (Cons p ps)
  let ?W1 = "snd (newID W)" and ?r = "fst (newID W)"
  let ?rec = "(q_record q OpLease)\<lparr>rMsg := Some ((q_mem q p)\<lparr>Attempts := wrap64 (Attempts (q_mem q p) + 1),
    Receipt := ?r, LeaseExpiry := t\<rparr>)\<rparr>"
  obtain w2 W2 r1 where ap: "Append w ?W1 ?rec = (w2, W2, r1)" by (metis prod_cases3)
  have nr: "norm ?rec = norm (lease_rec (Name (q_cfg q)) (leased t (val q p) ?r))"
    by (simp add: lease_rec_def leased_def q_record_def norm_def wire_def val_def)
  have rn: "rnd_i W2 = Suc (rnd_i W)" "rnds W2 = rnds W" "rnd_i ?W1 = Suc (rnd_i W)" "rnds ?W1 = rnds W"
    using wal_write_rnd [OF ap [unfolded Append_def]] by (simp_all add: newID_def)
  have g0: "grew (w, W) [] (w, ?W1)" by (simp add: newID_def)
  have g1: "grew (w, W) (logged (\<not> isl r1) (lease_rec (Name (q_cfg q)) (leased t (val q p) ?r))) (w2, W2)"
    using grew_trans [OF g0 Append_grew [OF ap]]
      grew_norm [of "[?rec]" "[lease_rec (Name (q_cfg q)) (leased t (val q p) ?r)]"] nr
    by (auto simp: logged_def)
  show ?case
  proof (cases r1)
    case (Inl e)
    then have "w' = w2" "W' = W2" "res = Inl e" using Cons.prems ap by (simp_all add: Let_def split: prod.splits)
    moreover have "good_log w W \<longrightarrow> \<not> encodable (json W) (lease_rec (Name (q_cfg q)) (leased t (val q p) ?r))"
      using Append_good [of w ?W1 ?rec] ap Inl encodable_norm [OF nr] by (auto simp: newID_def q_record_def zero_record_def)
    ultimately show ?thesis using g1 Inl rn by (intro exI [of _ 0]) (auto simp: logged_def receipts_def)
  next
    case (Inr u)
    obtain w3 W3 r3 where rec: "log_leases q w2 W2 t ps = (w3, W3, r3)" by (metis prod_cases3)
    from Cons.IH [OF rec] obtain k where k: "k \<le> length ps" "\<not> isl r3 \<longleftrightarrow> k = length ps"
      "\<not> isl r3 \<longrightarrow> r3 = Inr (receipts W2 (length ps))" "rnd_i W3 \<ge> rnd_i W2 + k"
      "good_log w2 W2 \<longrightarrow> isl r3 \<longrightarrow>
         (\<exists>p \<in> set ps. \<exists>r. \<not> encodable (json W2) (lease_rec (Name (q_cfg q)) (leased t (val q p) r)))"
      "grew (w2, W2) (map (lease_rec (Name (q_cfg q)))
         (map2 (leased t) (map (val q) (take k ps)) (receipts W2 k))) (w3, W3)" by blast
    have rc: "receipts W2 n = receipts ?W1 n" for n using rn by (simp add: receipts_def)
    have eq: "w' = w3" "W' = W3" "res = map_sum id ((#) ?r) r3"
      using Cons.prems ap Inr rec by (cases r3; simp add: Let_def split: prod.splits)+
    have "grew (w, W) (map (lease_rec (Name (q_cfg q)))
        (map2 (leased t) (map (val q) (take (Suc k) (p # ps))) (receipts W (Suc k)))) (w3, W3)"
      using grew_trans [OF g1 k(6)] Inr rc by (simp add: logged_def receipts_Suc)
    moreover have "good_log w W \<longrightarrow> good_log w2 W2" "json W2 = json W" using g1 by (simp_all add: grew_def same_env_def)
    ultimately show ?thesis using k eq rn rc receipts_Suc
      by (intro exI [of _ "Suc k"]) (cases r3; simp)
  qed
qed

end
