(* ===== verification/FQ_Queue_Ops.thy ===== *)
theory FQ_Queue_Ops
  imports FQ_Queue_Inv
begin

text \<open>
  Each public operation of a queue, specified on the abstract queue of \<open>FQ_Queue_Inv\<close>: it
  never panics, it keeps the invariant, and on every branch it makes the transition stated
  here.
\<close>

section \<open>Receive\<close>

lemma push_back_spec:
  "hold (ps @ H) q \<Longrightarrow>
     hold H (fold (\<lambda>p q. push_ready q p) ps q) \<and> val (fold (\<lambda>p q. push_ready q p) ps q) = val q \<and>
     rest (fold (\<lambda>p q. push_ready q p) ps q) = rest q \<and>
     q_inflight (fold (\<lambda>p q. push_ready q p) ps q) = q_inflight q \<and>
     abs (fold (\<lambda>p q. push_ready q p) ps q) =
       (abs q)\<lparr>a_ready := mset (map (val q) ps) + a_ready (abs q)\<rparr>"
proof (induction ps arbitrary: q)
  case (Cons p ps)
  then have "hold (p # ps @ H) q" by simp
  note pr = push_ready_hold [OF this]
  show ?case using Cons.IH [OF pr(1)] pr(2,3) by simp
qed simp

lemma commit_leases_spec:
  "hold (ps @ H) q \<Longrightarrow> lease_ok q \<Longrightarrow> length rs = length ps \<Longrightarrow>
   commit_leases q t (zip ps rs) = (q', out) \<Longrightarrow>
     hold H q' \<and> lease_ok q' \<and> map strip out = map2 (leased t) (map (val q) ps) rs \<and>
     abs q' = (abs q)\<lparr>a_inflight := mset (map2 (leased t) (map (val q) ps) rs) + a_inflight (abs q)\<rparr> \<and>
     q_delivered q' = q_delivered q + of_nat (length ps) \<and>
     rest (q'\<lparr>q_leases := q_leases q, q_delivered := q_delivered q\<rparr>) = rest q \<and>
     q_leases q' = fold (\<lambda>(p, r) l. l(r \<mapsto> p)) (zip ps rs) (q_leases q)"
proof (induction ps arbitrary: q rs out)
  case Nil
  then show ?case by simp
next
  case (Cons p ps)
  then obtain r rs' where rs: "rs = r # rs'" "length rs' = length ps" by (cases rs) auto
  define q1 where "q1 = set_msg q p (\<lambda>m. m\<lparr>Attempts := wrap64 (Attempts m + 1), Receipt := r, LeaseExpiry := t\<rparr>)"
  define q2 where "q2 = push_inflight q1 p"
  define q3 where "q3 = q2\<lparr>q_leases := (q_leases q2)(r \<mapsto> p), q_delivered := q_delivered q2 + 1\<rparr>"
  obtain out' where out: "commit_leases q3 t (zip ps rs') = (q', out')" "out = q_mem q3 p # out'"
    using Cons.prems(4) rs(1) by (auto simp: Let_def q1_def q2_def q3_def split: prod.splits)
  have h: "hold (p # ps @ H) q" using Cons.prems(1) by simp
  have s: "hold (p # ps @ H) q1" "abs q1 = abs q" "val q1 = (val q)(p := leased t (val q p) r)"
    using set_msg_hold [OF h, of p] by (simp_all add: q1_def leased_def val_def)
  have n: "p \<notin> set ps" "p \<notin> set (items (q_inflight q))"
    using hold_apart(4,5) [OF h] by auto
  note pi = push_inflight_hold [OF s(1), folded q2_def]
  have r2: "rest q2 = rest q" by (simp add: q2_def q1_def)
  have h3: "hold (ps @ H) q3" "val q3 = val q1" using pi(1,2) by (simp_all add: q3_def)
  have "lease_ok q3"
    using Cons.prems(2) n(2) s(3) pi(2,4) rest_sel(4) [OF r2]
    unfolding lease_ok_def val_sel by (auto simp: q3_def q1_def leased_def)
  note IH = Cons.IH [OF h3(1) this rs(2) out(1)]
  have mv: "map (val q3) ps = map (val q) ps" using n(1) h3(2) s(3) by simp
  have ho: "strip (q_mem q3 p) = leased t (val q p) r" using h3(2) s(3) by (metis fun_upd_same val_def)
  have ab: "abs q3 = (abs q)\<lparr>a_inflight := add_mset (leased t (val q p) r) (a_inflight (abs q))\<rparr>"
    using pi(3) s by (simp add: q3_def)
  have fr: "q_delivered q3 = q_delivered q + 1" "q_leases q3 = (q_leases q)(r \<mapsto> p)"
    "rest (q3\<lparr>q_leases := q_leases q, q_delivered := q_delivered q\<rparr>) = rest q"
    using r2 by (simp_all add: q3_def rest_def)
  then have "rest (q'\<lparr>q_leases := q_leases q, q_delivered := q_delivered q\<rparr>) = rest q"
    using IH by (simp add: rest_def)
  then show ?case using IH mv ho ab fr(1,2) rs out(2) by (simp add: algebra_simps)
qed

text \<open>
  One attempt to receive. After both clocks have run, the front of the ready messages is
  leased; if the log refuses a lease the ready messages are all back; if nothing is ready
  nothing happens.
\<close>

definition received :: "queue \<Rightarrow> int \<Rightarrow> gotime \<Rightarrow> (msg list) result \<Rightarrow> queue \<Rightarrow> bool" where
  "received q limit expiry res q' \<longleftrightarrow>
     (case res of
        Inl e \<Rightarrow> abs q' = abs q
      | Inr out \<Rightarrow>
          \<exists>ms rs. front (orderBy (Mode_of (q_cfg q))) (nat limit) (a_ready (abs q)) ms \<and>
            length rs = length ms \<and> map strip out = map2 (leased expiry) ms rs \<and>
            abs q' = (abs q)\<lparr>a_ready := a_ready (abs q) - mset ms,
              a_inflight := mset (map2 (leased expiry) ms rs) + a_inflight (abs q)\<rparr>)"

lemma received_none:
  "front (orderBy (Mode_of (q_cfg q))) (nat limit) (a_ready (abs q)) [] \<Longrightarrow> abs q' = abs q \<Longrightarrow>
     received q limit t (Inr []) q'"
  by (auto simp: received_def intro!: exI [of _ "[]"])

lemma received_some:
  assumes "front (orderBy (Mode_of (q_cfg q))) (nat limit) (a_ready (abs q)) ms" and "length rs = length ms"
    and "map strip out = map2 (leased t) ms rs" and "abs q = A\<lparr>a_ready := mset ms + a_ready A\<rparr>"
    and "abs q' = A\<lparr>a_inflight := mset (map2 (leased t) ms rs) + a_inflight A\<rparr>"
  shows "received q limit t (Inr out) q'"
proof -
  have "abs q' = (abs q)\<lparr>a_ready := a_ready (abs q) - mset ms,
      a_inflight := mset (map2 (leased t) ms rs) + a_inflight (abs q)\<rparr>"
    unfolding assms(4,5) by simp
  then show ?thesis using assms(1-3) unfolding received_def sum.case by blast
qed

text \<open>The log's side of it: a lease record for each message, or for the first few of them.\<close>

definition received_recs :: "queue \<Rightarrow> world \<Rightarrow> int \<Rightarrow> gotime \<Rightarrow> (msg list) result \<Rightarrow> wal_record list \<Rightarrow> bool" where
  "received_recs q W limit expiry res recs \<longleftrightarrow>
     (\<exists>ms k. front (orderBy (Mode_of (q_cfg q))) (nat limit) (a_ready (abs q)) ms \<and> k \<le> length ms \<and>
        (\<not> isl res \<longrightarrow> k = length ms \<and> map strip (projr res) = map2 (leased expiry) ms (receipts W k)) \<and>
        recs = map (lease_rec (Name (q_cfg q))) (map2 (leased expiry) (take k ms) (receipts W k)))"

text \<open>Some ready message whose lease record cannot be encoded.\<close>

definition unleasable :: "queue \<Rightarrow> world \<Rightarrow> gotime \<Rightarrow> bool" where
  "unleasable q W t \<longleftrightarrow>
     (\<exists>m \<in># a_ready (abs q). \<exists>r. \<not> encodable (json W) (lease_rec (Name (q_cfg q)) (leased t m r)))"

lemma advance_run_now:
  "advance_run (q, w, W\<lparr>now_i := Suc (now_i W)\<rparr>) now xs s' \<Longrightarrow> advance_run (q, w, W) now xs s'"
  using grew_trans [OF grew_now]
  unfolding advance_run_def unwritten_def prod.case good_log_env
  by (fastforce split: prod.splits simp del: all_simps)

lemma tryReceive_spec:
  assumes inv: "qinv q"
  shows "\<exists>q' w' W' res xs q2 w2 W2 recs. tryReceive q w W limit visibility = Some (q', w', W', q_wake q, res) \<and>
    qinv q' \<and> advance_run (q, w, W) (nows W (now_i W)) xs (q2, w2, W2) \<and>
    received q2 limit (nows W (now_i W) + visibility) res q' \<and> rest (q'\<lparr>q_leases := q_leases q2, q_delivered := q_delivered q2\<rparr>) = rest q2 \<and>
    received_recs q2 W2 limit (nows W (now_i W) + visibility) res recs \<and> grew (w2, W2) recs (w', W') \<and>
    (good_log w2 W2 \<longrightarrow> isl res \<longrightarrow> unleasable q2 W2 (nows W (now_i W) + visibility))"
proof -
  let ?now = "nows W (now_i W)" and ?W1 = "W\<lparr>now_i := Suc (now_i W)\<rparr>"
  let ?t = "?now + visibility"
  obtain q2 w2 W2 xs where av: "advanceLocked q w ?W1 ?now = Some (q2, w2, W2)"
    "advance_run (q, w, ?W1) ?now xs (q2, w2, W2)"
    using advanceLocked_spec [OF inv] by metis
  then have run: "advance_run (q, w, W) ?now xs (q2, w2, W2)"
    by (simp add: advance_run_now)
  have inv2: "hold [] q2" "lease_ok q2" using av(2) by (simp_all add: advance_run_def qinv_def)
  obtain q3 ps where pk: "pick (nat limit) q2 = Some (q3, ps)" "hold (ps @ []) q3" "val q3 = val q2"
    "rest q3 = rest q2" "q_inflight q3 = q_inflight q2"
    "abs q2 = (abs q3)\<lparr>a_ready := mset (map (val q2) ps) + a_ready (abs q3)\<rparr>"
    "front (orderBy (Mode_of (q_cfg q2))) (nat limit) (a_ready (abs q2)) (map (val q2) ps)"
    using pick_spec [OF inv2(1), of "nat limit"] by (metis append_Nil2)
  have l3: "lease_ok q3" using promote_lease_ok [OF pk(3,4,5) inv2(2)] .
  have cf: "q_cfg q3 = q_cfg q2" using rest_sel(1) [OF pk(4)] .
  obtain w4 W4 lr where ll: "log_leases q3 w2 W2 ?t ps = (w4, W4, lr)" by (metis prod_cases3)
  obtain k where k: "k \<le> length ps" "\<not> isl lr \<longleftrightarrow> k = length ps"
    "\<not> isl lr \<longrightarrow> lr = Inr (receipts W2 (length ps))"
    "good_log w2 W2 \<longrightarrow> isl lr \<longrightarrow>
       (\<exists>p \<in> set ps. \<exists>r. \<not> encodable (json W2) (lease_rec (Name (q_cfg q2)) (leased ?t (val q2 p) r)))"
    "grew (w2, W2) (map (lease_rec (Name (q_cfg q2)))
       (map2 (leased ?t) (map (val q2) (take k ps)) (receipts W2 k))) (w4, W4)"
    using log_leases_spec [OF ll] pk(3) cf by auto
  have "\<exists>q' w' W' res recs. tryReceive q w W limit visibility = Some (q', w', W', q_wake q, res) \<and>
      qinv q' \<and> received q2 limit ?t res q' \<and>
      rest (q'\<lparr>q_leases := q_leases q2, q_delivered := q_delivered q2\<rparr>) = rest q2 \<and>
      received_recs q2 W2 limit ?t res recs \<and> grew (w2, W2) recs (w', W') \<and>
      (good_log w2 W2 \<longrightarrow> isl res \<longrightarrow> unleasable q2 W2 ?t)"
  proof (cases "ps = []")
    case True
    then have "tryReceive q w W limit visibility = Some (q3, w2, W2, q_wake q, Inr [])"
      using av pk(1) by (simp add: tryReceive_def time_Now_def)
    moreover have "received q2 limit ?t (Inr []) q3" using received_none pk(6,7) True by simp
    moreover have "qinv q3" using pk(2) l3 True by (simp add: qinv_def)
    moreover have "received_recs q2 W2 limit ?t (Inr []) []"
      using pk(7) True by (auto simp: received_recs_def intro!: exI [of _ "[]"])
    moreover have "rest (q3\<lparr>q_leases := q_leases q2, q_delivered := q_delivered q2\<rparr>) = rest q2"
      "good_log w2 W2 \<longrightarrow> isl (Inr [] :: (msg list) result) \<longrightarrow> unleasable q2 W2 ?t"
      using pk(4) by (simp_all add: rest_def)
    ultimately show ?thesis by blast
  next
    case ne: False
    show ?thesis
    proof (cases lr)
      case (Inl e)
      let ?q = "fold (\<lambda>p q. push_ready q p) ps q3"
      have pb: "hold [] ?q" "val ?q = val q3" "rest ?q = rest q3" "q_inflight ?q = q_inflight q3"
        "abs ?q = (abs q3)\<lparr>a_ready := mset (map (val q3) ps) + a_ready (abs q3)\<rparr>"
        using push_back_spec [OF pk(2)] by blast+
      have "tryReceive q w W limit visibility = Some (?q, w4, W4, q_wake q, Inl e)"
        using av pk(1) ll ne Inl by (simp add: tryReceive_def time_Now_def)
      moreover have "received q2 limit ?t (Inl e) ?q"
        using pb(5) pk(3,6) by (simp add: received_def)
      moreover have "qinv ?q" using pb(1) promote_lease_ok [OF pb(2-4) l3] by (simp add: qinv_def)
      moreover have "received_recs q2 W2 limit ?t (Inl e) (map (lease_rec (Name (q_cfg q2)))
          (map2 (leased ?t) (map (val q2) (take k ps)) (receipts W2 k)))"
        using pk(7) k(1) unfolding received_recs_def
        by (intro exI [of _ "map (val q2) ps"] exI [of _ k]) (simp add: take_map)
      moreover have "rest (?q\<lparr>q_leases := q_leases q2, q_delivered := q_delivered q2\<rparr>) = rest q2"
        using pb(3) pk(4) by (simp add: rest_def)
      moreover have "good_log w2 W2 \<longrightarrow> isl (Inl e :: (msg list) result) \<longrightarrow> unleasable q2 W2 ?t"
      proof -
        have "val q2 p \<in># a_ready (abs q2)" if "p \<in> set ps" for p using pk(6) that by (cases "abs q2") auto
        then show ?thesis using k(4) Inl by (auto simp: unleasable_def)
      qed
      ultimately show ?thesis using k(5) by blast
    next
      case (Inr rs)
      obtain q' out where cm: "commit_leases q3 ?t (zip ps rs) = (q', out)" by fastforce
      have rs: "rs = receipts W2 (length ps)" "k = length ps" using k(2,3) Inr by simp_all
      then have ln: "length rs = length ps" by (simp add: receipts_def)
      have c: "hold [] q'" "lease_ok q'" "map strip out = map2 (leased ?t) (map (val q3) ps) rs"
        "abs q' = (abs q3)\<lparr>a_inflight :=
           mset (map2 (leased ?t) (map (val q3) ps) rs) + a_inflight (abs q3)\<rparr>"
        "rest (q'\<lparr>q_leases := q_leases q2, q_delivered := q_delivered q2\<rparr>) = rest q2"
        using commit_leases_spec [OF pk(2) l3 ln cm] pk(4) by (simp_all add: rest_def)
      have "tryReceive q w W limit visibility = Some (q', w4, W4, q_wake q, Inr out)"
        using av pk(1) ll ne Inr cm by (simp add: tryReceive_def time_Now_def)
      moreover have "received q2 limit ?t (Inr out) q'"
        using received_some [OF pk(7) _ _ pk(6)] c(3,4) pk(3) ln by simp
      moreover have "received_recs q2 W2 limit ?t (Inr out) (map (lease_rec (Name (q_cfg q2)))
          (map2 (leased ?t) (map (val q2) (take k ps)) (receipts W2 k)))"
        using pk(3,7) rs c(3) unfolding received_recs_def
        by (intro exI [of _ "map (val q2) ps"] exI [of _ k]) simp
      moreover have "good_log w2 W2 \<longrightarrow> isl (Inr out :: (msg list) result) \<longrightarrow> unleasable q2 W2 ?t" by simp
      ultimately show ?thesis using c(1,2,5) k(5) unfolding qinv_def by blast
    qed
  qed
  then show ?thesis using run by blast
qed

section \<open>New and Enqueue\<close>

lemma New_spec: "qinv (New cfg)" "abs (New cfg) = \<lparr>a_ready = {#}, a_delayed = {#}, a_inflight = {#}, a_dlq = []\<rparr>"
  by (simp_all add: New_def Let_def qinv_def hold_def lease_ok_def refs_def apart_def heap_inv_def idx_ok_def
      ordered_def newMsgHeap_def abs_def)

lemma apart_fresh: "apart R n \<Longrightarrow> apart (add_mset n R) (Suc n)"
  by (auto simp: apart_def less_Suc_eq not_in_iff [symmetric])

lemma hold_fresh:
  assumes "hold H q"
  shows "hold (q_next q # H) (q\<lparr>q_mem := (q_mem q)(q_next q := m), q_next := Suc (q_next q)\<rparr>)"
    and "abs (q\<lparr>q_mem := (q_mem q)(q_next q := m), q_next := Suc (q_next q)\<rparr>) = abs q"
    and "lease_ok q \<Longrightarrow> lease_ok (q\<lparr>q_mem := (q_mem q)(q_next q := m), q_next := Suc (q_next q)\<rparr>)"
proof -
  let ?q = "q\<lparr>q_mem := (q_mem q)(q_next q := m), q_next := Suc (q_next q)\<rparr>"
  have lt: "r < q_next q" if "r \<in># refs q + mset H" for r using assms that by (auto simp: hold_def apart_def)
  then have nin: "q_next q \<notin># refs q + mset H" by blast
  then have ni: "q_next q \<notin> set (items (q_ready q))" "q_next q \<notin> set (items (q_delayed q))"
    "q_next q \<notin> set (items (q_inflight q))" "q_next q \<notin> set (q_dlq q)" by (auto simp: refs_def)
  have hi: "heap_inv (q_mem ?q) h" if "heap_inv (q_mem q) h" "q_next q \<notin> set (items h)" for h
    using that by (intro heap_inv_frame [OF that(1)]) auto
  have "apart (add_mset (q_next q) (refs q + mset H)) (Suc (q_next q))"
    using assms apart_fresh by (simp add: hold_def)
  moreover have "refs ?q = refs q" by (simp add: refs_def)
  ultimately show "hold (q_next q # H) ?q" using assms ni hi by (simp add: hold_def)
  have "val ?q r = val q r" if "r \<noteq> q_next q" for r using that by (simp add: val_def)
  then have "image_mset (val ?q) (mset xs) = image_mset (val q) (mset xs)" "map (val ?q) xs = map (val q) xs"
    if "q_next q \<notin> set xs" for xs using that by (auto intro!: image_mset_cong) metis+
  then show "abs ?q = abs q" using ni unfolding abs_def by simp
  show "lease_ok q \<Longrightarrow> lease_ok ?q" using ni(3) unfolding lease_ok_def by auto
qed

lemma placeLocked_lease_ok:
  assumes "hold (p # H) q" and "lease_ok q"
  shows "lease_ok (placeLocked q p now)"
  by (rule lease_ok_cong [of _ q]) (simp_all add: placeLocked_hold(2) [OF assms(1)] assms(2))

text \<open>The message \<open>Enqueue\<close> builds.\<close>

definition fresh_msg :: "queue \<Rightarrow> world \<Rightarrow> string \<Rightarrow> int \<Rightarrow> duration \<Rightarrow> msg" where
  "fresh_msg q W body priority delay =
     zero_msg\<lparr>ID := fst (newID W), Body := body, Priority := priority, Seq := q_seq q + 1,
       VisibleAt := nows W (now_i W) + delay, EnqueuedAt := nows W (now_i W)\<rparr>"

definition enq_rec :: "string \<Rightarrow> msg \<Rightarrow> wal_record" where
  "enq_rec name m = zero_record\<lparr>rOp := OpEnqueue, rQueue := name, rMsg := Some m\<rparr>"

lemma Enqueue_spec:
  assumes inv: "qinv q" and ok: "priority = 0 \<or> Priority_on (q_cfg q)"
    and eq: "Enqueue q w W body priority delay = (q', w', W', res)"
  shows "qinv q'" and "q_seq q' = q_seq q + 1" and "q_cfg q' = q_cfg q" and "q_walErr q' = q_walErr q"
    and "case res of
       Inl e \<Rightarrow> abs q' = abs q \<and> q_enqueued q' = q_enqueued q
     | Inr m \<Rightarrow> strip m = fresh_msg q W body priority delay \<and>
         abs q' = gate (nows W (now_i W)) (strip m) (abs q) \<and> q_enqueued q' = q_enqueued q + 1 \<and>
         q_wake q' = Suc (q_wake q)"
    and "grew (w, W) (logged (\<not> isl res) (enq_rec (Name (q_cfg q)) (fresh_msg q W body priority delay))) (w', W')"
    and "rnd_i W' = Suc (rnd_i W)"
proof -
  let ?now = "nows W (now_i W)" and ?m = "fresh_msg q W body priority delay" and ?p = "q_next q"
  define W2 where "W2 = snd (newID (snd (time_Now W)))"
  define q2 where "q2 = q\<lparr>q_seq := q_seq q + 1, q_mem := (q_mem q)(?p := ?m), q_next := Suc ?p\<rparr>"
  have q2: "hold [?p] q2" "abs q2 = abs q" "lease_ok q2" "val q2 ?p = ?m"
    using hold_fresh [of "[]" "q\<lparr>q_seq := q_seq q + 1\<rparr>" ?m] inv
    by (simp_all add: q2_def qinv_def val_def fresh_msg_def zero_msg_def strip_def)
  obtain w3 W3 r where ap: "AppendSync w W2 ((q_record q2 OpEnqueue)\<lparr>rMsg := Some (q_mem q2 ?p)\<rparr>) = (w3, W3, r)"
    by (metis prod_cases3)
  let ?q3 = "placeLocked q2 ?p ?now"
  let ?q4 = "signalLocked (?q3\<lparr>q_enqueued := q_enqueued ?q3 + 1\<rparr>)"
  have res: "(q', w', W', res) = (case r of Inl e \<Rightarrow> (q2, w3, W3, Inl e) | Inr _ \<Rightarrow> (?q4, w3, W3, Inr (q_mem ?q4 ?p)))"
    using eq ok ap unfolding Enqueue_def
    by (auto simp: time_Now_def newID_def Let_def q2_def W2_def fresh_msg_def split: sum.splits)
  note pl = placeLocked_hold(1,2) [OF q2(1), of ?now] placeLocked_gate [OF q2(1), of ?now]
    placeLocked_lease_ok [OF q2(1,3), of ?now]
  have rs: "rest ?q3 = rest q2" by simp
  have en: "q_enqueued ?q3 = q_enqueued q" "q_wake ?q3 = q_wake q" "q_walErr ?q3 = q_walErr q"
    using rs by (simp_all add: rest_def q2_def)
  have st: "strip (q_mem ?q4 ?p) = ?m" using pl(2) q2(4) by (simp add: signalLocked_def) (metis val_def)
  have "(q_record q2 OpEnqueue)\<lparr>rMsg := Some (q_mem q2 ?p)\<rparr> = enq_rec (Name (q_cfg q)) ?m"
    by (simp add: q2_def q_record_def enq_rec_def)
  then have "grew (w, W2) (logged (\<not> isl r) (enq_rec (Name (q_cfg q)) ?m)) (w3, W3)"
    using AppendSync_grew [OF ap] by (simp add: logged_def split: if_splits)
  moreover have "grew (w, W) [] (w, W2)"
    unfolding W2_def using grew_trans [OF grew_now grew_rnd] by (simp add: time_Now_def newID_def)
  ultimately show "grew (w, W) (logged (\<not> isl res) (enq_rec (Name (q_cfg q)) ?m)) (w', W')"
    using grew_trans res by (cases r) fastforce+
  show "rnd_i W' = Suc (rnd_i W)"
    using wal_write_rnd [OF ap [unfolded AppendSync_def]] res
    by (cases r) (simp_all add: W2_def time_Now_def newID_def)
  show "qinv q'" using res pl q2 hold_drop [OF q2(1)] by (cases r) (simp_all add: qinv_def)
  show "q_seq q' = q_seq q + 1" "q_cfg q' = q_cfg q" "q_walErr q' = q_walErr q"
    using res en by (cases r; simp add: signalLocked_def q2_def)+
  show "case res of
       Inl e \<Rightarrow> abs q' = abs q \<and> q_enqueued q' = q_enqueued q
     | Inr m \<Rightarrow> strip m = ?m \<and> abs q' = gate ?now (strip m) (abs q) \<and> q_enqueued q' = q_enqueued q + 1 \<and>
         q_wake q' = Suc (q_wake q)"
  proof (cases r)
    case (Inl e)
    then show ?thesis using res q2(2) by (simp add: q2_def)
  next
    case (Inr u)
    have "q_enqueued ?q4 = q_enqueued q + 1" "q_wake ?q4 = Suc (q_wake q)"
      using en by (simp_all add: signalLocked_def)
    then show ?thesis using res q2(2,4) pl(3) st Inr by simp
  qed
qed

section \<open>Ack, Extend, Nack\<close>

text \<open>The message a receipt stands for.\<close>

lemma lease_in: "qinv q \<Longrightarrow> q_leases q receipt = Some p \<Longrightarrow>
    p \<in> set (items (q_inflight q)) \<and> Receipt (val q p) = receipt"
  by (simp add: qinv_def lease_ok_def val_def)

definition id_rec :: "Op \<Rightarrow> string \<Rightarrow> string \<Rightarrow> wal_record" where
  "id_rec oper name ident = zero_record\<lparr>rOp := oper, rQueue := name, rID := ident\<rparr>"

lemma id_rec_eq: "(q_record q oper)\<lparr>rID := ID (q_mem q p)\<rparr> = id_rec oper (Name (q_cfg q)) (ID (val q p))"
  by (simp add: q_record_def id_rec_def val_def)

lemma Ack_spec:
  assumes inv: "qinv q" and p: "q_leases q receipt = Some p"
  shows "\<exists>q' w' W' res. Ack q w W receipt = Some (q', w', W', res) \<and> qinv q' \<and>
    grew (w, W) (logged (\<not> isl res) (id_rec OpAck (Name (q_cfg q)) (ID (val q p)))) (w', W') \<and>
    q_cfg q' = q_cfg q \<and> q_seq q' = q_seq q \<and>
    (case res of
       Inl e \<Rightarrow> q' = q
     | Inr _ \<Rightarrow> val q p \<in># a_inflight (abs q) \<and>
         abs q' = (abs q)\<lparr>a_inflight := a_inflight (abs q) - {#val q p#}\<rparr> \<and>
         q_leases q' = (q_leases q)(receipt := None) \<and> q_acked q' = q_acked q + 1)"
proof -
  have pi: "p \<in> set (items (q_inflight q))" "Receipt (val q p) = receipt" using lease_in [OF inv p] by auto
  obtain q1 where q1: "remove_inflight q p = Some q1" "hold [p] q1" "rest q1 = rest q"
    "abs q = (abs q1)\<lparr>a_inflight := add_mset (val q p) (a_inflight (abs q1))\<rparr>"
    "lease_ok (q1\<lparr>q_leases := (q_leases q)(receipt := None)\<rparr>)"
    using release_spec [OF inv pi(1)] pi(2) by auto
  obtain w1 W1 r where ap: "AppendSync w W ((q_record q OpAck)\<lparr>rID := ID (q_mem q p)\<rparr>) = (w1, W1, r)"
    by (metis prod_cases3)
  let ?q = "q1\<lparr>q_leases := (q_leases q1)(receipt := None), q_acked := q_acked q1 + 1\<rparr>"
  have rs: "q_leases q1 = q_leases q" "q_acked q1 = q_acked q" "q_cfg q1 = q_cfg q" "q_seq q1 = q_seq q"
    using q1(3) by (simp_all add: rest_def)
  have "qinv ?q" using hold_drop [OF q1(2)] q1(5) rs by (simp add: qinv_def)
  moreover have "val q p \<in># a_inflight (abs q)" "abs ?q = (abs q)\<lparr>a_inflight := a_inflight (abs q) - {#val q p#}\<rparr>"
    using q1(4) by simp_all
  moreover have "grew (w, W) (logged (\<not> isl r) (id_rec OpAck (Name (q_cfg q)) (ID (val q p)))) (w1, W1)"
    using AppendSync_grew [OF ap] by (simp add: logged_def id_rec_eq split: if_splits)
  ultimately show ?thesis using p ap q1(1) rs inv by (cases r) (simp_all add: Ack_def)
qed

lemma Extend_spec:
  assumes inv: "qinv q" and p: "q_leases q receipt = Some p"
    and t_def: "t = nows W (now_i W) + (if visibility \<le> 0 then Visibility (q_cfg q) else visibility)"
  shows "\<exists>q' W'. Extend q W receipt visibility = Some (q', W', Inr t) \<and> qinv q' \<and>
    abs q' = (abs q)\<lparr>a_inflight := add_mset ((val q p)\<lparr>LeaseExpiry := t\<rparr>) (a_inflight (abs q) - {#val q p#})\<rparr> \<and>
    val q p \<in># a_inflight (abs q) \<and> rest q' = rest q \<and> grew (w, W) [] (w, W')"
proof -
  have pi: "p \<in> set (items (q_inflight q))" "hold [] q" using lease_in [OF inv p] inv by (auto simp: qinv_def)
  obtain q' where q': "fix_inflight (set_msg q p (\<lambda>m. m\<lparr>LeaseExpiry := t\<rparr>)) p = Some q'" "hold [] q'"
    "val q' = (val q)(p := (val q p)\<lparr>LeaseExpiry := t\<rparr>)" "rest q' = rest q"
    "q_ready q' = q_ready q" "q_delayed q' = q_delayed q" "q_dlq q' = q_dlq q"
    "mset (items (q_inflight q')) = mset (items (q_inflight q))"
    using extend_hold [OF pi(2,1), of t] by auto
  have "lease_ok q'"
    using q'(3) rest_sel(4) [OF q'(4)] inv mset_eq_setD [OF q'(8)]
    by (intro lease_ok_cong [of q' q]) (simp_all add: qinv_def)
  moreover have "Extend q W receipt visibility = Some (q', W\<lparr>now_i := Suc (now_i W)\<rparr>, Inr t)"
    using p q'(1,3) by (simp add: Extend_def time_Now_def t_def val_sel)
  moreover have "abs q' = (abs q)\<lparr>a_inflight := add_mset ((val q p)\<lparr>LeaseExpiry := t\<rparr>) (a_inflight (abs q) - {#val q p#})\<rparr>"
  proof -
    define X where "X = mset (remove1 p (items (q_inflight q)))"
    have X: "mset (items (q_inflight q)) = add_mset p X" using pi(1) by (simp add: X_def)
    have nx: "p \<notin># X" using hold_heaps(3) [OF pi(2)] unfolding X_def set_mset_mset
      by (simp add: heap_inv_def idx_ok_def)
    have oth: "p \<notin> set (items (q_ready q))" "p \<notin> set (items (q_delayed q))" "p \<notin> set (q_dlq q)"
      using hold_apart(3) [OF pi(2,1)] by auto
    have "image_mset (val q') X = image_mset (val q) X" using nx q'(3) by (auto intro!: image_mset_cong)
    then have "a_inflight (abs q') = add_mset ((val q p)\<lparr>LeaseExpiry := t\<rparr>) (a_inflight (abs q) - {#val q p#})"
      using X q'(3,8) by (simp add: abs_def)
    moreover have "a_ready (abs q') = a_ready (abs q)" "a_delayed (abs q') = a_delayed (abs q)"
      "a_dlq (abs q') = a_dlq (abs q)"
      using oth q'(3,5-7) by (auto simp: abs_def intro!: image_mset_cong)
    ultimately show ?thesis by (cases "abs q'"; cases "abs q") simp
  qed
  moreover have "val q p \<in># a_inflight (abs q)" using pi(1) abs_in(3) by blast
  ultimately show ?thesis using q'(2,4) unfolding qinv_def by (metis grew_now)
qed

lemma Nack_spec:
  assumes inv: "qinv q" and p: "q_leases q receipt = Some p"
  shows "\<exists>q' w' W' res. Nack q w W receipt delay = Some (q', w', W', res) \<and> qinv q' \<and>
    val q p \<in># a_inflight (abs q) \<and>
    abs q' = retry_spec (q_cfg q) (nows W (now_i W)) delay (\<not> isl res) (released (val q p))
      ((abs q)\<lparr>a_inflight := a_inflight (abs q) - {#val q p#}\<rparr>) \<and>
    q_leases q' = (q_leases q)(receipt := None) \<and> q_nacked q' = q_nacked q + 1 \<and> q_cfg q' = q_cfg q \<and>
    q_seq q' = q_seq q \<and> q_wake q' = (if isl res then q_wake q else Suc (q_wake q)) \<and>
    grew (w, W) (logged (\<not> isl res) (retry_rec (q_cfg q) (nows W (now_i W)) delay (released (val q p)))) (w', W') \<and>
    (good_log w W \<longrightarrow> isl res \<longrightarrow>
       \<not> encodable (json W) (retry_rec (q_cfg q) (nows W (now_i W)) delay (released (val q p)))) \<and>
    (w_failed w \<noteq> None \<longrightarrow> isl res)"
proof -
  let ?now = "nows W (now_i W)" and ?W1 = "W\<lparr>now_i := Suc (now_i W)\<rparr>"
  have pi: "p \<in> set (items (q_inflight q))" "Receipt (val q p) = receipt" using lease_in [OF inv p] by auto
  obtain q1 where q1: "remove_inflight q p = Some q1" "hold [p] q1" "rest q1 = rest q" "val q1 = val q"
    "abs q = (abs q1)\<lparr>a_inflight := add_mset (val q p) (a_inflight (abs q1))\<rparr>"
    "lease_ok (q1\<lparr>q_leases := (q_leases q)(receipt := None)\<rparr>)"
    using release_spec [OF inv pi(1)] pi(2) by auto
  define q2 where "q2 = q1\<lparr>q_leases := (q_leases q1)(receipt := None)\<rparr>"
  define q3 where "q3 = set_msg q2 p (\<lambda>x. x\<lparr>Receipt := '''', LeaseExpiry := zero_time\<rparr>)"
  define q4 where "q4 = q3\<lparr>q_nacked := q_nacked q3 + 1\<rparr>"
  obtain q5 w2 W2 r where rt: "retryLocked q4 w ?W1 p ?now delay = (q5, w2, W2, r)" by (metis prod_cases4)
  have h2: "hold [p] q2" "lease_ok q2" "abs q2 = abs q1" "val q2 = val q"
    using q1 rest_sel(4) [OF q1(3)] by (simp_all add: q2_def)
  have "strip (q_mem q2 p) = val q p" using h2(4) by (metis val_def)
  then have s: "hold [p] q3" "abs q3 = abs q1" "val q3 = (val q)(p := released (val q p))"
    using set_msg_hold [OF h2(1), of p] h2 by (simp_all add: q3_def released_def)
  have "p \<notin> set (items (q_inflight q2))" using hold_apart(4) [OF h2(1), of p] by simp
  then have "lease_ok q3" using h2(2,4) s(3) by (intro lease_ok_cong [of q3 q2]) (auto simp: q3_def)
  then have h4: "hold [p] q4" "lease_ok q4" "val q4 p = released (val q p)" "abs q4 = abs q1"
    using s by (simp_all add: q4_def)
  note sp = retryLocked_spec [OF h4(1) rt]
  have fr: "q_leases q5 = (q_leases q)(receipt := None)" "q_nacked q5 = q_nacked q + 1" "q_cfg q5 = q_cfg q"
    "q_seq q5 = q_seq q" "q_wake q5 = q_wake q" "q_cfg q4 = q_cfg q"
    using sp(4) q1(3) by (simp_all add: rest_def q4_def q3_def q2_def set_msg_def)
  let ?q = "case r of Inl _ \<Rightarrow> q5 | Inr _ \<Rightarrow> signalLocked q5"
  have "Nack q w W receipt delay = Some (?q, w2, W2, r)"
    using p q1(1) rt by (cases r) (simp_all add: Nack_def time_Now_def Let_def q2_def q3_def q4_def)
  moreover have "qinv ?q" "abs ?q = abs q5"
    using sp(1) retryLocked_lease_ok [OF h4(1) rt h4(2)] by (cases r; simp add: qinv_def)+
  moreover have "abs q5 = retry_spec (q_cfg q) ?now delay (\<not> isl r) (released (val q p))
      ((abs q)\<lparr>a_inflight := a_inflight (abs q) - {#val q p#}\<rparr>)"
    using sp(2) h4 fr q1(5) by simp
  moreover have "q_leases ?q = (q_leases q)(receipt := None)" "q_nacked ?q = q_nacked q + 1" "q_cfg ?q = q_cfg q"
    "q_seq ?q = q_seq q" "q_wake ?q = (if isl r then q_wake q else Suc (q_wake q))"
    using fr by (cases r; simp add: signalLocked_def)+
  moreover have "val q p \<in># a_inflight (abs q)" using pi(1) abs_in(3) by blast
  moreover have "grew (w, W) (logged (\<not> isl r) (retry_rec (q_cfg q) ?now delay (released (val q p)))) (w2, W2)"
    using grew_trans [OF grew_now sp(5)] fr(6) h4(3) by simp
  moreover have "good_log w W \<longrightarrow> isl r \<longrightarrow> \<not> encodable (json W) (retry_rec (q_cfg q) ?now delay (released (val q p)))"
    "w_failed w \<noteq> None \<longrightarrow> isl r"
    using sp(6,7) fr(6) h4(3) by simp_all
  ultimately show ?thesis by metis
qed

text \<open>A receipt that stands for no lease is refused by all three without any effect.\<close>

lemma no_lease:
  assumes "q_leases q receipt = None"
  shows "Ack q w W receipt = Some (q, w, W, Inl ErrNoLease)"
    and "Nack q w W receipt delay = Some (q, w, W, Inl ErrNoLease)"
    and "Extend q W receipt visibility = Some (q, W, Inl ErrNoLease)"
  using assms by (simp_all add: Ack_def Nack_def Extend_def)

section \<open>Replaying the dead letters\<close>

definition revived :: "gotime \<Rightarrow> msg \<Rightarrow> msg" where
  "revived now m = m\<lparr>Attempts := 0, VisibleAt := now\<rparr>"

lemma dlq_commute:
  "set_msg (q\<lparr>q_dlq := d\<rparr>) p f = (set_msg q p f)\<lparr>q_dlq := d\<rparr>"
  "placeLocked (q\<lparr>q_dlq := d\<rparr>) p now = (placeLocked q p now)\<lparr>q_dlq := d\<rparr>"
  by (simp_all add: set_msg_def placeLocked_def push_ready_def push_delayed_def split: prod.split)

lemma hold_undlq: "hold H (q\<lparr>q_dlq := p # ps\<rparr>) = hold (p # H) (q\<lparr>q_dlq := ps\<rparr>)"
  by (simp add: hold_def refs_def)

text \<open>
  The loop: the first \<open>k\<close> dead letters are revived and ready, the others stay, and it stops
  early only when the log refuses a record.
\<close>

lemma replay_dlq_spec:
  "hold [] (q\<lparr>q_dlq := ps\<rparr>) \<Longrightarrow> lease_ok q \<Longrightarrow> replay_dlq q w W now ps n = (q', w', W', rem, n', r) \<Longrightarrow>
     hold [] (q'\<lparr>q_dlq := rem\<rparr>) \<and> lease_ok q' \<and> rest q' = rest q \<and>
     (\<exists>k. grew (w, W) (map (id_rec OpReplay (Name (q_cfg q))) (take k (map (ID \<circ> val q) ps))) (w', W') \<and> k \<le> length ps \<and> rem = drop k ps \<and> n' = n + k \<and> (isl r \<longleftrightarrow> k < length ps) \<and>
       abs (q'\<lparr>q_dlq := rem\<rparr>) =
         (abs q)\<lparr>a_ready := mset (map (revived now) (take k (map (val q) ps))) + a_ready (abs q),
           a_dlq := drop k (map (val q) ps)\<rparr>)"
proof (induction ps arbitrary: q w W n)
  case Nil
  then show ?case by (auto simp: abs_def val_def [abs_def])
next
  case (Cons p ps)
  obtain w1 W1 r1 where ap: "AppendSync w W ((q_record q OpReplay)\<lparr>rID := ID (q_mem q p)\<rparr>) = (w1, W1, r1)"
    by (metis prod_cases3)
  show ?case
  proof (cases r1)
    case (Inl e)
    then have "q' = q" "rem = p # ps" "n' = n" "isl r" "grew (w, W) [] (w', W')"
      using Cons.prems(3) ap AppendSync_grew [OF ap] by auto
    then show ?thesis using Cons.prems(1,2) by (auto simp: abs_def val_def [abs_def] intro!: exI [of _ 0])
  next
    case (Inr u)
    let ?s = "set_msg q p (\<lambda>m. m\<lparr>Attempts := 0, VisibleAt := now\<rparr>)"
    let ?q = "placeLocked ?s p now"
    have rec: "replay_dlq ?q w1 W1 now ps (Suc n) = (q', w', W', rem, n', r)" using Cons.prems(3) ap Inr by simp
    have h: "hold [p] (q\<lparr>q_dlq := ps\<rparr>)" using Cons.prems(1) hold_undlq by simp
    note s = set_msg_hold [OF h, of p "\<lambda>m. m\<lparr>Attempts := 0, VisibleAt := now\<rparr>", simplified, unfolded dlq_commute]
    note pl = placeLocked_hold(1,2) [OF s(1), of now] placeLocked_gate [OF s(1), of now]
    have vs: "val ?s = (val q)(p := revived now (val q p))" using s(3) by (simp add: revived_def val_def)
    have vq: "val ?q = (val q)(p := revived now (val q p))" using pl(2) vs by (simp add: dlq_commute)
    have np: "p \<notin> set (items (q_inflight q))" "p \<notin> set ps" using hold_apart(4) [OF h, of p] by simp_all
    have lo: "lease_ok ?q" using Cons.prems(2) np(1) vq by (intro lease_ok_cong [of ?q q]) simp_all
    have ab: "abs (?q\<lparr>q_dlq := ps\<rparr>) = (abs (q\<lparr>q_dlq := ps\<rparr>))\<lparr>a_ready :=
        add_mset (revived now (val q p)) (a_ready (abs (q\<lparr>q_dlq := ps\<rparr>)))\<rparr>"
      using pl(3) s(2) vs by (simp add: dlq_commute gate_def Ready_def revived_def)
    have mv: "map (val ?q) ps = map (val q) ps" "map (ID \<circ> val ?q) ps = map (ID \<circ> val q) ps"
      using np(2) vq by simp_all
    have mi: "q_cfg ?q = q_cfg q" "rest ?q = rest q" by simp_all
    have ar: "a_ready (abs ?q) = add_mset (revived now (val q p)) (a_ready (abs q))"
      "a_delayed (abs ?q) = a_delayed (abs q)" "a_inflight (abs ?q) = a_inflight (abs q)"
      using ab by (simp_all add: abs_def val_def [abs_def])
    obtain k where k: "hold [] (q'\<lparr>q_dlq := rem\<rparr>)" "lease_ok q'" "rest q' = rest q" "k \<le> length ps"
      "rem = drop k ps" "n' = Suc n + k" "isl r \<longleftrightarrow> k < length ps"
      and g: "grew (w1, W1) (map (id_rec OpReplay (Name (q_cfg q))) (take k (map (ID \<circ> val q) ps))) (w', W')"
      and ka:
      "abs (q'\<lparr>q_dlq := rem\<rparr>) = (abs ?q)\<lparr>a_ready := mset (map (revived now) (take k (map (val q) ps))) +
         a_ready (abs ?q), a_dlq := drop k (map (val q) ps)\<rparr>"
      using Cons.IH [OF pl(1) [unfolded dlq_commute] lo rec] unfolding mv mi by auto
    have "abs (q'\<lparr>q_dlq := rem\<rparr>) = (abs q)\<lparr>a_ready := mset (map (revived now) (take (Suc k) (map (val q) (p # ps)))) +
        a_ready (abs q), a_dlq := drop (Suc k) (map (val q) (p # ps))\<rparr>"
      using ka ar by (cases "abs ?q"; cases "abs q") simp
    moreover have "grew (w, W) (map (id_rec OpReplay (Name (q_cfg q))) (take (Suc k) (map (ID \<circ> val q) (p # ps)))) (w', W')"
      using grew_trans [OF AppendSync_grew [OF ap] g] Inr by (simp add: id_rec_eq)
    ultimately show ?thesis using k by (intro conjI exI [of _ "Suc k"]) (simp_all add: comp_def)
  qed
qed

lemma ReplayDLQ_spec:
  assumes inv: "qinv q" and eq: "ReplayDLQ q w W = (q', w', W', k, r)"
  shows "qinv q'" and "k \<le> length (a_dlq (abs q))" and "isl r \<longleftrightarrow> k < length (a_dlq (abs q))"
    and "abs q' = (abs q)\<lparr>a_ready := mset (map (revived (nows W (now_i W))) (take k (a_dlq (abs q)))) + a_ready (abs q),
      a_dlq := drop k (a_dlq (abs q))\<rparr>"
    and "q_cfg q' = q_cfg q" and "q_seq q' = q_seq q" and "q_leases q' = q_leases q" and "q_walErr q' = q_walErr q"
    and "grew (w, W) (map (id_rec OpReplay (Name (q_cfg q))) (take k (map ID (a_dlq (abs q))))) (w', W')"
proof -
  let ?now = "nows W (now_i W)"
  obtain q1 w1 W2 rem n r1 where rp: "replay_dlq q w (W\<lparr>now_i := Suc (now_i W)\<rparr>) ?now (q_dlq q) 0 = (q1, w1, W2, rem, n, r1)"
    by (metis prod_cases6)
  have res: "q' = (if n > 0 then signalLocked (q1\<lparr>q_dlq := rem\<rparr>) else q1\<lparr>q_dlq := rem\<rparr>)" "k = n" "r = r1"
    "w' = w1" "W' = W2"
    using eq rp by (auto simp: ReplayDLQ_def time_Now_def Let_def)
  have dl: "a_dlq (abs q) = map (val q) (q_dlq q)" by (simp add: abs_def)
  have "hold [] (q\<lparr>q_dlq := q_dlq q\<rparr>)" "lease_ok q" using inv by (simp_all add: qinv_def)
  from replay_dlq_spec [OF this rp]
  have sp: "hold [] (q1\<lparr>q_dlq := rem\<rparr>)" "lease_ok q1" "rest q1 = rest q" "n \<le> length (q_dlq q)"
    "isl r1 \<longleftrightarrow> n < length (q_dlq q)"
    "abs (q1\<lparr>q_dlq := rem\<rparr>) = (abs q)\<lparr>a_ready := mset (map (revived ?now) (take n (map (val q) (q_dlq q)))) +
       a_ready (abs q), a_dlq := drop n (map (val q) (q_dlq q))\<rparr>"
    "grew (w, W\<lparr>now_i := Suc (now_i W)\<rparr>) (map (id_rec OpReplay (Name (q_cfg q))) (take n (map (ID \<circ> val q) (q_dlq q)))) (w1, W2)"
    by auto
  show "grew (w, W) (map (id_rec OpReplay (Name (q_cfg q))) (take k (map ID (a_dlq (abs q))))) (w', W')"
    using grew_trans [OF grew_now sp(7)] res dl by simp
  show "qinv q'" using sp(1,2) res(1) by (simp add: qinv_def)
  show "k \<le> length (a_dlq (abs q))" "isl r \<longleftrightarrow> k < length (a_dlq (abs q))" using sp(4,5) res dl by simp_all
  show "abs q' = (abs q)\<lparr>a_ready := mset (map (revived ?now) (take k (a_dlq (abs q)))) + a_ready (abs q),
      a_dlq := drop k (a_dlq (abs q))\<rparr>" using sp(6) res dl by simp
  show "q_cfg q' = q_cfg q" "q_seq q' = q_seq q" "q_leases q' = q_leases q" "q_walErr q' = q_walErr q"
    using rest_sel [OF sp(3)] res(1) by (simp_all add: signalLocked_def)
qed

section \<open>The long poll\<close>

text \<open>
  A schedule is fair to a receiver when the other goroutines keep the queue's invariant, the
  clock that is being read stays the same and is never read backwards.
\<close>

definition benign :: "schedule \<Rightarrow> bool" where
  "benign sch \<longleftrightarrow>
     (\<forall>(ev, others) \<in> set sch. \<forall>q w W. qinv q \<longrightarrow>
        (case others (q, w, W) of
           (q', w', W') \<Rightarrow> qinv q' \<and> q_cfg q' = q_cfg q \<and> nows W' = nows W \<and> now_i W \<le> now_i W'))"

lemma tryReceive_inv:
  assumes "qinv q" and "tryReceive q w W limit visibility = Some (q', w', W', wake, res)"
  shows "qinv q'"
  using tryReceive_spec [OF assms(1), of w W limit visibility] assms(2) by auto

declare Receive_loop.simps [simp del]

end
