(* ===== verification/FQ_Queue_Hist.thy ===== *)
theory FQ_Queue_Hist
  imports FQ_Queue_Ops
begin

text \<open>
  A queue over time: its operations as steps of a machine, the states it can reach, and
  what no step changes. Each message has a \<open>core\<close> that is fixed when it is enqueued
  (identifier, body, priority, sequence number, enqueue time); conservation and the
  uniqueness of sequence numbers are statements about cores.
\<close>

section \<open>Steps and reachable states\<close>

datatype qop =
    DoEnqueue string int duration
  | DoReceive int duration
  | DoAck string
  | DoExtend string duration
  | DoNack string duration
  | DoTick gotime
  | DoReplayDLQ

definition perform :: "qop \<Rightarrow> shared \<Rightarrow> shared option" where
  "perform oper s =
     (case s of (q, w, W) \<Rightarrow>
       (case oper of
          DoEnqueue body priority delay \<Rightarrow>
            (case Enqueue q w W body priority delay of (q', w', W', _) \<Rightarrow> Some (q', w', W'))
        | DoReceive limit visibility \<Rightarrow>
            map_option (\<lambda>(q', w', W', _, _). (q', w', W')) (tryReceive q w W limit visibility)
        | DoAck receipt \<Rightarrow> map_option (\<lambda>(q', w', W', _). (q', w', W')) (Ack q w W receipt)
        | DoExtend receipt visibility \<Rightarrow>
            map_option (\<lambda>(q', W', _). (q', w, W')) (Extend q W receipt visibility)
        | DoNack receipt delay \<Rightarrow> map_option (\<lambda>(q', w', W', _). (q', w', W')) (Nack q w W receipt delay)
        | DoTick now \<Rightarrow> Tick q w W now
        | DoReplayDLQ \<Rightarrow> (case ReplayDLQ q w W of (q', w', W', _) \<Rightarrow> Some (q', w', W'))))"

text \<open>
  The states a queue reaches: from its creation by its own operations, while the other
  queues use the log and the world as they like.
\<close>

inductive qreach :: "Config \<Rightarrow> shared \<Rightarrow> bool" for cfg where
  created: "qreach cfg (New cfg, w, W)"
| operated: "qreach cfg s \<Longrightarrow> perform oper s = Some s' \<Longrightarrow> qreach cfg s'"
| others: "qreach cfg (q, w, W) \<Longrightarrow> qreach cfg (q, w', W')"

inductive_cases qreach_cases: "qreach cfg s"

lemma Enqueue_refused:
  "priority \<noteq> 0 \<Longrightarrow> \<not> Priority_on (q_cfg q) \<Longrightarrow>
     Enqueue q w W body priority delay = (q, w, W, Inl ErrPriorityDisabled)"
  by (simp add: Enqueue_def)

lemma Enqueue_inv:
  assumes "qinv q" and "Enqueue q w W body priority delay = (q', w', W', res)"
  shows "qinv q' \<and> q_cfg q' = q_cfg q"
proof (cases "priority = 0 \<or> Priority_on (q_cfg q)")
  case True
  then show ?thesis using Enqueue_spec(1,3) [OF assms(1) True assms(2)] by simp
next
  case False
  then show ?thesis using Enqueue_refused [of priority q] assms by simp
qed

lemma perform_step:
  assumes inv: "qinv q"
  shows "\<exists>q' w' W'. perform oper (q, w, W) = Some (q', w', W') \<and> qinv q' \<and> q_cfg q' = q_cfg q"
proof (cases oper)
  case (DoEnqueue body priority delay)
  obtain q' w' W' r where e: "Enqueue q w W body priority delay = (q', w', W', r)" by (metis prod_cases4)
  then show ?thesis using Enqueue_inv [OF inv e] DoEnqueue by (simp add: perform_def)
next
  case (DoReceive limit visibility)
  obtain q' w' W' res xs q2 w2 W2 where t: "tryReceive q w W limit visibility = Some (q', w', W', q_wake q, res)"
    "qinv q'" "advance_run (q, w, W) (nows W (now_i W)) xs (q2, w2, W2)"
    "rest (q'\<lparr>q_leases := q_leases q2, q_delivered := q_delivered q2\<rparr>) = rest q2"
    using tryReceive_spec [OF inv, of w W limit visibility] by blast
  have "q_cfg q' = q_cfg q" using t(3) rest_sel(1) [OF t(4)] by (simp add: advance_run_def)
  then show ?thesis using t(1,2) DoReceive by (simp add: perform_def)
next
  case (DoAck receipt)
  show ?thesis
  proof (cases "q_leases q receipt")
    case None
    then show ?thesis using no_lease(1) [OF None] inv DoAck by (simp add: perform_def)
  next
    case (Some p)
    then obtain q' w' W' res where "Ack q w W receipt = Some (q', w', W', res)" "qinv q'"
      "q_cfg q' = q_cfg q"
      using Ack_spec [OF inv Some, of w W] by blast
    then show ?thesis using DoAck by (simp add: perform_def)
  qed
next
  case (DoExtend receipt visibility)
  show ?thesis
  proof (cases "q_leases q receipt")
    case None
    then show ?thesis using no_lease(3) [OF None] inv DoExtend by (simp add: perform_def)
  next
    case (Some p)
    obtain q' W' t where e: "Extend q W receipt visibility = Some (q', W', Inr t)" "qinv q'" "rest q' = rest q"
      using Extend_spec [OF inv Some refl, of W visibility] by blast
    show ?thesis using DoExtend e(1,2) rest_sel(1) [OF e(3)] by (simp add: perform_def)
  qed
next
  case (DoNack receipt delay)
  show ?thesis
  proof (cases "q_leases q receipt")
    case None
    then show ?thesis using no_lease(2) [OF None] inv DoNack by (simp add: perform_def)
  next
    case (Some p)
    obtain q' w' W' res where "Nack q w W receipt delay = Some (q', w', W', res)" "qinv q'" "q_cfg q' = q_cfg q"
      using Nack_spec [OF inv Some, of w W delay] by blast
    then show ?thesis using DoNack by (simp add: perform_def)
  qed
next
  case (DoTick now)
  obtain q' w' W' xs where "advanceLocked q w W now = Some (q', w', W')" "advance_run (q, w, W) now xs (q', w', W')"
    using advanceLocked_spec [OF inv] by blast
  then show ?thesis using DoTick by (simp add: perform_def Tick_def advance_run_def)
next
  case DoReplayDLQ
  obtain q' w' W' k r where e: "ReplayDLQ q w W = (q', w', W', k, r)" by (metis prod_cases5)
  then show ?thesis using ReplayDLQ_spec(1,5) [OF inv e] DoReplayDLQ by (simp add: perform_def)
qed

lemma qreach_inv: "qreach cfg s \<Longrightarrow> qinv (fst s) \<and> q_cfg (fst s) = q_cfg (New cfg)"
proof (induction rule: qreach.induct)
  case (operated s oper s')
  then show ?case using perform_step [of "fst s" oper "fst (snd s)" "snd (snd s)"] by auto
qed (simp_all add: New_spec)

section \<open>Cores\<close>

definition allm :: "aqueue \<Rightarrow> msg multiset" where
  "allm A = a_ready A + a_delayed A + a_inflight A + mset (a_dlq A)"

definition core :: "msg \<Rightarrow> string \<times> string \<times> int \<times> u64 \<times> gotime" where
  "core m = (ID m, Body m, Priority m, Seq m, EnqueuedAt m)"

definition cores :: "aqueue \<Rightarrow> (string \<times> string \<times> int \<times> u64 \<times> gotime) multiset" where
  "cores A = image_mset core (allm A)"

lemma core_simps [simp]:
  "core (m\<lparr>VisibleAt := t\<rparr>) = core m" "core (m\<lparr>Attempts := a\<rparr>) = core m" "core (m\<lparr>Receipt := r\<rparr>) = core m"
  "core (m\<lparr>LeaseExpiry := t\<rparr>) = core m" "core (released m) = core m" "core (leased t m r) = core m"
  "core (revived t m) = core m" "core (strip m) = core m"
  by (simp_all add: core_def released_def leased_def revived_def)

lemma cores_gate [simp]: "cores (gate now m A) = add_mset (core m) (cores A)"
  by (simp add: cores_def allm_def gate_def)

lemma cores_retry:
  "cores (retry_spec cfg now d ok m A) = (if ok \<or> dead cfg m then add_mset (core m) (cores A) else cores A)"
  by (simp add: retry_spec_def) (simp add: cores_def allm_def)

text \<open>A run of retries puts back every message but the ones the log refused and that are not dead.\<close>

definition dropped :: "Config \<Rightarrow> (msg \<times> bool) list \<Rightarrow> msg multiset" where
  "dropped cfg xs = mset (map fst (filter (\<lambda>(m, ok). \<not> ok \<and> \<not> dead cfg (released m)) xs))"

lemma cores_retries:
  "cores (fold (\<lambda>(m, ok). retry_spec cfg now 0 ok (released m)) xs A) + image_mset core (dropped cfg xs) =
     cores A + image_mset core (mset (map fst xs))"
proof (induction xs arbitrary: A)
  case (Cons x xs)
  obtain m ok where x: "x = (m, ok)" by fastforce
  show ?case using Cons.IH [of "retry_spec cfg now 0 ok (released m) A"]
    by (auto simp: x dropped_def cores_retry)
qed (simp add: dropped_def)

lemma image_filter_split:
  "image_mset f (filter_mset P A) + image_mset f (filter_mset (\<lambda>x. \<not> P x) A) = image_mset f A"
  by (metis image_mset_union multiset_partition)

lemma cores_advance:
  assumes "mset (map fst xs) = filter_mset (\<lambda>m. LeaseExpiry m \<le> now) (a_inflight A)"
  shows "cores (advance cfg now xs A) + image_mset core (dropped cfg xs) = cores A"
proof -
  let ?due = "\<lambda>m. Ready m now" and ?ex = "\<lambda>m. LeaseExpiry m \<le> now"
  have "cores (A\<lparr>a_ready := a_ready A + filter_mset ?due (a_delayed A),
      a_delayed := filter_mset (\<lambda>m. \<not> ?due m) (a_delayed A),
      a_inflight := filter_mset (\<lambda>m. \<not> ?ex m) (a_inflight A)\<rparr>) + image_mset core (filter_mset ?ex (a_inflight A)) =
    cores A"
    using image_filter_split [of core ?due "a_delayed A"] image_filter_split [of core ?ex "a_inflight A"]
    by (simp add: cores_def allm_def) (simp add: ac_simps)
  then show ?thesis unfolding advance_def cores_retries assms by simp
qed

lemma dropped_none: "\<forall>x \<in> set xs. snd x \<Longrightarrow> dropped cfg xs = {#}"
  by (auto simp: dropped_def filter_empty_conv)

lemma advance_run_cores:
  assumes "advance_run (q, w, W) now xs (q', w', W')"
  shows "cores (abs q') + image_mset core (dropped (q_cfg q) xs) = cores (abs q)"
    and "q_walErr q' = None \<Longrightarrow> cores (abs q') = cores (abs q)"
proof -
  have r: "mset (map fst xs) = filter_mset (\<lambda>m. LeaseExpiry m \<le> now) (a_inflight (abs q))"
    "abs q' = advance (q_cfg q) now xs (abs q)" "q_walErr q' = None \<longrightarrow> (\<forall>x \<in> set xs. snd x)"
    using assms by (simp_all add: advance_run_def)
  show c: "cores (abs q') + image_mset core (dropped (q_cfg q) xs) = cores (abs q)"
    using cores_advance [OF r(1)] r(2) by simp
  show "q_walErr q' = None \<Longrightarrow> cores (abs q') = cores (abs q)"
    using c r(3) dropped_none by fastforce
qed

lemma received_cores:
  assumes "received q limit t res q'"
  shows "cores (abs q') = cores (abs q)"
proof (cases res)
  case (Inr out)
  then obtain ms rs where r: "front (orderBy (Mode_of (q_cfg q))) (nat limit) (a_ready (abs q)) ms" "length rs = length ms"
    "abs q' = (abs q)\<lparr>a_ready := a_ready (abs q) - mset ms,
       a_inflight := mset (map2 (leased t) ms rs) + a_inflight (abs q)\<rparr>"
    using assms by (auto simp: received_def)
  have "map core (map2 (leased t) ms rs) = map core ms"
    using r(2) by (induction ms rs rule: list_induct2') auto
  then have "image_mset core (mset (map2 (leased t) ms rs)) = image_mset core (mset ms)"
    by (metis mset_map)
  moreover have "a_ready (abs q) = (a_ready (abs q) - mset ms) + mset ms"
    using r(1) by (simp add: front_def)
  then have "image_mset core (a_ready (abs q)) = image_mset core (a_ready (abs q) - mset ms) + image_mset core (mset ms)"
    by (metis image_mset_union)
  ultimately show ?thesis using r(3) by (simp add: cores_def allm_def ac_simps)
qed (use assms in \<open>simp add: received_def\<close>)

end
