(* ===== verification/FQ_Examples.thy ===== *)
theory FQ_Examples
  imports FQ_Queue_Hist
begin

text \<open>
  Concrete inputs for the witnesses: a JSON codec given by a finite table of records, a world
  with a working disk, a log in it, and a queue that has been used.
\<close>

section \<open>A codec from a table\<close>

fun position :: "'a \<Rightarrow> 'a list \<Rightarrow> nat option" where
  "position x [] = None"
| "position x (y # ys) = (if x = y then Some 0 else map_option Suc (position x ys))"

lemma position_Some: "position x ys = Some i \<Longrightarrow> i < length ys \<and> ys ! i = x"
  by (induction ys arbitrary: i) (auto split: if_splits)

text \<open>A record of the table is encoded as its position, counted from one, in a single byte.\<close>

definition table :: "wal_record list \<Rightarrow> codec" where
  "table rs = \<lparr>
     marshal = (\<lambda>r. map_option (\<lambda>i. [of_nat (Suc i)]) (position (wire r) rs)),
     unmarshal = (\<lambda>b. case b of
         [k] \<Rightarrow> if 0 < unat k \<and> unat k \<le> length rs then Some (rs ! (unat k - 1)) else None
       | _ \<Rightarrow> None)\<rparr>"

lemma table_ok: "length rs < 256 \<Longrightarrow> codec_ok (table rs)"
  by (auto simp: codec_ok_def table_def unsigned_of_nat take_bit_nat_eq_self dest!: position_Some
      simp del: of_nat_Suc)

text \<open>
  The same with the write time spelled out in eight bytes: every record of the table, written
  at whatever time, can be encoded.
\<close>

definition put_time :: "int \<Rightarrow> byte list" where
  "put_time t = PutUint32 (of_int (t div 2 ^ 32)) @ PutUint32 (of_int t)"

definition get_time :: "byte list \<Rightarrow> int" where
  "get_time b = sint (Uint32 (take 4 b)) * 2 ^ 32 + uint (Uint32 (drop 4 b))"

lemma get_put_time:
  assumes "int64_range t"
  shows "get_time (put_time t) = t"
proof -
  have "- (2 ^ 31) \<le> t div 2 ^ 32" "t div 2 ^ 32 < 2 ^ 31" using assms by (auto simp: int64_range_def)
  then have "sint (of_int (t div 2 ^ 32) :: u32) = t div 2 ^ 32"
    by (simp add: sint_uint signed_take_bit_int_eq_self uint_word_of_int_eq signed_take_bit_take_bit)
  moreover have "uint (of_int t :: u32) = t mod 2 ^ 32" by (simp add: uint_word_of_int)
  moreover have "get_time (put_time t) = sint (of_int (t div 2 ^ 32) :: u32) * 2 ^ 32 + uint (of_int t :: u32)"
    using Uint32_PutUint32 [of _ "[]"] by (simp add: get_time_def put_time_def)
  ultimately show ?thesis by simp
qed

definition clocked :: "wal_record list \<Rightarrow> codec" where
  "clocked rs = \<lparr>
     marshal = (\<lambda>r. if int64_range (rAt r)
       then map_option (\<lambda>i. of_nat (Suc i) # put_time (rAt r)) (position (norm r) rs) else None),
     unmarshal = (\<lambda>b. case b of
         [] \<Rightarrow> None
       | k # t \<Rightarrow> if 0 < unat k \<and> unat k \<le> length rs then Some ((rs ! (unat k - 1))\<lparr>rAt := get_time t\<rparr>) else None)\<rparr>"

lemma clocked_ok: "length rs < 256 \<Longrightarrow> codec_ok (clocked rs)"
  by (auto simp: codec_ok_def clocked_def unsigned_of_nat take_bit_nat_eq_self get_put_time norm_def wire_def
      dest!: position_Some simp del: of_nat_Suc split: if_splits)

lemma position_in: "x \<in> set ys \<Longrightarrow> \<exists>i. position x ys = Some i"
  by (induction ys) auto

lemma clocked_encodable: "norm r \<in> set rs \<Longrightarrow> encodable (clocked rs) r"
  using position_in [of "norm r" rs]
  by (auto simp: encodable_def encode_def clocked_def put_time_def maxRecord_def)

section \<open>A world and a log\<close>

definition ex_world :: "codec \<Rightarrow> world" where
  "ex_world c = \<lparr>json = c, nows = (\<lambda>n. 1000 + int n), now_i = 0, rnds = (\<lambda>n i. of_nat n), rnd_i = 0,
     ios = (\<lambda>_. IOok), io_i = 0, files = (\<lambda>_. []), stable = (\<lambda>_. []), opened = (\<lambda>i. i = 0),
     dir = (\<lambda>p. if p = ''q.wal'' then Some 0 else None), next_ino = 1\<rparr>"

definition ex_wal :: wal where
  "ex_wal = \<lparr>w_f = 0, w_path = ''q.wal'', w_size = 0, w_epoch = 0, w_retired = [], w_failed = None,
     w_syncEvery = 0, w_dirty = False, w_stop = False, w_closed = False\<rparr>"

lemma ex_wal_ok: "wal_ok ex_wal (ex_world c)"
  by (simp add: wal_ok_def handle_ok_def fs_ok_def ex_wal_def ex_world_def logbytes_def)

text \<open>A codec that encodes every record as the same byte: the log accepts all of them.\<close>

definition any_codec :: codec where
  "any_codec = \<lparr>marshal = (\<lambda>r. Some [1]), unmarshal = (\<lambda>b. None)\<rparr>"

section \<open>A queue in use\<close>

definition ex_cfg :: Config where
  "ex_cfg = \<lparr>Name = ''jobs'', Mode_of = FIFO, Priority_on = True, MaxAttempts = 2, VisibilityTimeoutMS = 1\<rparr>"

text \<open>
  A queue with two ready messages, one delayed, one in flight under the receipt \<^verbatim>\<open>r1\<close> and
  one dead letter, and the log and world it may be used with.
\<close>

definition ex_msg :: "string \<Rightarrow> int \<Rightarrow> u64 \<Rightarrow> gotime \<Rightarrow> int \<Rightarrow> msg" where
  "ex_msg i pr sq vis ix = zero_msg\<lparr>ID := i, Body := ''work'', Priority := pr, Seq := sq, VisibleAt := vis,
     EnqueuedAt := 7, index := ix\<rparr>"

definition ex_mem :: mem where
  "ex_mem = (\<lambda>_. zero_msg)(
     0 := ex_msg ''m1'' 5 2 10 0, 1 := ex_msg ''m2'' 0 1 10 1, 2 := ex_msg ''m3'' 0 3 5000 0,
     3 := (ex_msg ''m4'' 0 4 10 0)\<lparr>Attempts := 1, Receipt := ''r1'', LeaseExpiry := 900\<rparr>,
     4 := (ex_msg ''m5'' 0 5 10 (-1))\<lparr>Attempts := 2\<rparr>)"

definition ex_queue :: queue where
  "ex_queue = (New ex_cfg)\<lparr>q_mem := ex_mem, q_next := 5, q_seq := 5,
     q_ready := \<lparr>items = [0, 1], less = orderBy FIFO\<rparr>, q_delayed := \<lparr>items = [2], less = byVisibleAt\<rparr>,
     q_inflight := \<lparr>items = [3], less = byLeaseExpiry\<rparr>, q_leases := (\<lambda>r. if r = ''r1'' then Some 3 else None),
     q_dlq := [4]\<rparr>"

lemma ex_queue_sel [simp]:
  "q_mem ex_queue = ex_mem" "q_next ex_queue = 5" "q_seq ex_queue = 5"
  "q_ready ex_queue = \<lparr>items = [0, 1], less = orderBy FIFO\<rparr>"
  "q_delayed ex_queue = \<lparr>items = [2], less = byVisibleAt\<rparr>"
  "q_inflight ex_queue = \<lparr>items = [3], less = byLeaseExpiry\<rparr>" "q_dlq ex_queue = [4]"
  "q_leases ex_queue r = (if r = ''r1'' then Some 3 else None)" "q_cfg ex_queue = ex_cfg" "q_walErr ex_queue = None"
  by (simp_all add: ex_queue_def New_def ex_cfg_def FIFO_def)

lemma ex_queue_inv: "qinv ex_queue"
proof -
  have p: "parent 1 = 0" by (simp add: parent_def)
  have "heap_inv ex_mem \<lparr>items = [0, 1], less = orderBy FIFO\<rparr>"
    using p by (auto simp: heap_inv_def idx_ok_def ordered_def keys_def ex_mem_def ex_msg_def orderBy_def less_Suc_eq)
  moreover have "heap_inv ex_mem \<lparr>items = [2], less = byVisibleAt\<rparr>" "heap_inv ex_mem \<lparr>items = [3], less = byLeaseExpiry\<rparr>"
    by (auto simp: heap_inv_def idx_ok_def ordered_def ex_mem_def ex_msg_def)
  moreover have "apart {#4, 3, 2, 0, 1#} 5" by (auto simp: apart_def)
  ultimately have "hold [] ex_queue" by (simp add: hold_def refs_def ex_cfg_def)
  moreover have "lease_ok ex_queue" by (simp add: lease_ok_def ex_mem_def ex_msg_def)
  ultimately show ?thesis by (simp add: qinv_def)
qed

lemma ex_queue_abs:
  "abs ex_queue = \<lparr>a_ready = {#strip (ex_mem 0), strip (ex_mem 1)#}, a_delayed = {#strip (ex_mem 2)#},
     a_inflight = {#strip (ex_mem 3)#}, a_dlq = [strip (ex_mem 4)]\<rparr>"
  by (simp add: abs_def val_def)

lemma qreach_start: "qreach ex_cfg (New ex_cfg, ex_wal, ex_world any_codec)"
  by (rule qreach.created)

end
