(* ===== verification/FQ_Heap_Props.thy ===== *)
theory FQ_Heap_Props
  imports FQ_Examples
begin

text \<open>
  The properties of the indexed heap, \<^verbatim>\<open>src/queue/heaps.go\<close> under \<^verbatim>\<open>container/heap\<close>, for the
  three comparators the queue uses.
\<close>

text \<open>A heap of a queue: it is ordered by the delivery order or by one of the two clocks.\<close>

definition queue_heap :: "msgHeap \<Rightarrow> bool" where
  "queue_heap h \<longleftrightarrow> (\<exists>mode. less h = orderBy mode) \<or> less h = byVisibleAt \<or> less h = byLeaseExpiry"

lemma queue_heap_cases [elim]:
  assumes "queue_heap h"
  obtains (ready) mode where "less h = orderBy mode" | (delayed) "less h = byVisibleAt"
    | (inflight) "less h = byLeaseExpiry"
  using assms by (auto simp: queue_heap_def)

lemma heap_push:
  assumes "queue_heap h" and "heap_inv M h" and "p \<notin> set (items h)" and "heap_Push M h p = (M', h')"
  shows "put M h p M' h'"
  using assms(1)
proof (cases rule: queue_heap_cases)
  case (ready mode)
  then show ?thesis using ready_order.heap_Push_put assms(2-4) by blast
next
  case delayed
  then show ?thesis using delay_order.heap_Push_put assms(2-4) by blast
next
  case inflight
  then show ?thesis using lease_order.heap_Push_put assms(2-4) by blast
qed

lemma ex_heap: "queue_heap (q_ready ex_queue)" "heap_inv ex_mem (q_ready ex_queue)"
  "queue_heap (q_inflight ex_queue)" "heap_inv ex_mem (q_inflight ex_queue)"
  using hold_heaps [of "[]" ex_queue] ex_queue_inv by (auto simp: qinv_def queue_heap_def)

lemma heap_pop:
  assumes "queue_heap h" and "heap_inv M h" and "peek h = Some m"
  shows "\<exists>M' h'. heap_Pop M h = Some (M', h', m) \<and> took M h m M' h' \<and>
    (\<forall>r \<in> set (items h). \<not> less h (M r) (M m))"
  using assms(1)
proof (cases rule: queue_heap_cases)
  case (ready mode)
  then show ?thesis
    using ready_order.heap_Pop_took [OF assms(2) ready assms(3)]
      ready_order.peek_least [OF assms(2) ready assms(3)] by auto
next
  case delayed
  then show ?thesis
    using delay_order.heap_Pop_took [OF assms(2) delayed assms(3)]
      delay_order.peek_least [OF assms(2) delayed assms(3)] by auto
next
  case inflight
  then show ?thesis
    using lease_order.heap_Pop_took [OF assms(2) inflight assms(3)]
      lease_order.peek_least [OF assms(2) inflight assms(3)] by auto
qed

lemma heap_remove:
  assumes "queue_heap h" and "heap_inv M h" and "p \<in> set (items h)"
  shows "\<exists>M' h'. heap_Remove M h (index (M p)) = Some (M', h', p) \<and> took M h p M' h'"
proof -
  obtain i where i: "i < length (items h)" "p = items h ! i" using assms(3) by (metis in_set_conv_nth)
  have ix: "index (M p) = int i" using assms(2) i by (simp add: heap_inv_def idx_ok_def)
  from assms(1) show ?thesis
  proof (cases rule: queue_heap_cases)
    case (ready mode)
    then show ?thesis using ready_order.heap_Remove_took [OF assms(2) ready i(1)] i ix by simp
  next
    case delayed
    then show ?thesis using delay_order.heap_Remove_took [OF assms(2) delayed i(1)] i ix by simp
  next
    case inflight
    then show ?thesis using lease_order.heap_Remove_took [OF assms(2) inflight i(1)] i ix by simp
  qed
qed

text \<open>
  C36: the heap operations do what they are for, on each of the three heaps of a queue. Pushing
  adds exactly the message; popping returns the root, which no other message precedes, and
  takes exactly it out; removing through the cached index of a message takes out exactly that
  message, wherever it sits. All three keep the heap order and every cached index right, and
  none panics.
\<close>

theorem heap_operations_correct:
  assumes "queue_heap h" and "heap_inv M h"
  shows "(p \<notin> set (items h) \<longrightarrow> (case heap_Push M h p of (M', h') \<Rightarrow> put M h p M' h')) \<and>
    (peek h = Some m \<longrightarrow> (\<exists>M' h'. heap_Pop M h = Some (M', h', m) \<and> took M h m M' h' \<and>
       (\<forall>r \<in> set (items h). \<not> less h (M r) (M m)))) \<and>
    (r \<in> set (items h) \<longrightarrow> (\<exists>M' h'. heap_Remove M h (index (M r)) = Some (M', h', r) \<and> took M h r M' h'))"
  using heap_push [OF assms] heap_pop [OF assms] heap_remove [OF assms] by (auto split: prod.split)

theorem heap_operations_correct_witness:
  "(\<exists>M' h'. heap_Pop ex_mem (q_ready ex_queue) = Some (M', h', 0) \<and> took ex_mem (q_ready ex_queue) 0 M' h') \<and>
   (\<exists>M' h'. heap_Remove ex_mem (q_ready ex_queue) (index (ex_mem 1)) = Some (M', h', 1) \<and> took ex_mem (q_ready ex_queue) 1 M' h') \<and>
   (case heap_Push ex_mem (q_ready ex_queue) 2 of (M', h') \<Rightarrow> put ex_mem (q_ready ex_queue) 2 M' h')"
  using heap_operations_correct [OF ex_heap(1,2), of 2 0 1] by (auto simp: peek_def split: prod.splits)

end
