(* ===== verification/FQ_Log_Props.thy ===== *)
theory FQ_Log_Props
  imports FQ_Examples
begin

text \<open>
  The properties of the write ahead log, \<^verbatim>\<open>src/queue/wal.go\<close>: what is written can be read
  back, a torn tail is cut off and nothing else, an append has one of three outcomes, a
  latched failure is final, compaction is all or nothing, and an acknowledged record
  survives a crash.
\<close>

section \<open>Reading back\<close>

text \<open>The bytes of a sequence of records.\<close>

fun encode_all :: "codec \<Rightarrow> wal_record list \<Rightarrow> byte list result" where
  "encode_all c [] = Inr []"
| "encode_all c (r # rs) =
     (case encode c r of
        Inl e \<Rightarrow> Inl e
      | Inr buf \<Rightarrow> (case encode_all c rs of Inl e \<Rightarrow> Inl e | Inr bufs \<Rightarrow> Inr (buf @ bufs)))"

lemma encode_all_parse:
  "encode_all c rs = Inr bs \<Longrightarrow> codec_ok c \<Longrightarrow> parse (unmarshal c) bs = (map wire rs, [])"
proof (induction rs arbitrary: bs)
  case (Cons r rs)
  then obtain buf bufs where e: "encode c r = Inr buf" "encode_all c rs = Inr bufs" "bs = buf @ bufs"
    by (auto split: sum.splits)
  then show ?case
    using encode_ok [OF e(1) Cons.prems(2)] Cons.IH [OF e(2) Cons.prems(2)] parse_frame by fastforce
qed simp

text \<open>
  C10: scanning the bytes of any sequence of records hands the callback exactly these records
  in their order (the log's own epoch records apart) and ends cleanly. If the bytes of one
  more record follow that were cut off anywhere inside it, the callback sees the same
  records and the scan reports a corrupt record at the offset where the cut one starts:
  a torn write is never taken for a record.
\<close>

theorem scan_reads_back:
  assumes c: "codec_ok c" and rs: "encode_all c rs = Inr bs" and r: "encode c r = Inr buf"
    and m: "0 < m" "m < length buf"
  shows "scan_loop (unmarshal c) (\<lambda>r off s. (s @ [r], None)) bs False 0 ep [] =
      (epoch_after ep (map wire rs), data (map wire rs), ScanEOF) \<and>
    (\<exists>reason. scan_loop (unmarshal c) (\<lambda>r off s. (s @ [r], None)) (bs @ take m buf) False 0 ep [] =
      (epoch_after ep (map wire rs), data (map wire rs), ScanFail (length bs) reason))"
proof -
  have p: "parse (unmarshal c) bs = (map wire rs, [])" by (rule encode_all_parse [OF rs c])
  have fd: "fold (\<lambda>r s. s @ [r]) xs ys = ys @ xs" for xs ys :: "wal_record list"
    by (induction xs arbitrary: ys) auto
  obtain body where b: "buf = frame body" "body_ok (unmarshal c) body (wire r)" using encode_ok [OF r c] by blast
  have "parse (unmarshal c) (take m buf) = ([], take m buf)" using parse_torn [OF b(2)] b(1) m by simp
  then have t: "parse (unmarshal c) (bs @ take m buf) = (map wire rs, take m buf)" using parse_append [OF p] by simp
  show ?thesis
    using scan_loop_parse [OF p, of "\<lambda>r s. s @ [r]" False 0 ep "[]"]
      scan_loop_parse [OF t, of "\<lambda>r s. s @ [r]" False 0 ep "[]"] m
    by (auto simp: fd)
qed

text \<open>Two records, their codec, and a log that holds nothing yet.\<close>

definition ex_rec :: wal_record where
  "ex_rec = (enq_rec ''jobs'' (strip (ex_mem 0)))\<lparr>rAt := 1\<rparr>"

definition ex_ack :: wal_record where
  "ex_ack = (id_rec OpAck ''jobs'' ''m1'')\<lparr>rAt := 2\<rparr>"

definition ex_table :: codec where
  "ex_table = table [ex_rec, ex_ack]"

lemma ex_table_ok: "codec_ok ex_table"
  by (simp add: ex_table_def table_ok)

lemma ex_records: "wire ex_rec = ex_rec" "wire ex_ack = ex_ack" "ex_rec \<noteq> ex_ack" "rAt ex_rec \<noteq> 0" "rAt ex_ack \<noteq> 0"
  by (simp_all add: ex_rec_def ex_ack_def enq_rec_def id_rec_def zero_record_def wire_def)

lemma ex_encode: "encode ex_table ex_rec = Inr (frame [1])" "encode ex_table ex_ack = Inr (frame [2])"
  using ex_records by (simp_all add: encode_def ex_table_def table_def maxRecord_def)

theorem scan_reads_back_witness:
  "\<exists>reason. scan_loop (unmarshal ex_table) (\<lambda>r off s. (s @ [r], None)) (frame [1] @ take 3 (frame [2])) False 0 0 [] =
     (0, [ex_rec], ScanFail 9 reason)"
proof -
  have "encode_all ex_table [ex_rec] = Inr (frame [1])" using ex_encode by simp
  moreover have "data [ex_rec] = [ex_rec]" "epoch_after 0 [ex_rec] = 0" "length (frame [1]) = 9"
    by (simp_all add: data_def ex_rec_def enq_rec_def recHeader_def)
  ultimately show ?thesis
    using scan_reads_back [OF ex_table_ok, of "[ex_rec]" "frame [1]" ex_ack "frame [2]" 3 0] ex_encode ex_records
    by (simp add: recHeader_def)
qed

section \<open>Recovery\<close>

text \<open>
  C25: recovering a log hands the callback every intact record from the start of the file,
  cuts the file off after the last of them, and leaves a log that holds exactly these
  records; what is discarded is only the unreadable tail.
\<close>

theorem recover_repairs:
  assumes "handle_ok w W" and "w_size w = length (files W (w_f w))" and "ios W (io_i W) = IOok"
    and "parse (unmarshal (json W)) (files W (w_f w)) = (rs, t)"
    and "Recover w W (\<lambda>r off s. (s @ [r], None)) [] = (w', W', seen, res)"
  shows "seen = data rs \<and>
    (res = Inr () \<longrightarrow> wal_ok w' W' \<and> history w' W' = map norm rs \<and>
       files W' (w_f w') @ t = files W (w_f w) \<and> w_size w' = length (files W' (w_f w')))"
proof -
  have fd: "fold (\<lambda>r s. s @ [r]) xs ys = ys @ xs" for xs ys :: "wal_record list"
    by (induction xs arbitrary: ys) auto
  note sp = Recover_spec [OF assms(1,2,4,3,5)]
  have "wal_ok w' W' \<and> history w' W' = map norm rs \<and> files W' (w_f w') @ t = files W (w_f w) \<and>
      w_size w' = length (files W' (w_f w'))" if "res = Inr ()"
  proof -
    have r: "recovered_to w W rs t w' W'" using sp that by blast
    then have f: "w_f w' = w_f w" by (simp add: recovered_to_def) (metis wal.select_convs(1) wal.surjective wal.update_convs(3,4))
    have "take (w_size w') (files W' (w_f w)) = files W' (w_f w)" "w_size w' \<le> length (files W' (w_f w))"
      using r f by (simp_all add: recovered_to_def logbytes_def wal_ok_def)
    then show ?thesis using r f by (simp add: recovered_to_def logbytes_def take_all_iff)
  qed
  then show ?thesis using sp fd by auto
qed

text \<open>A file with one record and three bytes of another.\<close>

definition ex_torn :: world where
  "ex_torn = (ex_world ex_table)\<lparr>files := (\<lambda>_. frame [1] @ take 3 (frame [2]))\<rparr>"

definition ex_torn_wal :: wal where
  "ex_torn_wal = ex_wal\<lparr>w_size := 12\<rparr>"

lemma ex_torn_parse:
  "parse (unmarshal (json ex_torn)) (files ex_torn (w_f ex_torn_wal)) = ([ex_rec], take 3 (frame [2]))"
proof -
  have "body_ok (unmarshal ex_table) [1] ex_rec" "body_ok (unmarshal ex_table) [2] ex_ack"
    by (simp_all add: body_ok_def ex_table_def table_def maxRecord_def)
  from parse_frame [OF this(1)] parse_torn [OF this(2), of 3] show ?thesis
    by (simp add: ex_torn_def ex_torn_wal_def ex_wal_def ex_world_def recHeader_def)
qed

theorem recover_repairs_witness:
  "\<exists>w' W'. Recover ex_torn_wal ex_torn (\<lambda>r off s. (s @ [r], None)) [] = (w', W', [ex_rec], Inr ()) \<and>
     wal_ok w' W' \<and> history w' W' = [norm ex_rec] \<and> files W' (w_f w') = frame [1]"
proof -
  have h: "handle_ok ex_torn_wal ex_torn" "w_size ex_torn_wal = length (files ex_torn (w_f ex_torn_wal))"
    "ios ex_torn (io_i ex_torn) = IOok"
    by (simp_all add: handle_ok_def fs_ok_def ex_torn_wal_def ex_torn_def ex_wal_def ex_world_def recHeader_def)
  obtain reason where "scan_loop (unmarshal ex_table) (\<lambda>r off s. (s @ [r], None)) (frame [1] @ take 3 (frame [2]))
      False 0 0 [] = (epoch_after 0 [ex_rec], data [ex_rec], ScanFail 9 reason)"
  proof -
    have l: "length (frame [2]) = 9" "length (frame [1]) = 9" by (simp_all add: recHeader_def)
    have f: "files ex_torn (w_f ex_torn_wal) = frame [1] @ take 3 (frame [2])" "json ex_torn = ex_table"
      by (simp_all add: ex_torn_def ex_torn_wal_def ex_wal_def ex_world_def)
    have ne: "take 3 (frame [2]) \<noteq> []" by (simp add: frame_def PutUint32_def)
    have d: "data [ex_rec] = [ex_rec]" by (simp add: data_def ex_rec_def enq_rec_def)
    show thesis
      using scan_loop_parse [OF ex_torn_parse [unfolded f], of "\<lambda>r s. s @ [r]" False 0 0 "[]"] ne l that
      by (auto simp: d simp del: epoch_after.simps)
  qed
  then obtain w' W' s where r: "Recover ex_torn_wal ex_torn (\<lambda>r off s. (s @ [r], None)) [] = (w', W', s, Inr ())"
    by (auto simp: Recover_def scan_def os_read_def draw_def FQ_Wal.truncate_def os_Truncate_def os_Sync_def Let_def
        ex_torn_def ex_torn_wal_def ex_wal_def ex_world_def recHeader_def)
  have "data [ex_rec] = [ex_rec]" by (simp add: data_def ex_rec_def enq_rec_def)
  then show ?thesis
    using recover_repairs [OF h ex_torn_parse r] r by (simp add: ex_torn_def ex_torn_wal_def ex_wal_def)
qed

section \<open>Appending\<close>

text \<open>
  C26: an append that reports success has added exactly its record to what a restart reads; one
  that reports an error has added nothing, except that when forcing the file to disk
  failed the record may be there, and then the log is latched as failed.
\<close>

theorem append_outcome:
  assumes "wal_ok w W" and "codec_ok (json W)" and "wal_write w W r d = (w', W', res)"
  shows "wal_ok w' W' \<and>
    (case res of
       Inr _ \<Rightarrow> history w' W' = history w W @ [norm r] \<and> w_failed w = None \<and> w_failed w' = None
     | Inl _ \<Rightarrow> history w' W' = history w W \<and> w_failed w' = w_failed w \<or>
                history w' W' = history w W @ [norm r] \<and> w_failed w' \<noteq> None)"
  using wal_write_step [OF assms] by (auto simp: write_step_def split: sum.split)

lemma stamp_done: "rAt r \<noteq> 0 \<Longrightarrow> stamp r W = (r, W)"
  by (simp add: stamp_def)

lemma append_success:
  assumes "w_failed w = None" and "opened W (w_f w)" and "reliable W" and "encode (json W) (fst (stamp r W)) = Inr buf"
  shows "\<exists>w' W'. wal_write w W r d = (w', W', Inr ()) \<and> w_failed w' = None \<and> w_f w' = w_f w"
proof -
  obtain r1 W0 where st: "stamp r W = (r1, W0)" by fastforce
  obtain k where W0: "W0 = W\<lparr>now_i := now_i W + k\<rparr>" using stamp_world [OF st] by blast
  have "reliable W0" "opened W0 (w_f w)" "json W0 = json W" using assms(2,3) W0 by (simp_all add: reliable_def)
  then show ?thesis
    using assms(1,4) st
    by (auto simp: wal_write_def os_WriteAt_def os_Sync_def reliable_def draw_def Let_def)
qed

theorem append_outcome_witness:
  "\<exists>w' W'. wal_write ex_wal (ex_world ex_table) ex_rec True = (w', W', Inr ()) \<and>
     history w' W' = [norm ex_rec] \<and> w_failed w' = None"
proof -
  have "reliable (ex_world ex_table)" "opened (ex_world ex_table) (w_f ex_wal)" "w_failed ex_wal = None"
    "encode (json (ex_world ex_table)) (fst (stamp ex_rec (ex_world ex_table))) = Inr (frame [1])"
    using ex_encode(1) stamp_done [OF ex_records(4)] by (simp_all add: ex_world_def ex_wal_def reliable_def)
  from append_success [OF this(3,2,1,4), of True]
  obtain w' W' where a: "wal_write ex_wal (ex_world ex_table) ex_rec True = (w', W', Inr ())" by blast
  have "history ex_wal (ex_world ex_table) = []" by (simp add: history_def logbytes_def ex_wal_def)
  then show ?thesis
    using append_outcome [OF ex_wal_ok _ a] ex_table_ok a by (simp add: ex_world_def)
qed

text \<open>The outcomes of a sequence of appends.\<close>

fun append_results :: "wal \<Rightarrow> world \<Rightarrow> (wal_record \<times> bool) list \<Rightarrow> unit result list" where
  "append_results w W [] = []"
| "append_results w W ((r, d) # rds) =
     (case wal_write w W r d of (w', W', res) \<Rightarrow> res # append_results w' W' rds)"

text \<open>
  Once a failure is latched, no sequence of appends writes a byte or is acknowledged, and
  the latch stays: a restart reads what it would have read before.
\<close>

lemma latched_log_refuses:
  assumes "w_failed w = Some e" and "wal_writes w W rds = (w', W')"
  shows "w' = w \<and> files W' = files W \<and> list_all isl (append_results w W rds)"
  using assms(2)
proof (induction rds arbitrary: W)
  case (Cons rd rds)
  obtain r d where rd: "rd = (r, d)" by fastforce
  obtain w1 W1 res where wr: "wal_write w W r d = (w1, W1, res)" by (metis prod_cases3)
  have a: "w1 = w" "files W1 = files W" "isl res" using wal_write_refused [OF assms(1) wr] by auto
  then show ?case using Cons.IH [of W1] Cons.prems rd wr by simp
qed simp

section \<open>Surviving a crash\<close>

text \<open>
  C4: with the default setting (no group commit) a record whose durable append was
  acknowledged, and every record before it, is read back after a crash, whatever was
  appended in between and whatever the crash left of the bytes not yet forced to disk.
\<close>

theorem acknowledged_survives_crash:
  assumes ok: "wal_ok w W" and c: "codec_ok (json W)" and sy: "w_syncEvery w \<le> 0"
    and ap: "AppendSync w W r = (w1, W1, Inr ())" and more: "wal_writes w1 W1 rds = (w2, W2)"
    and cr: "crash_image W2 (w_f w2) img"
  shows "\<exists>rs rest. fst (parse (unmarshal (json W)) img) = rs @ rest \<and> map norm rs = history w W @ [norm r]"
proof -
  have wr: "wal_write w W r True = (w1, W1, Inr ())" using ap by (simp add: AppendSync_def)
  have d0: "durable_upto w W 0" by (simp add: durable_upto_def)
  have d1: "durable_upto w1 W1 (w_size w1)" using wal_write_durable(2) [OF ok d0 wr] sy by simp
  have st: "write_step w W r w1 W1 (Inr ())" by (rule wal_write_step [OF ok c wr])
  have ok1: "wal_ok w1 W1" "json W1 = json W" "history w1 W1 = history w W @ [norm r]"
    using st by (simp_all add: write_step_def same_env_def)
  have d2: "durable_upto w2 W2 (w_size w1)" "w_f w2 = w_f w1" "json W2 = json W1"
    "take (w_size w1) (files W2 (w_f w1)) = take (w_size w1) (files W1 (w_f w1))"
    using wal_writes_durable [OF ok1(1) _ d1 more] c ok1(2) by simp_all
  obtain rs where "map norm rs = history w1 W1" "\<exists>more. fst (parse (unmarshal (json W1)) img) = rs @ more"
    using crash_keeps_prefix [OF ok1(1) d1 cr d2(1) refl d2(2,3)] d2(2,4) by auto
  then show ?thesis using ok1(2,3) by auto
qed

theorem acknowledged_survives_crash_witness:
  "\<exists>w1 W1 rs rest. AppendSync ex_wal (ex_world ex_table) ex_rec = (w1, W1, Inr ()) \<and>
     fst (parse (unmarshal ex_table) (files W1 0)) = rs @ rest \<and> map norm rs = [norm ex_rec]"
proof -
  have h: "reliable (ex_world ex_table)" "opened (ex_world ex_table) (w_f ex_wal)" "w_failed ex_wal = None"
    "encode (json (ex_world ex_table)) (fst (stamp ex_rec (ex_world ex_table))) = Inr (frame [1])"
    "codec_ok (json (ex_world ex_table))" "w_syncEvery ex_wal \<le> 0" "json (ex_world ex_table) = ex_table"
    using ex_encode(1) stamp_done [OF ex_records(4)] ex_table_ok by (simp_all add: ex_world_def ex_wal_def reliable_def)
  obtain w1 W1 where a: "AppendSync ex_wal (ex_world ex_table) ex_rec = (w1, W1, Inr ())" and f: "w_f w1 = 0"
    using append_success [OF h(3,2,1,4), of True] by (auto simp: AppendSync_def ex_wal_def)
  have "crash_image W1 (w_f w1) (files W1 (w_f w1))" by (simp add: crash_image_def)
  from acknowledged_survives_crash [OF ex_wal_ok h(5,6) a _ this, of "[]"]
  show ?thesis using a f h(7) by (simp add: history_def logbytes_def ex_wal_def)
qed

section \<open>Compaction\<close>

text \<open>
  A compaction that succeeds replaces the log by one that holds exactly the records handed
  to it behind a record of the next epoch, all of it on disk, while the file it replaced
  stays open and unchanged for scans that are still reading it.
\<close>

lemma compaction_replaces:
  assumes "wal_ok w W" and "codec_ok (json W)" and "wal_Compact w W recs = (w', W', Inr ())"
  shows "wal_ok w' W' \<and> history w' W' = norm (epoch_record (w_epoch w + 1)) # map norm recs \<and>
    w_epoch w' = w_epoch w + 1 \<and> stable W' (w_f w') = logbytes w' W' \<and>
    w_retired w' = w_retired w @ [w_f w] \<and> files W' (w_f w) = files W (w_f w) \<and> opened W' (w_f w)"
  using wal_Compact_ok [OF assms] by (simp add: compacted_def)

text \<open>
  A compaction that fails, at whatever step, leaves every record of the log readable
  through the handle the log keeps using; if it failed after the rename, the log is latched
  as failed, so that nothing is acknowledged into the orphaned file.
\<close>

lemma compaction_failure_is_safe:
  assumes "wal_ok w W" and "wal_Compact w W recs = (w', W', Inl e)"
  shows "w_f w' = w_f w \<and> w_size w' = w_size w \<and> w_epoch w' = w_epoch w \<and> history w' W' = history w W \<and>
    (w_failed w' = None \<longrightarrow> wal_ok w' W')"
proof -
  have "json W' = json W" "files W' (w_f w) = files W (w_f w)"
    "w' = w \<and> spares (w_f w) (w_path w) W W' \<or> w' = w\<lparr>w_failed := Some e\<rparr>"
    using wal_Compact_fail [OF assms] by (auto simp: compact_failed_def spares_def same_env_def)
  then show ?thesis
    using assms(1) spares_wal_ok(1) [of w W W'] by (auto simp: history_def logbytes_def)
qed

text \<open>A compaction of the empty log to one record, on a disk that works and on one where renaming fails.\<close>

definition ex_epoch :: wal_record where
  "ex_epoch = (epoch_record 1)\<lparr>rAt := UnixNano 1000\<rparr>"

lemmas ex_compact_defs = wal_Compact_def ex_wal_def ex_world_def os_OpenFile_def draw_def stamp_def time_Now_def
  encode_def table_def maxRecord_def os_WriteAt_def os_Sync_def os_Close_def os_Rename_def os_Remove_def
  os_sync_dir_def epoch_record_def zero_record_def Let_def

lemma ex_epoch_wire: "wire ex_epoch = ex_epoch" "ex_epoch \<noteq> ex_rec"
  by (simp_all add: ex_epoch_def epoch_record_def zero_record_def wire_def ex_rec_def enq_rec_def)

lemma ex_compact:
  "\<exists>w' W'. wal_Compact ex_wal (ex_world (table [ex_epoch, ex_rec])) [ex_rec] = (w', W', Inr ())"
  using ex_epoch_wire ex_records by (simp add: ex_compact_defs ex_epoch_def)

lemma ex_compact_fails:
  "\<exists>w' W'. wal_Compact ex_wal ((ex_world (table [ex_epoch, ex_rec]))\<lparr>ios := (\<lambda>n. if n = 5 then IOfail 0 else IOok)\<rparr>)
     [ex_rec] = (w', W', Inl (ErrOS ''rename''))"
  using ex_epoch_wire ex_records by (simp add: ex_compact_defs ex_epoch_def)

text \<open>
  C27: a compaction replaces the log or leaves it. One that succeeds leaves a log that holds
  exactly the records handed to it behind a record of the next epoch, all of it on disk, while
  the file it replaced stays open and unchanged for scans that are still reading it. One that
  fails, at whatever step, leaves every record of the log readable through the handle the log
  keeps using; if it failed after the rename, the log is latched as failed, so that nothing is
  acknowledged into the orphaned file.
\<close>

theorem compaction_all_or_nothing:
  assumes "wal_ok w W" and "codec_ok (json W)" and "wal_Compact w W recs = (w', W', res)"
  shows "case res of
      Inr _ \<Rightarrow> wal_ok w' W' \<and> history w' W' = norm (epoch_record (w_epoch w + 1)) # map norm recs \<and>
        w_epoch w' = w_epoch w + 1 \<and> stable W' (w_f w') = logbytes w' W' \<and>
        w_retired w' = w_retired w @ [w_f w] \<and> files W' (w_f w) = files W (w_f w) \<and> opened W' (w_f w)
    | Inl e \<Rightarrow> w_f w' = w_f w \<and> w_size w' = w_size w \<and> w_epoch w' = w_epoch w \<and> history w' W' = history w W \<and>
        (w_failed w' = None \<longrightarrow> wal_ok w' W')"
  using compaction_replaces [OF assms(1,2)] compaction_failure_is_safe [OF assms(1)] assms(3) by (auto split: sum.split)

theorem compaction_all_or_nothing_witness:
  "(\<exists>w' W'. wal_Compact ex_wal (ex_world (table [ex_epoch, ex_rec])) [ex_rec] = (w', W', Inr ()) \<and>
      history w' W' = [norm (epoch_record 1), norm ex_rec] \<and> w_epoch w' = 1) \<and>
   (\<exists>w' W'. wal_Compact ex_wal ((ex_world (table [ex_epoch, ex_rec]))\<lparr>ios := (\<lambda>n. if n = 5 then IOfail 0 else IOok)\<rparr>)
      [ex_rec] = (w', W', Inl (ErrOS ''rename'')) \<and> history w' W' = [] \<and> w_epoch w' = 0)"
proof
  let ?W = "ex_world (table [ex_epoch, ex_rec])"
  have c: "codec_ok (json ?W)" by (simp add: ex_world_def table_ok)
  obtain w' W' where r: "wal_Compact ex_wal ?W [ex_rec] = (w', W', Inr ())" using ex_compact by blast
  from compaction_all_or_nothing [OF ex_wal_ok c r] r
  show "\<exists>w' W'. wal_Compact ex_wal ?W [ex_rec] = (w', W', Inr ()) \<and> history w' W' = [norm (epoch_record 1), norm ex_rec] \<and> w_epoch w' = 1"
    by (auto simp: ex_wal_def)
  let ?V = "?W\<lparr>ios := (\<lambda>n. if n = 5 then IOfail 0 else IOok)\<rparr>"
  obtain w2 W2 where f: "wal_Compact ex_wal ?V [ex_rec] = (w2, W2, Inl (ErrOS ''rename''))" using ex_compact_fails by blast
  have v: "wal_ok ex_wal ?V" by (simp add: wal_ok_def handle_ok_def fs_ok_def ex_wal_def ex_world_def logbytes_def)
  have d: "codec_ok (json ?V)" using c by simp
  from compaction_all_or_nothing [OF v d f] f
  show "\<exists>w' W'. wal_Compact ex_wal ?V [ex_rec] = (w', W', Inl (ErrOS ''rename'')) \<and> history w' W' = [] \<and> w_epoch w' = 0"
    by (auto simp: ex_wal_def history_def logbytes_def)
qed

end
