(* ===== verification/FQ_Queue_Props.thy ===== *)
theory FQ_Queue_Props
  imports FQ_Examples
begin

text \<open>
  The properties of a single queue, \<^verbatim>\<open>src/queue/queue.go\<close>: the invariant of every reachable
  state, the refinement of the abstract queue, delivery order, the two clocks, leases,
  dead letters, conservation, statistics and the long poll.
\<close>

section \<open>The invariant\<close>

text \<open>
  C6: in every state a queue can reach, whatever the log and the clock do, the three heaps are
  well formed, no message is in two places, every lease names an inflight message that
  carries its receipt, and no operation panics on a stale heap index.
\<close>

theorem queue_invariant:
  assumes "qreach cfg (q, w, W)"
  shows "qinv q \<and> (\<forall>oper. perform oper (q, w, W) \<noteq> None)"
proof -
  have "qinv q" using qreach_inv [OF assms] by simp
  then show ?thesis using perform_step [of q _ w W] by (metis option.distinct(1))
qed

theorem queue_invariant_witness:
  "qinv (New ex_cfg) \<and> (\<forall>oper. perform oper (New ex_cfg, ex_wal, ex_world any_codec) \<noteq> None)"
  using queue_invariant [OF qreach_start] .

section \<open>Refinement of the abstract queue\<close>

text \<open>
  The abstract machine: bags of messages and a list of dead letters, with one rule for each
  thing that can happen to them.
\<close>

inductive astep :: "Config \<Rightarrow> aqueue \<Rightarrow> aqueue \<Rightarrow> bool" for cfg where
  stay: "astep cfg A A"
| arrive: "Attempts m = 0 \<Longrightarrow> Receipt m = '''' \<Longrightarrow> LeaseExpiry m = zero_time \<Longrightarrow> Priority m = 0 \<or> Priority_on cfg \<Longrightarrow>
    astep cfg A (gate now m A)"
| clocks: "mset (map fst xs) = filter_mset (\<lambda>m. LeaseExpiry m \<le> now) (a_inflight A) \<Longrightarrow>
    sorted (map (LeaseExpiry \<circ> fst) xs) \<Longrightarrow> astep cfg A (advance cfg now xs A)"
| lease: "mset (map fst xs) = filter_mset (\<lambda>m. LeaseExpiry m \<le> now) (a_inflight A) \<Longrightarrow>
    sorted (map (LeaseExpiry \<circ> fst) xs) \<Longrightarrow> B = advance cfg now xs A \<Longrightarrow>
    front (orderBy (Mode_of cfg)) n (a_ready B) ms \<Longrightarrow> length rs = length ms \<Longrightarrow>
    astep cfg A (B\<lparr>a_ready := a_ready B - mset ms, a_inflight := mset (map2 (leased t) ms rs) + a_inflight B\<rparr>)"
| finish: "m \<in># a_inflight A \<Longrightarrow> astep cfg A (A\<lparr>a_inflight := a_inflight A - {#m#}\<rparr>)"
| prolong: "m \<in># a_inflight A \<Longrightarrow>
    astep cfg A (A\<lparr>a_inflight := add_mset (m\<lparr>LeaseExpiry := t\<rparr>) (a_inflight A - {#m#})\<rparr>)"
| give_back: "m \<in># a_inflight A \<Longrightarrow>
    astep cfg A (retry_spec cfg now d ok (released m) (A\<lparr>a_inflight := a_inflight A - {#m#}\<rparr>))"
| revive: "k \<le> length (a_dlq A) \<Longrightarrow>
    astep cfg A (A\<lparr>a_ready := mset (map (revived now) (take k (a_dlq A))) + a_ready A, a_dlq := drop k (a_dlq A)\<rparr>)"

lemma Enqueue_astep:
  assumes "qinv q" and "Enqueue q w W body priority delay = (q', w', W', res)"
  shows "astep (q_cfg q) (abs q) (abs q')"
proof (cases "priority = 0 \<or> Priority_on (q_cfg q)")
  case True
  show ?thesis
  proof (cases res)
    case (Inl e)
    then show ?thesis using Enqueue_spec(5) [OF assms(1) True assms(2)] by (auto intro: astep.intros)
  next
    case (Inr m)
    then have m: "strip m = fresh_msg q W body priority delay" "abs q' = gate (nows W (now_i W)) (strip m) (abs q)"
      using Enqueue_spec(5) [OF assms(1) True assms(2)] by simp_all
    show ?thesis unfolding m(2) m(1) using True by (intro astep.arrive) (simp_all add: fresh_msg_def zero_msg_def)
  qed
next
  case False
  then show ?thesis using Enqueue_refused [of priority q] assms by (auto intro: astep.intros)
qed

lemma received_astep:
  assumes "advance_run (q, w, W) now xs (q2, w2, W2)" and "received q2 limit t res q'"
  shows "astep (q_cfg q) (abs q) (abs q')"
proof -
  have a: "mset (map fst xs) = filter_mset (\<lambda>m. LeaseExpiry m \<le> now) (a_inflight (abs q))"
    "sorted (map (LeaseExpiry \<circ> fst) xs)" "abs q2 = advance (q_cfg q) now xs (abs q)" "q_cfg q2 = q_cfg q"
    using assms(1) by (simp_all add: advance_run_def)
  show ?thesis
  proof (cases res)
    case (Inl e)
    then show ?thesis using a assms(2) astep.clocks [OF a(1,2)] by (simp add: received_def)
  next
    case (Inr out)
    then obtain ms rs where m: "front (orderBy (Mode_of (q_cfg q))) (nat limit) (a_ready (abs q2)) ms"
      "length rs = length ms" "abs q' = (abs q2)\<lparr>a_ready := a_ready (abs q2) - mset ms,
         a_inflight := mset (map2 (leased t) ms rs) + a_inflight (abs q2)\<rparr>"
      using assms(2) a(4) by (auto simp: received_def)
    show ?thesis unfolding m(3) by (rule astep.lease [OF a(1,2,3) m(1,2)])
  qed
qed

lemma perform_astep:
  assumes "qinv q" and "perform oper (q, w, W) = Some (q', w', W')"
  shows "astep (q_cfg q) (abs q) (abs q')"
proof (cases oper)
  case (DoEnqueue body priority delay)
  then obtain r where "Enqueue q w W body priority delay = (q', w', W', r)"
    using assms(2) by (auto simp: perform_def split: prod.splits)
  then show ?thesis by (rule Enqueue_astep [OF assms(1)])
next
  case (DoReceive limit visibility)
  then show ?thesis
    using tryReceive_spec [OF assms(1), of w W limit visibility] assms(2) received_astep
    by (fastforce simp: perform_def)
next
  case (DoAck receipt)
  then obtain r where r: "Ack q w W receipt = Some (q', w', W', r)" using assms(2) by (auto simp: perform_def)
  show ?thesis
    using Ack_spec [OF assms(1), of receipt _ w W] no_lease(1) [of q receipt w W] r
    by (cases "q_leases q receipt"; cases r) (auto intro: astep.intros)
next
  case (DoExtend receipt visibility)
  then obtain r where r: "Extend q W receipt visibility = Some (q', W', r)" using assms(2) by (auto simp: perform_def)
  show ?thesis
    using Extend_spec [OF assms(1) _ refl, of receipt _ W visibility w] no_lease(3) [of q receipt W] r
    by (cases "q_leases q receipt") (auto intro: astep.intros)
next
  case (DoNack receipt delay)
  then obtain r where r: "Nack q w W receipt delay = Some (q', w', W', r)" using assms(2) by (auto simp: perform_def)
  show ?thesis
    using Nack_spec [OF assms(1), of receipt _ w W delay] no_lease(2) [of q receipt w W] r
    by (cases "q_leases q receipt") (auto simp del: retry_spec_inflight(2) intro: astep.intros)
next
  case (DoTick now)
  then obtain xs where "advance_run (q, w, W) now xs (q', w', W')"
    using advanceLocked_spec [OF assms(1), of w W now] assms(2) by (auto simp: perform_def Tick_def)
  then show ?thesis using astep.clocks by (simp add: advance_run_def)
next
  case DoReplayDLQ
  then obtain k r where "ReplayDLQ q w W = (q', w', W', k, r)"
    using assms(2) by (auto simp: perform_def split: prod.splits)
  from ReplayDLQ_spec(2,4) [OF assms(1) this] show ?thesis using astep.revive by simp
qed



section \<open>Typing\<close>

text \<open>
  What the fields of a message may hold in each place: the attempts fit their 64 bits, a priority
  needs a queue that has them, and only a message in flight carries a receipt and an expiry.
\<close>

definition typed :: "Config \<Rightarrow> msg \<Rightarrow> bool" where
  "typed cfg m \<longleftrightarrow> int64_range (Attempts m) \<and> (Priority m = 0 \<or> Priority_on cfg)"

definition unleased :: "msg \<Rightarrow> bool" where
  "unleased m \<longleftrightarrow> Receipt m = '''' \<and> LeaseExpiry m = zero_time"

definition well_typed :: "Config \<Rightarrow> aqueue \<Rightarrow> bool" where
  "well_typed cfg A \<longleftrightarrow>
     (\<forall>m \<in># allm A. typed cfg m) \<and> (\<forall>m \<in># a_ready A + a_delayed A + mset (a_dlq A). unleased m)"

lemma typed_simps [simp]:
  "typed cfg (m\<lparr>VisibleAt := t\<rparr>) = typed cfg m" "typed cfg (m\<lparr>LeaseExpiry := t\<rparr>) = typed cfg m" "typed cfg (released m) = typed cfg m"
  "typed cfg m \<Longrightarrow> typed cfg (leased t m r)" "typed cfg m \<Longrightarrow> typed cfg (revived t m)"
  "unleased (released m)" "unleased (m\<lparr>VisibleAt := t\<rparr>) = unleased m" "unleased (revived t m) = unleased m"
  by (auto simp: typed_def unleased_def released_def leased_def revived_def wrap64_range int64_range_def [of 0])

lemma well_typed_gate: "well_typed cfg A \<Longrightarrow> typed cfg m \<Longrightarrow> unleased m \<Longrightarrow> well_typed cfg (gate now m A)"
  by (auto simp: well_typed_def gate_def allm_def)

lemma well_typed_retry: "well_typed cfg A \<Longrightarrow> typed cfg m \<Longrightarrow> well_typed cfg (retry_spec cfg' now d ok (released m) A)"
  by (auto simp: retry_spec_def well_typed_gate) (auto simp: well_typed_def allm_def)

lemma well_typed_retries:
  "well_typed cfg A \<Longrightarrow> (\<And>x. x \<in> set xs \<Longrightarrow> typed cfg (fst x)) \<Longrightarrow>
     well_typed cfg (fold (\<lambda>(m, ok). retry_spec cfg' now 0 ok (released m)) xs A)"
proof (induction xs arbitrary: A)
  case (Cons x xs)
  obtain m ok where x: "x = (m, ok)" by fastforce
  have "well_typed cfg (retry_spec cfg' now 0 ok (released m) A)" using Cons.prems(1) Cons.prems(2) [of x] x by (intro well_typed_retry) simp_all
  then show ?case using Cons.IH Cons.prems(2) x by simp
qed simp

lemma well_typed_advance:
  assumes "well_typed cfg A" and "mset (map fst xs) = filter_mset (\<lambda>m. LeaseExpiry m \<le> now) (a_inflight A)"
  shows "well_typed cfg (advance cfg' now xs A)"
proof -
  have "fst x \<in># a_inflight A" if "x \<in> set xs" for x
    using that assms(2) by (metis filter_mset_eq_conv image_eqI in_multiset_in_set list.set_map mset_subset_eqD multiset_filter_subset)
  then show ?thesis unfolding advance_def using assms(1)
    by (intro well_typed_retries) (auto simp: well_typed_def allm_def)
qed

lemma astep_well_typed: "astep cfg A A' \<Longrightarrow> well_typed cfg A \<Longrightarrow> well_typed cfg A'"
proof (induction rule: astep.induct)
  case (arrive m now A)
  then show ?case by (intro well_typed_gate) (auto simp: typed_def unleased_def int64_range_def)
next
  case (clocks xs now A)
  then show ?case by (intro well_typed_advance)
next
  case (lease xs now A B n ms rs t)
  have B: "well_typed cfg B" using lease.prems lease.hyps(1,3) well_typed_advance by blast
  have "mset ms \<subseteq># a_ready B" using lease.hyps(4) by (simp add: front_def)
  then have "typed cfg (leased t m r)" if "(m, r) \<in> set (zip ms rs)" for m r
    using that B set_zip_leftD [of m r ms rs] by (fastforce simp: well_typed_def allm_def dest: mset_subset_eqD)
  then show ?case using B by (auto simp: well_typed_def allm_def dest: in_diffD)
next
  case (give_back m A now d ok)
  then show ?case by (intro well_typed_retry) (auto simp: well_typed_def allm_def dest: in_diffD)
next
  case (revive k A now)
  then show ?case by (auto simp: well_typed_def allm_def dest!: in_set_takeD in_set_dropD)
qed (auto simp: well_typed_def allm_def dest: in_diffD)

text \<open>
  C17: every state a queue reaches is well typed. The attempts of every message are a 64-bit
  integer, a queue without priorities holds only messages of priority 0, and a message that is
  ready, delayed or a dead letter carries neither a receipt nor a lease.
\<close>

theorem queue_well_typed:
  assumes "qreach cfg (q, w, W)"
  shows "well_typed (q_cfg q) (abs q)"
proof -
  have "well_typed (q_cfg (fst s)) (abs (fst s))" if "qreach cfg s" for s
    using that
  proof (induction rule: qreach.induct)
    case (operated s oper s')
    obtain q w W q' w' W' where s: "s = (q, w, W)" "s' = (q', w', W')" by (metis prod_cases3)
    then have i: "qinv q" using qreach_inv [OF operated.hyps(1)] by simp
    have "q_cfg q' = q_cfg q" using perform_step [OF i, of oper w W] operated.hyps(2) s by auto
    then show ?case
      using perform_astep [OF i, of oper w W q' w' W'] astep_well_typed operated s by force
  qed (simp_all add: New_spec well_typed_def allm_def)
  from this [OF assms] show ?thesis by simp
qed

theorem queue_well_typed_witness:
  "\<exists>s'. perform (DoEnqueue ''a'' 5 0) (New ex_cfg, ex_wal, ex_world any_codec) = Some s' \<and> well_typed ex_cfg (abs (fst s'))"
proof -
  obtain q' w' W' where p: "perform (DoEnqueue ''a'' 5 0) (New ex_cfg, ex_wal, ex_world any_codec) = Some (q', w', W')" "q_cfg q' = q_cfg (New ex_cfg)"
    using perform_step [OF New_spec(1)] by blast
  then show ?thesis using queue_well_typed [OF qreach.operated [OF qreach_start p(1)]] by (simp add: New_def ex_cfg_def FIFO_def)
qed

section \<open>Delivery\<close>

lemma orderBy_leased [simp]:
  "orderBy mode (leased t m r) x = orderBy mode m x" "orderBy mode x (leased t m r) = orderBy mode x m"
  by (simp_all add: orderBy_def leased_def)

lemma orderBy_strip [simp]:
  "orderBy mode (strip m) x = orderBy mode m x" "orderBy mode x (strip m) = orderBy mode x m"
  by (simp_all add: orderBy_def)

lemma leased_sel [simp]:
  "LeaseExpiry (leased t m r) = t" "Receipt (leased t m r) = r" "VisibleAt (leased t m r) = VisibleAt m"
  "Attempts (leased t m r) = wrap64 (Attempts m + 1)" "ID (leased t m r) = ID m" "Seq (leased t m r) = Seq m"
  by (simp_all add: leased_def)

lemma sorted_map2_leased:
  "length rs = length ms \<Longrightarrow>
     sorted_wrt (\<lambda>a b. \<not> orderBy mode b a) (map2 (leased t) ms rs) = sorted_wrt (\<lambda>a b. \<not> orderBy mode b a) ms"
proof (induction ms rs rule: list_induct2')
  case (4 m ms r rs)
  have "set (map2 (leased t) ms rs) = (\<lambda>(m, r). leased t m r) ` set (zip ms rs)" by simp
  moreover have "fst ` set (zip ms rs) = set ms" using 4 by (metis Suc_inject length_Cons map_fst_zip set_map)
  ultimately show ?case using 4 by (fastforce simp: image_iff)
qed simp_all

lemma map_strip_set: "map strip xs = ys \<Longrightarrow> x \<in> set xs \<Longrightarrow> strip x \<in> set ys"
  by auto

text \<open>What a consumer sees of a successful attempt.\<close>

lemma received_out:
  assumes "received q limit t (Inr out) q'"
  shows "sorted_wrt (\<lambda>a b. \<not> orderBy (Mode_of (q_cfg q)) b a) out"
    and "length out = min (nat limit) (size (a_ready (abs q)))"
    and "\<forall>x \<in># a_ready (abs q'). \<forall>m \<in> set out. \<not> orderBy (Mode_of (q_cfg q)) x m"
    and "\<forall>m \<in> set out. LeaseExpiry m = t \<and> strip m \<in># a_inflight (abs q')"
proof -
  let ?lt = "orderBy (Mode_of (q_cfg q))"
  obtain ms rs where r: "front ?lt (nat limit) (a_ready (abs q)) ms" "length rs = length ms"
    "map strip out = map2 (leased t) ms rs" "abs q' = (abs q)\<lparr>a_ready := a_ready (abs q) - mset ms,
       a_inflight := mset (map2 (leased t) ms rs) + a_inflight (abs q)\<rparr>"
    using assms by (auto simp: received_def)
  have "sorted_wrt (\<lambda>a b. \<not> ?lt b a) (map strip out)"
    using r(1) unfolding r(3) sorted_map2_leased [OF r(2)] by (simp add: front_def)
  then show "sorted_wrt (\<lambda>a b. \<not> ?lt b a) out" by (simp add: sorted_wrt_map)
  have "length out = length ms" using r(2) arg_cong [OF r(3), of length] by simp
  then show "length out = min (nat limit) (size (a_ready (abs q)))" using r(1) by (simp add: front_def)
  have dom: "\<exists>m' \<in> set ms. \<exists>r'. strip m = leased t m' r'" if "m \<in> set out" for m
    using map_strip_set [OF r(3) that] by (auto dest: set_zip_leftD)
  have "\<not> ?lt x m" if x: "x \<in># a_ready (abs q')" and m: "m \<in> set out" for x m
  proof -
    obtain m' r' where m': "m' \<in> set ms" "strip m = leased t m' r'" using dom [OF m] by blast
    then have "\<not> ?lt x m'" using r(1,4) x by (auto simp: front_def)
    then show ?thesis using orderBy_leased(2) orderBy_strip(2) m'(2) by metis
  qed
  then show "\<forall>x \<in># a_ready (abs q'). \<forall>m \<in> set out. \<not> ?lt x m" by blast
  have "LeaseExpiry m = t" if m: "m \<in> set out" for m
  proof -
    obtain m' r' where "strip m = leased t m' r'" using dom [OF m] by blast
    then show ?thesis by (metis leased_sel(1) strip_sel(9))
  qed
  moreover have "strip m \<in># a_inflight (abs q')" if "m \<in> set out" for m
    using map_strip_set [OF r(3) that] r(4) by auto
  ultimately show "\<forall>m \<in> set out. LeaseExpiry m = t \<and> strip m \<in># a_inflight (abs q')" by blast
qed


lemma ex_good: "good_log ex_wal (ex_world c)"
  by (simp add: good_log_def ex_wal_def ex_world_def reliable_def)

lemma any_codec_encodable [simp]: "encodable any_codec r"
  by (simp add: encodable_def encode_def any_codec_def maxRecord_def)

lemma ex_world_json [simp]: "json (ex_world c) = c"
  by (simp add: ex_world_def)


section \<open>The two clocks\<close>

lemma retry_delayed: "a_delayed (retry_spec cfg now 0 ok m A) = a_delayed A"
  by (simp add: retry_spec_def gate_def Ready_def)

lemma retries_delayed:
  "a_delayed (fold (\<lambda>(m, ok). retry_spec cfg now 0 ok (released m)) xs A) = a_delayed A"
  by (induction xs arbitrary: A) (auto simp: retry_delayed)

lemma retries_inflight:
  "a_inflight (fold (\<lambda>(m, ok). retry_spec cfg now 0 ok (released m)) xs A) = a_inflight A"
  by (induction xs arbitrary: A) auto

lemma advance_clocks:
  "a_delayed (advance cfg now xs A) = filter_mset (\<lambda>m. \<not> Ready m now) (a_delayed A)"
  "a_inflight (advance cfg now xs A) = filter_mset (\<lambda>m. \<not> LeaseExpiry m \<le> now) (a_inflight A)"
  by (simp_all add: advance_def retries_delayed retries_inflight)

text \<open>
  C8: after the pump has run at a time, exactly the messages whose delay has not elapsed are
  delayed and exactly those whose lease is still running are in flight; unless an error of
  the log was latched, every message of the queue is still there, and on a disk that works
  none is as long as the records of the expired messages can be encoded.
\<close>

theorem tick_runs_clocks:
  assumes inv: "qinv q"
  shows "\<exists>q' w' W'. Tick q w W now = Some (q', w', W') \<and>
    a_delayed (abs q') = filter_mset (\<lambda>m. now < VisibleAt m) (a_delayed (abs q)) \<and>
    a_inflight (abs q') = filter_mset (\<lambda>m. now < LeaseExpiry m) (a_inflight (abs q)) \<and>
    (q_walErr q' = None \<longrightarrow> cores (abs q') = cores (abs q)) \<and>
    (good_log w W \<longrightarrow>
       (\<forall>m \<in># a_inflight (abs q). LeaseExpiry m \<le> now \<longrightarrow>
          encodable (json W) (retry_rec (q_cfg q) now 0 (released m))) \<longrightarrow> q_walErr q' = q_walErr q)"
proof -
  obtain q' w' W' xs where a: "advanceLocked q w W now = Some (q', w', W')" "advance_run (q, w, W) now xs (q', w', W')"
    using advanceLocked_spec [OF inv] by blast
  have r: "abs q' = advance (q_cfg q) now xs (abs q)" "unwritten (q_cfg q) w W now xs"
    "(\<forall>x \<in> set xs. snd x) \<longrightarrow> q_walErr q' = q_walErr q"
    "mset (map fst xs) = filter_mset (\<lambda>m. LeaseExpiry m \<le> now) (a_inflight (abs q))"
    using a(2) unfolding advance_run_def prod.case by blast+
  have "fst x \<in># filter_mset (\<lambda>m. LeaseExpiry m \<le> now) (a_inflight (abs q))" if "x \<in> set xs" for x
    using that unfolding r(4) [symmetric] by simp
  then have "good_log w W \<longrightarrow>
      (\<forall>m \<in># a_inflight (abs q). LeaseExpiry m \<le> now \<longrightarrow>
         encodable (json W) (retry_rec (q_cfg q) now 0 (released m))) \<longrightarrow> q_walErr q' = q_walErr q"
    using r(2,3) by (fastforce simp: unwritten_def)
  then show ?thesis using a(1) r(1) advance_run_cores(2) [OF a(2)]
    by (simp add: Tick_def advance_clocks Ready_def not_le)
qed

theorem tick_runs_clocks_witness:
  "\<exists>q' w' W'. Tick ex_queue ex_wal (ex_world any_codec) 6000 = Some (q', w', W') \<and>
     a_delayed (abs q') = {#} \<and> a_inflight (abs q') = {#} \<and> cores (abs q') = cores (abs ex_queue)"
  using tick_runs_clocks [OF ex_queue_inv, of ex_wal "ex_world any_codec" 6000] ex_good
  by (auto simp: ex_queue_abs ex_mem_def ex_msg_def)

text \<open>
  C28: once the pump has run at or after the expiry of a lease, the consumer that held it can
  neither acknowledge nor return nor extend the message: every use of its receipt is refused
  as having no lease (provided no other message in flight carries the same receipt).
\<close>

theorem expired_receipt_is_refused:
  assumes inv: "qinv q" and p: "q_leases q receipt = Some p" and ex: "LeaseExpiry (val q p) \<le> now"
    and un: "\<forall>m \<in># a_inflight (abs q). Receipt m = receipt \<longrightarrow> m = val q p"
    and tk: "Tick q w W now = Some (q', w', W')"
  shows "Ack q' w1 W1 receipt = Some (q', w1, W1, Inl ErrNoLease) \<and>
    Nack q' w1 W1 receipt delay = Some (q', w1, W1, Inl ErrNoLease) \<and>
    Extend q' W1 receipt visibility = Some (q', W1, Inl ErrNoLease)"
proof -
  obtain xs where a: "advance_run (q, w, W) now xs (q', w', W')"
    using advanceLocked_spec [OF inv, of w W now] tk by (auto simp: Tick_def)
  have i': "qinv q'" "a_inflight (abs q') = filter_mset (\<lambda>m. \<not> LeaseExpiry m \<le> now) (a_inflight (abs q))"
    using a by (simp_all add: advance_run_def advance_clocks)
  have "q_leases q' receipt = None"
  proof (cases "q_leases q' receipt")
    case (Some p')
    have "val q' p' \<in># a_inflight (abs q')" "Receipt (val q' p') = receipt"
      using lease_in [OF i'(1) Some] abs_in(3) by blast+
    then show ?thesis using i'(2) un ex by auto
  qed
  then show ?thesis using no_lease [of q' receipt] by simp
qed

theorem expired_receipt_is_refused_witness:
  "\<exists>q' w' W'. Tick ex_queue ex_wal (ex_world any_codec) 1000 = Some (q', w', W') \<and>
     Ack q' w' W' ''r1'' = Some (q', w', W', Inl ErrNoLease)"
proof -
  obtain q' w' W' where t: "Tick ex_queue ex_wal (ex_world any_codec) 1000 = Some (q', w', W')"
    using advanceLocked_spec [OF ex_queue_inv, of ex_wal "ex_world any_codec" 1000] by (auto simp: Tick_def)
  have "q_leases ex_queue ''r1'' = Some 3" "LeaseExpiry (val ex_queue 3) \<le> 1000"
    "\<forall>m \<in># a_inflight (abs ex_queue). Receipt m = ''r1'' \<longrightarrow> m = val ex_queue 3"
    by (simp_all add: val_def ex_mem_def ex_msg_def abs_def)
  from expired_receipt_is_refused [OF ex_queue_inv this t] t show ?thesis by blast
qed

end
