(* ===== verification/FQ_Lease_Props.thy ===== *)
theory FQ_Lease_Props
  imports FQ_Queue_Props
begin

text \<open>
  Properties of single messages of a queue: what happens to a message when it is enqueued,
  acknowledged, returned, extended or replayed, with the outcome of the log on every branch.
\<close>

section \<open>Enqueue\<close>

lemma wal_write_Inr: "wal_write w W r d = (w', W', Inr u) \<Longrightarrow> w_failed w' = None"
  by (auto simp: wal_write_def Let_def split: prod.splits sum.splits option.splits if_splits)

lemma Enqueue_logged:
  "Enqueue q w W body priority delay = (q', w', W', Inr m) \<Longrightarrow> w_failed w' = None"
  by (auto simp: Enqueue_def AppendSync_def Let_def dest: wal_write_Inr split: prod.splits sum.splits if_splits)

lemma Enqueue_good:
  assumes "priority = 0 \<or> Priority_on (q_cfg q)" and "good_log w W"
    and "Enqueue q w W body priority delay = (q', w', W', res)"
  shows "isl res \<Longrightarrow> \<not> encodable (json W) (enq_rec (Name (q_cfg q)) (fresh_msg q W body priority delay))"
proof -
  let ?W = "snd (newID (snd (time_Now W)))"
  have "good_log w ?W" "json ?W = json W" using assms(2) by (simp_all add: newID_def time_Now_def)
  moreover obtain rec r where "AppendSync w ?W rec = (w', W', r)" "isl r = isl res" "rAt rec = 0"
    "norm rec = norm (enq_rec (Name (q_cfg q)) (fresh_msg q W body priority delay))"
    using assms(1,3)
    by (auto simp: Enqueue_def Let_def enq_rec_def q_record_def fresh_msg_def norm_def wire_def zero_record_def time_Now_def newID_def
        split: prod.splits sum.splits if_splits)
  ultimately show "isl res \<Longrightarrow> ?thesis"
    using AppendSync_good [of w ?W rec] encodable_norm [of rec] by auto
qed

lemma fresh_gate:
  "gate (nows W (now_i W)) (fresh_msg q W body priority delay) A =
     (if delay \<le> 0 then A\<lparr>a_ready := add_mset (fresh_msg q W body priority delay) (a_ready A)\<rparr>
      else A\<lparr>a_delayed := add_mset (fresh_msg q W body priority delay) (a_delayed A)\<rparr>)"
  by (simp add: gate_def Ready_def fresh_msg_def)

lemma norm_enq_rec: "norm (enq_rec name (strip m)) = norm (enq_rec name m)"
  by (simp add: enq_rec_def norm_def wire_def)

text \<open>
  C31: an enqueue that succeeds has appended the message to the log before it shows up in the
  queue; the message carries the next sequence number, waits out exactly its delay, wakes the
  parked receivers, and everything else in the queue stays. An enqueue that fails leaves the
  contents of the queue alone. On a disk that works it fails only when the message cannot
  be encoded as a record.
\<close>

theorem enqueue_is_logged_first:
  assumes inv: "qinv q" and pri: "priority = 0 \<or> Priority_on (q_cfg q)"
    and ok: "wal_ok w W" "codec_ok (json W)"
  shows "\<exists>q' w' W' res. Enqueue q w W body priority delay = (q', w', W', res) \<and>
    q_seq q' = q_seq q + 1 \<and>
    (good_log w W \<longrightarrow> isl res \<longrightarrow>
       \<not> encodable (json W) (enq_rec (Name (q_cfg q)) (fresh_msg q W body priority delay))) \<and>
    (case res of
       Inl e \<Rightarrow> abs q' = abs q
     | Inr m \<Rightarrow> strip m = fresh_msg q W body priority delay \<and>
         history w' W' = history w W @ [norm (enq_rec (Name (q_cfg q)) m)] \<and>
         (if delay \<le> 0 then abs q' = (abs q)\<lparr>a_ready := add_mset (strip m) (a_ready (abs q))\<rparr>
          else abs q' = (abs q)\<lparr>a_delayed := add_mset (strip m) (a_delayed (abs q))\<rparr>) \<and>
         q_wake q' = Suc (q_wake q))"
proof -
  obtain q' w' W' res where e: "Enqueue q w W body priority delay = (q', w', W', res)" by (metis prod_cases4)
  note sp = Enqueue_spec [OF inv pri e]
  show ?thesis
  proof (cases res)
    case (Inl err)
    then show ?thesis using e sp(2,5) Enqueue_good [OF pri _ e] by auto
  next
    case (Inr m)
    then have m: "strip m = fresh_msg q W body priority delay" using sp(5) by simp
    have "history w' W' = history w W @ [norm (enq_rec (Name (q_cfg q)) (strip m))]"
      using sp(6) ok Enqueue_logged [of q w W body priority delay] e Inr m by (auto simp: grew_def logged_def)
    then show ?thesis using e Inr sp(2,5) m unfolding norm_enq_rec by (simp add: fresh_gate)
  qed
qed

definition ex_enq :: wal_record where
  "ex_enq = norm (enq_rec ''jobs'' (fresh_msg ex_queue (ex_world any_codec) ''x'' 1 0))"

lemma norm_norm [simp]: "norm (norm r) = norm r"
  by (simp add: norm_def wire_def option.map_comp comp_def)

theorem enqueue_is_logged_first_witness:
  "\<exists>q' w' W' m. Enqueue ex_queue ex_wal (ex_world (clocked [ex_enq])) ''x'' 1 0 = (q', w', W', Inr m) \<and>
     history w' W' = history ex_wal (ex_world (clocked [ex_enq])) @ [norm (enq_rec ''jobs'' m)] \<and>
     size (a_ready (abs q')) = 3"
proof -
  let ?W = "ex_world (clocked [ex_enq])"
  have f: "fresh_msg ex_queue ?W ''x'' 1 0 = fresh_msg ex_queue (ex_world any_codec) ''x'' 1 0"
    by (simp add: fresh_msg_def ex_world_def newID_def)
  have c: "codec_ok (json ?W)" by (simp add: clocked_ok)
  have p: "(1::int) = 0 \<or> Priority_on (q_cfg ex_queue)" by (simp add: ex_cfg_def)
  have en: "encodable (json ?W) (enq_rec (Name (q_cfg ex_queue)) (fresh_msg ex_queue ?W ''x'' 1 0))"
    unfolding f using clocked_encodable [of _ "[ex_enq]"] by (simp add: ex_enq_def ex_cfg_def)
  show ?thesis
    using enqueue_is_logged_first [OF ex_queue_inv p ex_wal_ok c, of "''x''" 0] en ex_good
    apply (elim exE conjE)
    subgoal for q' w' W' res by (cases res) (simp_all add: ex_queue_abs ex_cfg_def)
    done
qed

section \<open>Ack\<close>

lemma Ack_logged: "Ack q w W receipt = Some (q', w', W', Inr u) \<Longrightarrow> w_failed w' = None"
  by (auto simp: Ack_def AppendSync_def dest: wal_write_Inr split: option.splits prod.splits sum.splits)

text \<open>
  C32: acknowledging with a valid receipt either fails and changes nothing, so that the
  consumer may try again, or appends the acknowledgement to the log, takes exactly that
  message out of the queue and retires the receipt.
\<close>

theorem ack_is_final:
  assumes inv: "qinv q" and p: "q_leases q receipt = Some p" and ok: "wal_ok w W" "codec_ok (json W)"
  shows "\<exists>q' w' W' res. Ack q w W receipt = Some (q', w', W', res) \<and>
    (case res of
       Inl e \<Rightarrow> q' = q
     | Inr _ \<Rightarrow> val q p \<in># a_inflight (abs q) \<and> Receipt (val q p) = receipt \<and>
         abs q' = (abs q)\<lparr>a_inflight := a_inflight (abs q) - {#val q p#}\<rparr> \<and>
         history w' W' = history w W @ [norm (id_rec OpAck (Name (q_cfg q)) (ID (val q p)))] \<and>
         Ack q' w' W' receipt = Some (q', w', W', Inl ErrNoLease))"
proof -
  obtain q' w' W' res where a: "Ack q w W receipt = Some (q', w', W', res)"
    "grew (w, W) (logged (\<not> isl res) (id_rec OpAck (Name (q_cfg q)) (ID (val q p)))) (w', W')"
    "case res of Inl e \<Rightarrow> q' = q
     | Inr _ \<Rightarrow> val q p \<in># a_inflight (abs q) \<and>
         abs q' = (abs q)\<lparr>a_inflight := a_inflight (abs q) - {#val q p#}\<rparr> \<and>
         q_leases q' = (q_leases q)(receipt := None) \<and> q_acked q' = q_acked q + 1"
    using Ack_spec [OF inv p, of w W] by blast
  show ?thesis
  proof (cases res)
    case (Inr u)
    then have "q_leases q' receipt = None" using a(3) by simp
    moreover have "history w' W' = history w W @ [norm (id_rec OpAck (Name (q_cfg q)) (ID (val q p)))]"
      using a(2) Ack_logged [of q w W receipt] a(1) Inr ok by (auto simp: grew_def logged_def)
    ultimately show ?thesis using a(1,3) Inr no_lease(1) lease_in [OF inv p] by simp
  qed (use a in auto)
qed

theorem ack_is_final_witness:
  "\<exists>q' w' W' res. Ack ex_queue ex_wal (ex_world (table [])) ''r1'' = Some (q', w', W', res) \<and>
     (case res of Inl e \<Rightarrow> q' = ex_queue | Inr _ \<Rightarrow> a_inflight (abs q') = {#})"
proof -
  have "q_leases ex_queue ''r1'' = Some 3" "codec_ok (json (ex_world (table [])))"
    by (simp_all add: table_ok)
  from ack_is_final [OF ex_queue_inv this(1) ex_wal_ok this(2)] show ?thesis
    apply (elim exE conjE)
    subgoal for q' w' W' res by (cases res) (simp_all add: ex_queue_abs val_def)
    done
qed

section \<open>Nack\<close>

lemma cores_take:
  assumes "m \<in># a_inflight A"
  shows "cores A = add_mset (core m) (cores (A\<lparr>a_inflight := a_inflight A - {#m#}\<rparr>))"
proof -
  obtain B where "a_inflight A = add_mset m B" using assms by (metis insert_DiffM)
  then show ?thesis by (simp add: cores_def allm_def)
qed

lemma Nack_logged: "Nack q w W receipt delay = Some (q', w', W', Inr u) \<Longrightarrow> w_failed w' = None"
  by (auto simp: Nack_def retryLocked_def AppendSync_def Let_def dest: wal_write_Inr
      split: option.splits prod.splits sum.splits if_splits)

lemma gate_later:
  "gate now (m\<lparr>VisibleAt := now + delay\<rparr>) A =
     (if delay \<le> 0 then A\<lparr>a_ready := add_mset (m\<lparr>VisibleAt := now + delay\<rparr>) (a_ready A)\<rparr>
      else A\<lparr>a_delayed := add_mset (m\<lparr>VisibleAt := now + delay\<rparr>) (a_delayed A)\<rparr>)"
  by (simp add: gate_def Ready_def)

text \<open>
  C29: a message returned by its consumer loses its lease and, once the log has taken the
  record, is appended to the dead letters if it has used up its attempts and else becomes
  visible again after exactly the requested backoff; its attempt count is kept, the
  receivers are woken and the receipt is retired.
\<close>

theorem nack_retries_or_buries:
  assumes inv: "qinv q" and p: "q_leases q receipt = Some p" and ok: "wal_ok w W" "codec_ok (json W)"
    and now: "now = nows W (now_i W)" and m: "m = released (val q p)"
    and B: "B = (abs q)\<lparr>a_inflight := a_inflight (abs q) - {#val q p#}\<rparr>"
    and eq: "Nack q w W receipt delay = Some (q', w', W', Inr ())"
  shows "history w' W' = history w W @ [norm (retry_rec (q_cfg q) now delay m)] \<and>
    (if MaxAttempts (q_cfg q) > 0 \<and> Attempts m \<ge> MaxAttempts (q_cfg q)
     then abs q' = B\<lparr>a_dlq := a_dlq B @ [m]\<rparr>
     else if delay \<le> 0 then abs q' = B\<lparr>a_ready := add_mset (m\<lparr>VisibleAt := now + delay\<rparr>) (a_ready B)\<rparr>
     else abs q' = B\<lparr>a_delayed := add_mset (m\<lparr>VisibleAt := now + delay\<rparr>) (a_delayed B)\<rparr>) \<and>
    q_leases q' receipt = None \<and> q_wake q' = Suc (q_wake q)"
proof -
  have n: "abs q' = retry_spec (q_cfg q) now delay True m B" "q_leases q' = (q_leases q)(receipt := None)"
    "q_wake q' = Suc (q_wake q)" "grew (w, W) [retry_rec (q_cfg q) now delay m] (w', W')"
    using Nack_spec [OF inv p, of w W delay] eq by (auto simp: now m B logged_def)
  have "history w' W' = history w W @ [norm (retry_rec (q_cfg q) now delay m)]"
    using n(4) Nack_logged [OF eq] ok by (simp add: grew_def)
  then show ?thesis using n(1-3) by (simp add: retry_spec_def dead_def gate_later)
qed

definition ex_nack :: wal_record where
  "ex_nack = norm (retry_rec ex_cfg 1000 7 (released (val ex_queue 3)))"

theorem nack_retries_or_buries_witness:
  "\<exists>q' w' W'. Nack ex_queue ex_wal (ex_world (clocked [ex_nack])) ''r1'' 7 = Some (q', w', W', Inr ()) \<and>
     size (a_delayed (abs q')) = 2"
proof -
  let ?W = "ex_world (clocked [ex_nack])"
  have p: "q_leases ex_queue ''r1'' = Some 3" and c: "codec_ok (json ?W)" by (simp_all add: clocked_ok)
  have t: "nows ?W (now_i ?W) = 1000" by (simp add: ex_world_def)
  have e: "encodable (json ?W) (retry_rec (q_cfg ex_queue) (nows ?W (now_i ?W)) 7 (released (val ex_queue 3)))"
    using clocked_encodable [of _ "[ex_nack]"] unfolding t by (simp add: ex_nack_def)
  obtain q' w' W' res where n: "Nack ex_queue ex_wal ?W ''r1'' 7 = Some (q', w', W', res)" "\<not> isl res"
    using Nack_spec [OF ex_queue_inv p, of ex_wal ?W 7] e ex_good by blast
  then have n: "Nack ex_queue ex_wal ?W ''r1'' 7 = Some (q', w', W', Inr ())"
    using n by (cases res) simp_all
  have "\<not> (MaxAttempts (q_cfg ex_queue) > 0 \<and> Attempts (released (val ex_queue 3)) \<ge> MaxAttempts (q_cfg ex_queue))"
    by (simp add: ex_cfg_def val_def released_def ex_mem_def)
  with nack_retries_or_buries [OF ex_queue_inv p ex_wal_ok c refl refl refl n] have "size (a_delayed (abs q')) = 2"
    by (simp add: ex_queue_abs)
  then show ?thesis using n by blast
qed

text \<open>
  C39: when the log refuses the record of a return, a message that has used up its attempts
  is put back among the ready ones, but any other message is dropped: it is in none of the
  four places any more, although its lease is gone too.
\<close>

theorem nack_failure:
  assumes inv: "qinv q" and p: "q_leases q receipt = Some p"
    and eq: "Nack q w W receipt delay = Some (q', w', W', Inl e)"
  shows "q_leases q' receipt = None \<and>
    (if MaxAttempts (q_cfg q) > 0 \<and> Attempts (val q p) \<ge> MaxAttempts (q_cfg q)
     then cores (abs q') = cores (abs q) \<and>
       a_ready (abs q') = add_mset ((released (val q p))\<lparr>VisibleAt := nows W (now_i W)\<rparr>) (a_ready (abs q))
     else cores (abs q) = add_mset (core (val q p)) (cores (abs q')))"
proof -
  let ?B = "(abs q)\<lparr>a_inflight := a_inflight (abs q) - {#val q p#}\<rparr>"
  have n: "abs q' = retry_spec (q_cfg q) (nows W (now_i W)) delay False (released (val q p)) ?B"
    "q_leases q' = (q_leases q)(receipt := None)" "val q p \<in># a_inflight (abs q)"
    using Nack_spec [OF inv p, of w W delay] eq by auto
  have c: "cores (abs q) = add_mset (core (val q p)) (cores ?B)"
    by (rule cores_take [OF n(3)])
  have "dead (q_cfg q) (released (val q p)) \<longleftrightarrow>
      MaxAttempts (q_cfg q) > 0 \<and> Attempts (val q p) \<ge> MaxAttempts (q_cfg q)"
    by (simp add: dead_def released_def)
  moreover have "cores (abs q') = (if dead (q_cfg q) (released (val q p)) then add_mset (core (val q p)) (cores ?B) else cores ?B)"
    unfolding n(1) cores_retry by simp
  moreover have "a_ready (abs q') = add_mset ((released (val q p))\<lparr>VisibleAt := nows W (now_i W)\<rparr>) (a_ready (abs q))"
    if "dead (q_cfg q) (released (val q p))"
    using that n(1) by (simp add: retry_spec_def gate_def Ready_def)
  ultimately show ?thesis using n(2) c by auto
qed

theorem nack_failure_witness:
  "\<exists>q' w' W' e. Nack ex_queue (ex_wal\<lparr>w_failed := Some ErrMarshal\<rparr>) (ex_world any_codec) ''r1'' 7 =
       Some (q', w', W', Inl e) \<and>
     cores (abs ex_queue) = add_mset (core (val ex_queue 3)) (cores (abs q'))"
proof -
  let ?w = "ex_wal\<lparr>w_failed := Some ErrMarshal\<rparr>"
  have p: "q_leases ex_queue ''r1'' = Some 3" by simp
  obtain q' w' W' res where n: "Nack ex_queue ?w (ex_world any_codec) ''r1'' 7 = Some (q', w', W', res)" "isl res"
    using Nack_spec [OF ex_queue_inv p, of ?w "ex_world any_codec" 7] by auto
  then obtain e where e: "Nack ex_queue ?w (ex_world any_codec) ''r1'' 7 = Some (q', w', W', Inl e)"
    by (cases res) simp_all
  have "\<not> (MaxAttempts (q_cfg ex_queue) > 0 \<and> Attempts (val ex_queue 3) \<ge> MaxAttempts (q_cfg ex_queue))"
    by (simp add: ex_cfg_def val_def ex_mem_def)
  then show ?thesis using nack_failure [OF ex_queue_inv p e] e by auto
qed

section \<open>Extend\<close>

text \<open>
  C33: extending a lease always succeeds while the receipt is valid, changes nothing but the
  expiry of that one message, sets it to the requested time from now (the timeout of the
  queue when none is given), and keeps the receipt valid: the pump run at any earlier time
  leaves the message in flight.
\<close>

theorem extend_prolongs:
  assumes inv: "qinv q" and p: "q_leases q receipt = Some p"
    and t: "t = nows W (now_i W) + (if visibility \<le> 0 then Visibility (q_cfg q) else visibility)"
  shows "\<exists>q' W'. Extend q W receipt visibility = Some (q', W', Inr t) \<and>
    abs q' = (abs q)\<lparr>a_inflight := add_mset ((val q p)\<lparr>LeaseExpiry := t\<rparr>) (a_inflight (abs q) - {#val q p#})\<rparr> \<and>
    q_leases q' receipt = Some p \<and>
    (\<forall>now w1 W1 q2 w2 W2. now < t \<longrightarrow> Tick q' w1 W1 now = Some (q2, w2, W2) \<longrightarrow>
       (val q p)\<lparr>LeaseExpiry := t\<rparr> \<in># a_inflight (abs q2))"
proof -
  obtain q' W' where e: "Extend q W receipt visibility = Some (q', W', Inr t)" "qinv q'"
    "abs q' = (abs q)\<lparr>a_inflight := add_mset ((val q p)\<lparr>LeaseExpiry := t\<rparr>) (a_inflight (abs q) - {#val q p#})\<rparr>"
    "rest q' = rest q"
    using Extend_spec [OF inv p t] by blast
  have "(val q p)\<lparr>LeaseExpiry := t\<rparr> \<in># a_inflight (abs q2)"
    if n: "now < t" and tk: "Tick q' w1 W1 now = Some (q2, w2, W2)" for now w1 W1 q2 w2 W2
  proof -
    obtain xs where "advance_run (q', w1, W1) now xs (q2, w2, W2)"
      using advanceLocked_spec [OF e(2), of w1 W1 now] tk by (auto simp: Tick_def)
    then have "a_inflight (abs q2) = filter_mset (\<lambda>m. \<not> LeaseExpiry m \<le> now) (a_inflight (abs q'))"
      by (simp add: advance_run_def advance_clocks)
    then show ?thesis using n e(3) by simp
  qed
  then show ?thesis using e p rest_sel(4) [OF e(4)] by auto
qed

theorem extend_prolongs_witness:
  "\<exists>q' W'. Extend ex_queue (ex_world any_codec) ''r1'' 500 = Some (q', W', Inr 1500) \<and>
     q_leases q' ''r1'' = Some 3"
proof -
  have "q_leases ex_queue ''r1'' = Some 3"
    "1500 = nows (ex_world any_codec) (now_i (ex_world any_codec)) +
       (if (500::int) \<le> 0 then Visibility (q_cfg ex_queue) else 500)"
    by (simp_all add: ex_world_def)
  from extend_prolongs [OF ex_queue_inv this] show ?thesis by blast
qed

section \<open>Replaying dead letters\<close>

lemma ReplayDLQ_cores:
  assumes "qinv q" and "ReplayDLQ q w W = (q', w', W', n, r)"
  shows "cores (abs q') = cores (abs q)"
proof -
  note sp = ReplayDLQ_spec [OF assms]
  have "image_mset core (mset (map (revived t) ms)) = image_mset core (mset ms)" for t ms
    by (induction ms) simp_all
  moreover have "mset (take n (a_dlq (abs q))) + mset (drop n (a_dlq (abs q))) = mset (a_dlq (abs q))"
    by (metis append_take_drop_id mset_append)
  then have "image_mset core (mset (take n (a_dlq (abs q)))) + image_mset core (mset (drop n (a_dlq (abs q)))) =
      image_mset core (mset (a_dlq (abs q)))" by (metis image_mset_union)
  ultimately show ?thesis unfolding sp(4) by (simp add: cores_def allm_def del: mset_map)
qed

text \<open>
  C30: replaying the dead letters moves the oldest of them, in order and as many as the log
  accepts, back to the ready messages with a fresh attempt count and visible at once; it
  reports how many, keeps the others where they were, and loses none. It fails exactly when
  some are left.
\<close>

theorem replay_dlq_revives:
  assumes inv: "qinv q" and eq: "ReplayDLQ q w W = (q', w', W', n, r)"
  shows "n \<le> length (a_dlq (abs q)) \<and> (isl r \<longleftrightarrow> n < length (a_dlq (abs q))) \<and>
    a_dlq (abs q') = drop n (a_dlq (abs q)) \<and>
    a_ready (abs q') =
      mset (map (\<lambda>m. m\<lparr>Attempts := 0, VisibleAt := nows W (now_i W)\<rparr>) (take n (a_dlq (abs q)))) + a_ready (abs q) \<and>
    a_delayed (abs q') = a_delayed (abs q) \<and> a_inflight (abs q') = a_inflight (abs q) \<and>
    cores (abs q') = cores (abs q)"
proof -
  note sp = ReplayDLQ_spec [OF inv eq]
  have rv: "revived t = (\<lambda>m. m\<lparr>Attempts := 0, VisibleAt := t\<rparr>)" for t by (simp add: fun_eq_iff revived_def)
  show ?thesis using sp(2-4) ReplayDLQ_cores [OF assms] by (simp add: rv)
qed

theorem replay_dlq_revives_witness:
  "\<exists>q' w' W' n r. ReplayDLQ ex_queue ex_wal (ex_world any_codec) = (q', w', W', n, r) \<and> n \<le> 1 \<and>
     cores (abs q') = cores (abs ex_queue)"
proof -
  obtain q' w' W' n r where e: "ReplayDLQ ex_queue ex_wal (ex_world any_codec) = (q', w', W', n, r)"
    by (metis prod_cases5)
  from replay_dlq_revives [OF ex_queue_inv e] e show ?thesis by (auto simp: ex_queue_abs)
qed

end
