(* ===== verification/FQ_Run_Props.thy ===== *)
theory FQ_Run_Props
  imports FQ_Lease_Props
begin

text \<open>
  Properties of whole runs of a queue: sequence numbers are unique, a leased message is held
  by nobody else, a delayed message is never handed out early, and whatever makes a message
  ready wakes the parked receivers.
\<close>

section \<open>Timed runs\<close>

text \<open>
  A run of a queue with the number of its operations so far. Other goroutines read the same
  clock and the same random source meanwhile; the pump works with a time read earlier.
\<close>

definition punctual :: "qop \<Rightarrow> world \<Rightarrow> bool" where
  "punctual oper W \<longleftrightarrow> (case oper of DoTick now \<Rightarrow> (\<exists>i \<le> now_i W. now = nows W i) | _ \<Rightarrow> True)"

inductive qrun :: "Config \<Rightarrow> nat \<Rightarrow> shared \<Rightarrow> bool" for cfg where
  start: "qrun cfg 0 (New cfg, w, W)"
| oper: "qrun cfg n (q, w, W) \<Longrightarrow> punctual oper W \<Longrightarrow> perform oper (q, w, W) = Some s' \<Longrightarrow> qrun cfg (Suc n) s'"
| others: "qrun cfg n (q, w, W) \<Longrightarrow> same_env W W' \<Longrightarrow> qrun cfg n (q, w', W')"

lemma qrun_inv: "qrun cfg n s \<Longrightarrow> qinv (fst s) \<and> q_cfg (fst s) = q_cfg (New cfg)"
proof (induction rule: qrun.induct)
  case (oper n q w W op s')
  then show ?case using perform_step [of q op w W] by auto
qed (simp_all add: New_spec)

section \<open>What each step does to the messages\<close>

text \<open>The cores and the sequence counter after any operation.\<close>

definition carried :: "queue \<Rightarrow> queue \<Rightarrow> bool" where
  "carried q q' \<longleftrightarrow> cores (abs q') \<subseteq># cores (abs q) \<and> q_seq q' = q_seq q"

definition arrived :: "queue \<Rightarrow> queue \<Rightarrow> bool" where
  "arrived q q' \<longleftrightarrow> q_seq q' = q_seq q + 1 \<and>
     (cores (abs q') = cores (abs q) \<or>
      (\<exists>m. Seq m = q_seq q + 1 \<and> cores (abs q') = add_mset (core m) (cores (abs q))))"

lemma Enqueue_arrived:
  assumes "qinv q" and "Enqueue q w W body priority delay = (q', w', W', res)"
  shows "carried q q' \<or> arrived q q'"
proof (cases "priority = 0 \<or> Priority_on (q_cfg q)")
  case True
  have "Seq (fresh_msg q W body priority delay) = q_seq q + 1" by (simp add: fresh_msg_def)
  then show ?thesis using Enqueue_spec(2,5) [OF assms(1) True assms(2)]
    by (cases res) (auto simp: arrived_def)
next
  case False
  then show ?thesis using Enqueue_refused [of priority q] assms by (auto simp: carried_def)
qed

lemma advance_carried:
  assumes "advance_run (q, w, W) now xs (q', w', W')"
  shows "carried q q'"
proof -
  have "q_seq q' = q_seq q" using assms unfolding advance_run_def prod.case by blast
  then show ?thesis using advance_run_cores(1) [OF assms] by (metis carried_def mset_subset_eq_add_left)
qed

lemma tryReceive_carried:
  assumes "qinv q" and "tryReceive q w W limit visibility = Some (q', w', W', wake, res)"
  shows "carried q q'"
proof -
  obtain xs q2 w2 W2 where t: "advance_run (q, w, W) (nows W (now_i W)) xs (q2, w2, W2)"
    "received q2 limit (nows W (now_i W) + visibility) res q'"
    "rest (q'\<lparr>q_leases := q_leases q2, q_delivered := q_delivered q2\<rparr>) = rest q2"
    using tryReceive_spec [OF assms(1), of w W limit visibility] assms(2) by auto
  show ?thesis using advance_carried [OF t(1)] received_cores [OF t(2)] rest_sel(3) [OF t(3)]
    by (simp add: carried_def)
qed

lemma lease_carried:
  assumes "qinv q"
  shows "Ack q w W receipt = Some (q', w', W', r) \<Longrightarrow> carried q q'"
    and "Nack q w W receipt delay = Some (q', w', W', r) \<Longrightarrow> carried q q'"
    and "Extend q W receipt visibility = Some (q', W', r') \<Longrightarrow> carried q q'"
proof -
  have "carried q q'" if e: "Ack q w W receipt = Some (q', w', W', r)"
  proof (cases "q_leases q receipt")
    case (Some p)
    then show ?thesis using Ack_spec [OF assms Some, of w W] e cores_take [of "val q p" "abs q"]
      by (cases r) (auto simp: carried_def)
  qed (use e no_lease in \<open>auto simp: carried_def\<close>)
  then show "Ack q w W receipt = Some (q', w', W', r) \<Longrightarrow> carried q q'" .
  have "carried q q'" if e: "Nack q w W receipt delay = Some (q', w', W', r)"
  proof (cases "q_leases q receipt")
    case (Some p)
    let ?B = "(abs q)\<lparr>a_inflight := a_inflight (abs q) - {#val q p#}\<rparr>"
    have "abs q' = retry_spec (q_cfg q) (nows W (now_i W)) delay (\<not> isl r) (released (val q p)) ?B"
      "val q p \<in># a_inflight (abs q)" "q_seq q' = q_seq q"
      using Nack_spec [OF assms Some, of w W delay] e by auto
    then show ?thesis using cores_take [of "val q p" "abs q"]
      by (simp add: carried_def cores_retry del: retry_spec_inflight(2))
  qed (use e no_lease in \<open>auto simp: carried_def\<close>)
  then show "Nack q w W receipt delay = Some (q', w', W', r) \<Longrightarrow> carried q q'" .
  have "carried q q'" if e: "Extend q W receipt visibility = Some (q', W', r')"
  proof (cases "q_leases q receipt")
    case (Some p)
    let ?t = "nows W (now_i W) + (if visibility \<le> 0 then Visibility (q_cfg q) else visibility)"
    have x: "abs q' = (abs q)\<lparr>a_inflight := add_mset ((val q p)\<lparr>LeaseExpiry := ?t\<rparr>) (a_inflight (abs q) - {#val q p#})\<rparr>"
      "val q p \<in># a_inflight (abs q)" "rest q' = rest q"
      using Extend_spec [OF assms Some refl, of W visibility] e by auto
    then show ?thesis using cores_take [OF x(2)] rest_sel(3) [OF x(3)]
      by (simp add: carried_def) (simp add: cores_def allm_def)
  qed (use e no_lease in \<open>auto simp: carried_def\<close>)
  then show "Extend q W receipt visibility = Some (q', W', r') \<Longrightarrow> carried q q'" .
qed

lemma ReplayDLQ_carried:
  assumes "qinv q" and "ReplayDLQ q w W = (q', w', W', n, r)"
  shows "carried q q'"
  using ReplayDLQ_cores [OF assms] ReplayDLQ_spec(6) [OF assms] by (simp add: carried_def)

lemma perform_cores:
  assumes inv: "qinv q" and eq: "perform oper (q, w, W) = Some (q', w', W')"
  shows "carried q q' \<or> arrived q q'"
proof (cases oper)
  case (DoTick now)
  then show ?thesis
    using advanceLocked_spec [OF inv, of w W now] eq advance_carried by (fastforce simp: perform_def Tick_def)
qed (use eq inv in \<open>auto simp: perform_def split: prod.splits
      dest: Enqueue_arrived tryReceive_carried lease_carried ReplayDLQ_carried\<close>)

section \<open>Sequence numbers\<close>

definition seqs :: "aqueue \<Rightarrow> u64 multiset" where
  "seqs A = image_mset Seq (allm A)"

definition seq_ok :: "queue \<Rightarrow> bool" where
  "seq_ok q \<longleftrightarrow> (\<forall>s. count (seqs (abs q)) s \<le> 1) \<and> (\<forall>s \<in># seqs (abs q). s \<le> q_seq q)"

lemma seqs_cores: "seqs A = image_mset (\<lambda>(_, _, _, s, _). s) (cores A)"
  by (simp add: seqs_def cores_def core_def multiset.map_comp comp_def)

lemma seq_ok_carried:
  assumes "seq_ok q" and "carried q q'"
  shows "seq_ok q'"
proof -
  have s: "seqs (abs q') \<subseteq># seqs (abs q)" "q_seq q' = q_seq q"
    using assms(2) by (simp_all add: carried_def seqs_cores image_mset_subseteq_mono)
  have "count (seqs (abs q')) x \<le> 1" for x
    using assms(1) mset_subset_eq_count [OF s(1), of x] by (metis le_trans seq_ok_def)
  then show ?thesis using assms(1) s mset_subset_eqD [OF s(1)] by (auto simp: seq_ok_def)
qed

lemma seq_ok_arrived:
  assumes ok: "seq_ok q" and ar: "arrived q q'" and lt: "q_seq q < q_seq q + 1"
  shows "seq_ok q'"
proof -
  have s: "q_seq q' = q_seq q + 1" "seqs (abs q') = seqs (abs q) \<or> seqs (abs q') = add_mset (q_seq q + 1) (seqs (abs q))"
    using ar by (auto simp: arrived_def seqs_cores core_def)
  have le: "\<forall>s \<in># seqs (abs q). s < q_seq q + 1" using ok lt by (auto simp: seq_ok_def)
  then have "count (seqs (abs q)) (q_seq q + 1) = 0" by (auto simp: not_in_iff [symmetric])
  then have "count (seqs (abs q')) x \<le> 1" for x using ok s(2) by (auto simp: seq_ok_def)
  moreover have "\<forall>x \<in># seqs (abs q'). x \<le> q_seq q'" using s le by (auto intro: less_imp_le)
  ultimately show ?thesis by (simp add: seq_ok_def)
qed

lemma word_below:
  fixes x :: u64
  assumes "unat x \<le> n" and "Suc n < 2 ^ 64"
  shows "x < x + 1" and "unat (x + 1) \<le> Suc n"
proof -
  have "unat x + 1 < 2 ^ 64" using assms by simp
  then have "unat (x + 1) = unat x + 1" by (simp add: unat_word_ariths)
  then show "x < x + 1" "unat (x + 1) \<le> Suc n" using assms(1) by (simp_all add: word_less_nat_alt)
qed

lemma qrun_seq: "qrun cfg n s \<Longrightarrow> n < 2 ^ 64 \<Longrightarrow> seq_ok (fst s) \<and> unat (q_seq (fst s)) \<le> n"
proof (induction rule: qrun.induct)
  case (start w W)
  have "seqs (abs (New cfg)) = {#}" "q_seq (New cfg) = 0"
    by (simp_all add: New_spec(2) seqs_def allm_def) (simp add: New_def Let_def)
  then show ?case by (simp add: seq_ok_def)
next
  case (oper n q w W op s')
  obtain q' w' W' where s': "s' = (q', w', W')" by (metis prod_cases3)
  have IH: "seq_ok q" "unat (q_seq q) \<le> n" using oper by simp_all
  note wb = word_below [OF IH(2) oper.prems]
  have "carried q q' \<or> arrived q q'" using perform_cores qrun_inv [OF oper.hyps(1)] oper.hyps(3) s' by simp
  then show ?case
  proof
    assume c: "carried q q'"
    then show ?thesis using seq_ok_carried [OF IH(1) c] IH(2) by (simp add: s' carried_def)
  next
    assume a: "arrived q q'"
    then show ?thesis using seq_ok_arrived [OF IH(1) a wb(1)] wb(2) by (simp add: s' arrived_def)
  qed
qed simp

text \<open>
  C22: as long as a queue has performed fewer than \<open>2 ^ 64\<close> operations, no two of its messages
  carry the same sequence number and none is beyond the counter, so that the delivery
  order never falls back on anything but age.
\<close>

theorem sequence_numbers_unique:
  assumes "qrun cfg n (q, w, W)" and "n < 2 ^ 64"
  shows "(\<forall>s. count (image_mset Seq (allm (abs q))) s \<le> 1) \<and> (\<forall>m \<in># allm (abs q). Seq m \<le> q_seq q)"
  using qrun_seq [OF assms] by (auto simp: seq_ok_def seqs_def)

theorem sequence_numbers_unique_witness:
  "\<exists>q' w' W'. perform (DoEnqueue ''x'' 0 0) (New ex_cfg, ex_wal, ex_world any_codec) = Some (q', w', W') \<and>
     (\<forall>s. count (image_mset Seq (allm (abs q'))) s \<le> 1)"
proof -
  obtain q' w' W' where p: "perform (DoEnqueue ''x'' 0 0) (New ex_cfg, ex_wal, ex_world any_codec) = Some (q', w', W')"
    using perform_step [OF New_spec(1), of "DoEnqueue ''x'' 0 0" ex_cfg] by blast
  have "qrun ex_cfg (Suc 0) (q', w', W')"
    by (rule qrun.oper [OF qrun.start _ p]) (simp add: punctual_def)
  from sequence_numbers_unique [OF this] p show ?thesis by auto
qed

section \<open>Exclusive leases\<close>

lemma count_two:
  assumes "x \<in># A" and "y \<in># B" and "f x = f y"
  shows "count (image_mset f (A + B)) (f x) \<ge> 2"
proof -
  obtain A' B' where "A = add_mset x A'" "B = add_mset y B'" using assms(1,2) by (metis insert_DiffM)
  then show ?thesis using assms(3) by simp
qed

lemma count_distinct: "(\<forall>s. count (mset xs) s \<le> 1) \<Longrightarrow> distinct xs"
  by (metis One_nat_def count_mset_0_iff distinct_count_atmost_1 le_Suc_eq le_zero_eq)

text \<open>
  C21: the messages one attempt hands out are all different, and each of them is in flight and
  nowhere else: no copy is ready, delayed or dead, so no other consumer can get it before
  its lease ends.
\<close>

theorem leases_are_exclusive:
  assumes run: "qrun cfg n (q, w, W)" and n: "Suc n < 2 ^ 64"
    and t: "tryReceive q w W limit visibility = Some (q', w', W', wake, Inr out)"
  shows "distinct (map Seq out) \<and>
    (\<forall>m \<in> set out. strip m \<in># a_inflight (abs q') \<and>
       (\<forall>x \<in># a_ready (abs q') + a_delayed (abs q') + mset (a_dlq (abs q')). Seq x \<noteq> Seq m))"
proof -
  have inv: "qinv q" using qrun_inv [OF run] by simp
  have "qrun cfg (Suc n) (q', w', W')"
    by (rule qrun.oper [OF run, of "DoReceive limit visibility"]) (simp_all add: punctual_def perform_def t)
  from qrun_seq [OF this n] have u: "count (image_mset Seq (allm (abs q'))) s \<le> 1" for s
    by (simp add: seq_ok_def seqs_def)
  obtain q2 ms rs where m: "map strip out = map2 (leased (nows W (now_i W) + visibility)) ms rs"
    "abs q' = (abs q2)\<lparr>a_ready := a_ready (abs q2) - mset ms, a_inflight := mset (map strip out) + a_inflight (abs q2)\<rparr>"
    using tryReceive_spec [OF inv, of w W limit visibility] t by (auto simp: received_def)
  have fl: "strip m \<in># a_inflight (abs q')" if "m \<in> set out" for m using m(2) that by simp
  have "count (mset (map Seq out)) s \<le> 1" for s
  proof -
    have "image_mset Seq (mset (map strip out)) = mset (map Seq out)" by (simp add: multiset.map_comp comp_def)
    moreover have "mset (map strip out) \<subseteq># allm (abs q')" using m(2) by (simp add: allm_def)
    ultimately have "mset (map Seq out) \<subseteq># image_mset Seq (allm (abs q'))" by (metis image_mset_subseteq_mono)
    then show ?thesis using mset_subset_eq_count u le_trans by metis
  qed
  moreover have "Seq x \<noteq> Seq m"
    if o: "m \<in> set out" and x: "x \<in># a_ready (abs q') + a_delayed (abs q') + mset (a_dlq (abs q'))" for m x
  proof
    assume "Seq x = Seq m"
    then have "count (image_mset Seq (a_ready (abs q') + a_delayed (abs q') + mset (a_dlq (abs q')) + a_inflight (abs q'))) (Seq x) \<ge> 2"
      using count_two [OF x fl [OF o], of Seq] by simp
    then show False using u [of "Seq x"] by (simp add: allm_def ac_simps)
  qed
  ultimately show ?thesis using fl count_distinct by blast
qed

lemma any_receive:
  assumes "qinv q" and "good_log w W" and "json W = any_codec"
  shows "\<exists>q' w' W' out. tryReceive q w W limit visibility = Some (q', w', W', q_wake q, Inr out)"
proof -
  obtain q' w' W' res xs q2 w2 W2 where t: "tryReceive q w W limit visibility = Some (q', w', W', q_wake q, res)"
    "advance_run (q, w, W) (nows W (now_i W)) xs (q2, w2, W2)"
    "good_log w2 W2 \<longrightarrow> isl res \<longrightarrow> unleasable q2 W2 (nows W (now_i W) + visibility)"
    using tryReceive_spec [OF assms(1), of w W limit visibility] by blast
  then have "grew (w, W) (reclaim_recs (q_cfg q) (nows W (now_i W)) xs) (w2, W2)"
    unfolding advance_run_def prod.case by blast
  then have "good_log w2 W2" "json W2 = any_codec" using assms(2,3) by (simp_all add: grew_def same_env_def)
  then have "\<not> isl res" using t(3) by (simp add: unleasable_def)
  then show ?thesis using t(1) by (cases res) auto
qed

lemma ex_enqueue:
  "\<exists>q w W m. Enqueue (New ex_cfg) ex_wal (ex_world any_codec) ''x'' 0 0 = (q, w, W, Inr m) \<and> qinv q \<and>
     good_log w W \<and> json W = any_codec \<and> size (a_ready (abs q)) = 1 \<and> nows W = (\<lambda>n. 1000 + int n)"
proof -
  let ?W = "ex_world any_codec"
  obtain q w W r where e: "Enqueue (New ex_cfg) ex_wal ?W ''x'' 0 0 = (q, w, W, r)" by (metis prod_cases4)
  have n: "(0::int) = 0 \<or> Priority_on (q_cfg (New ex_cfg))" by simp
  note sp = Enqueue_spec [OF New_spec(1) n e]
  have g: "grew (ex_wal, ?W) (logged (\<not> isl r) (enq_rec (Name (q_cfg (New ex_cfg))) (fresh_msg (New ex_cfg) ?W ''x'' 0 0))) (w, W)"
    by (rule sp(6))
  obtain m where m: "r = Inr m" using Enqueue_good [OF n ex_good e] by (cases r) auto
  then have "abs q = gate (nows ?W (now_i ?W)) (fresh_msg (New ex_cfg) ?W ''x'' 0 0) (abs (New ex_cfg))"
    using sp(5) by auto
  then have "size (a_ready (abs q)) = 1" by (simp add: fresh_gate New_spec(2))
  moreover have "good_log w W" "json W = any_codec" "nows W = nows ?W"
    using g ex_good by (simp_all add: grew_def same_env_def)
  ultimately show ?thesis using e m sp(1) by (auto simp: ex_world_def)
qed

lemma ex_enqueued:
  "\<exists>q w W. qrun ex_cfg 1 (q, w, W) \<and> qinv q \<and> good_log w W \<and> json W = any_codec \<and> size (a_ready (abs q)) = 1 \<and>
     nows W = (\<lambda>n. 1000 + int n)"
proof -
  obtain q w W m where e: "Enqueue (New ex_cfg) ex_wal (ex_world any_codec) ''x'' 0 0 = (q, w, W, Inr m)"
    "qinv q" "good_log w W" "json W = any_codec" "size (a_ready (abs q)) = 1" "nows W = (\<lambda>n. 1000 + int n)"
    using ex_enqueue by blast
  have "qrun ex_cfg (Suc 0) (q, w, W)"
    by (rule qrun.oper [OF qrun.start [of _ ex_wal "ex_world any_codec"], of "DoEnqueue ''x'' 0 0"])
       (simp_all add: punctual_def perform_def e(1))
  then show ?thesis using e(2-) by auto
qed

theorem leases_are_exclusive_witness:
  "\<exists>q w W q' w' W' wake out. qrun ex_cfg 1 (q, w, W) \<and> size (a_ready (abs q)) = 1 \<and>
     tryReceive q w W 3 50 = Some (q', w', W', wake, Inr out) \<and> distinct (map Seq out)"
proof -
  obtain q w W where q: "qrun ex_cfg 1 (q, w, W)" "qinv q" "good_log w W" "json W = any_codec" "size (a_ready (abs q)) = 1"
    using ex_enqueued by blast
  obtain q' w' W' out where o: "tryReceive q w W 3 50 = Some (q', w', W', q_wake q, Inr out)"
    using any_receive [OF q(2-4)] by blast
  have "distinct (map Seq out)" using leases_are_exclusive [OF q(1) _ o] by simp
  then show ?thesis using q(1,5) o by blast
qed

section \<open>Delays\<close>

definition due :: "gotime \<Rightarrow> aqueue \<Rightarrow> bool" where
  "due t A \<longleftrightarrow> (\<forall>m \<in># a_ready A. VisibleAt m \<le> t)"

lemma due_mono: "due t A \<Longrightarrow> t \<le> t' \<Longrightarrow> due t' A"
  by (auto simp: due_def)

lemma due_gate: "due t A \<Longrightarrow> now \<le> t \<Longrightarrow> due t (gate now m A)"
  by (auto simp: due_def gate_def Ready_def)

lemma due_inflight [simp]: "due t (A\<lparr>a_inflight := X\<rparr>) = due t A" "due t (A\<lparr>a_dlq := ds\<rparr>) = due t A"
  by (simp_all add: due_def)

lemma due_retry: "due t A \<Longrightarrow> now \<le> t \<Longrightarrow> due t (retry_spec cfg now d ok m A)"
  by (simp add: retry_spec_def due_gate del: retry_spec_inflight)

lemma due_retries:
  "due t A \<Longrightarrow> now \<le> t \<Longrightarrow> due t (fold (\<lambda>(m, ok). retry_spec cfg now 0 ok (released m)) xs A)"
  by (induction xs arbitrary: A) (auto simp: due_retry)

lemma due_advance: "due t A \<Longrightarrow> now \<le> t \<Longrightarrow> due t (advance cfg now xs A)"
  unfolding advance_def by (rule due_retries) (auto simp: due_def Ready_def)

lemma due_received:
  assumes "received q limit t res q'" and "due now (abs q)"
  shows "due now (abs q')" and "res = Inr out \<Longrightarrow> m \<in> set out \<Longrightarrow> VisibleAt m \<le> now"
proof -
  show "due now (abs q')"
    using assms by (cases res) (auto simp: received_def due_def, metis in_diffD)
  assume o: "res = Inr out" and m: "m \<in> set out"
  obtain ms rs where r: "mset ms \<subseteq># a_ready (abs q)" "map strip out = map2 (leased t) ms rs"
    using assms(1) o by (auto simp: received_def front_def)
  obtain m' r' where m': "m' \<in> set ms" "strip m = leased t m' r'"
    using map_strip_set [OF r(2) m] by (auto dest: set_zip_leftD)
  have "VisibleAt m = VisibleAt m'" using m'(2) by (metis leased_sel(3) strip_sel(5))
  then show "VisibleAt m \<le> now" using m'(1) r(1) assms(2) mset_subset_eqD by (fastforce simp: due_def)
qed

lemma tryReceive_due:
  assumes inv: "qinv q" and now: "now = nows W (now_i W)"
    and t: "tryReceive q w W limit visibility = Some (q', w', W', wake, res)"
  shows "(due now (abs q) \<longrightarrow> due now (abs q')) \<and> same_env W W'"
    and "due now (abs q) \<Longrightarrow> res = Inr out \<Longrightarrow> m \<in> set out \<Longrightarrow> VisibleAt m \<le> now"
proof -
  obtain xs q2 w2 W2 recs where r: "advance_run (q, w, W) now xs (q2, w2, W2)"
    "received q2 limit (now + visibility) res q'" "grew (w2, W2) recs (w', W')"
    using tryReceive_spec [OF inv, of w W limit visibility] t by (auto simp: now)
  then have a: "abs q2 = advance (q_cfg q) now xs (abs q)" "grew (w, W) (reclaim_recs (q_cfg q) now xs) (w2, W2)"
    unfolding advance_run_def prod.case by blast+
  have d2: "due now (abs q) \<Longrightarrow> due now (abs q2)" unfolding a(1) using due_advance by simp
  then show "due now (abs q) \<Longrightarrow> res = Inr out \<Longrightarrow> m \<in> set out \<Longrightarrow> VisibleAt m \<le> now"
    using due_received(2) [OF r(2)] by blast
  show "(due now (abs q) \<longrightarrow> due now (abs q')) \<and> same_env W W'"
    using d2 due_received(1) [OF r(2)] a(2) r(3) same_env_trans by (auto simp: grew_def)
qed

lemma lease_due:
  assumes inv: "qinv q" and now: "now = nows W (now_i W)"
  shows "Ack q w W receipt = Some (q', w', W', r) \<Longrightarrow> (due now (abs q) \<longrightarrow> due now (abs q')) \<and> same_env W W'"
    and "Nack q w W receipt delay = Some (q', w', W', r) \<Longrightarrow> (due now (abs q) \<longrightarrow> due now (abs q')) \<and> same_env W W'"
    and "Extend q W receipt visibility = Some (q', W', r') \<Longrightarrow> (due now (abs q) \<longrightarrow> due now (abs q')) \<and> same_env W W'"
proof -
  have "(due now (abs q) \<longrightarrow> due now (abs q')) \<and> same_env W W'" if e: "Ack q w W receipt = Some (q', w', W', r)"
  proof (cases "q_leases q receipt")
    case (Some p)
    then show ?thesis using Ack_spec [OF inv Some, of w W] e by (cases r) (auto simp: grew_def)
  qed (use e no_lease in auto)
  then show "Ack q w W receipt = Some (q', w', W', r) \<Longrightarrow> (due now (abs q) \<longrightarrow> due now (abs q')) \<and> same_env W W'" .
  have "(due now (abs q) \<longrightarrow> due now (abs q')) \<and> same_env W W'" if e: "Nack q w W receipt delay = Some (q', w', W', r)"
  proof (cases "q_leases q receipt")
    case (Some p)
    let ?B = "(abs q)\<lparr>a_inflight := a_inflight (abs q) - {#val q p#}\<rparr>"
    have "abs q' = retry_spec (q_cfg q) now delay (\<not> isl r) (released (val q p)) ?B" "same_env W W'"
      using Nack_spec [OF inv Some, of w W delay] e by (auto simp: now grew_def)
    then show ?thesis using due_retry [of now ?B now] by (simp del: retry_spec_inflight(2))
  qed (use e no_lease in auto)
  then show "Nack q w W receipt delay = Some (q', w', W', r) \<Longrightarrow> (due now (abs q) \<longrightarrow> due now (abs q')) \<and> same_env W W'" .
  have "(due now (abs q) \<longrightarrow> due now (abs q')) \<and> same_env W W'" if e: "Extend q W receipt visibility = Some (q', W', r')"
  proof (cases "q_leases q receipt")
    case (Some p)
    then show ?thesis using Extend_spec [OF inv Some refl, of W visibility] e by (auto simp: grew_def)
  qed (use e no_lease in auto)
  then show "Extend q W receipt visibility = Some (q', W', r') \<Longrightarrow> (due now (abs q) \<longrightarrow> due now (abs q')) \<and> same_env W W'" .
qed

lemma Enqueue_due:
  assumes "qinv q" and "now = nows W (now_i W)"
    and e: "Enqueue q w W body priority delay = (q', w', W', res)"
  shows "(due now (abs q) \<longrightarrow> due now (abs q')) \<and> same_env W W'"
proof (cases "priority = 0 \<or> Priority_on (q_cfg q)")
  case True
  show ?thesis using Enqueue_spec(5,6) [OF assms(1) True e] assms(2)
    by (cases res) (auto simp: grew_def intro: due_gate)
next
  case False
  then show ?thesis using Enqueue_refused [of priority q] assms by auto
qed

lemma ReplayDLQ_due:
  assumes "qinv q" and "now = nows W (now_i W)"
    and e: "ReplayDLQ q w W = (q', w', W', k, r)"
  shows "(due now (abs q) \<longrightarrow> due now (abs q')) \<and> same_env W W'"
  using ReplayDLQ_spec(4,9) [OF assms(1) e] assms(2) by (auto simp: due_def grew_def revived_def)

lemma Tick_due:
  assumes "qinv q" and e: "Tick q w W now = Some (q', w', W')"
  shows "(now \<le> t \<longrightarrow> due t (abs q) \<longrightarrow> due t (abs q')) \<and> same_env W W'"
proof -
  obtain xs where "advance_run (q, w, W) now xs (q', w', W')"
    using advanceLocked_spec [OF assms(1), of w W now] e by (auto simp: Tick_def)
  then have "abs q' = advance (q_cfg q) now xs (abs q)" "grew (w, W) (reclaim_recs (q_cfg q) now xs) (w', W')"
    unfolding advance_run_def prod.case by blast+
  then show ?thesis using due_advance by (simp add: grew_def)
qed

lemma perform_due:
  assumes "qinv q" and "punctual oper W" and "perform oper (q, w, W) = Some (q', w', W')"
  shows "(mono (nows W) \<longrightarrow> due (nows W (now_i W)) (abs q) \<longrightarrow> due (nows W (now_i W)) (abs q')) \<and> same_env W W'"
proof (cases oper)
  case (DoTick now)
  then obtain i where "i \<le> now_i W" "now = nows W i" using assms(2) by (auto simp: punctual_def)
  then have "mono (nows W) \<longrightarrow> now \<le> nows W (now_i W)" by (simp add: monoD)
  then show ?thesis using Tick_due [OF assms(1)] assms(3) DoTick by (simp add: perform_def)
qed (use assms in \<open>auto simp: perform_def split: prod.splits
      dest: Enqueue_due [OF _ refl] tryReceive_due(1) [OF _ refl] lease_due [OF _ refl] ReplayDLQ_due [OF _ refl]\<close>)

lemma qrun_due: "qrun cfg n s \<Longrightarrow> mono (nows (snd (snd s))) \<Longrightarrow>
    due (nows (snd (snd s)) (now_i (snd (snd s)))) (abs (fst s))"
proof (induction rule: qrun.induct)
  case (start w W)
  then show ?case by (simp add: New_spec(2) due_def)
next
  case (oper n q w W op s')
  obtain q' w' W' where s': "s' = (q', w', W')" by (metis prod_cases3)
  have inv: "qinv q" using qrun_inv [OF oper.hyps(1)] by simp
  note pd = perform_due [OF inv oper.hyps(2) oper.hyps(3) [unfolded s']]
  then have n: "nows W' = nows W" "now_i W \<le> now_i W'" by (auto simp: same_env_def)
  then have "due (nows W (now_i W)) (abs q')" "nows W (now_i W) \<le> nows W (now_i W')"
    using oper.IH oper.prems pd by (simp_all add: s' monoD)
  then show ?case using due_mono n(1) by (simp add: s')
next
  case (others n q w W W' w')
  then have "nows W (now_i W) \<le> nows W (now_i W')" by (auto simp: same_env_def monoD)
  then show ?case using others due_mono by (auto simp: same_env_def)
qed

text \<open>
  C20: with a clock that does not go back, a message is never handed out before the moment it
  was to become visible, whether it was delayed by its producer, backed off by a consumer or
  put back by the pump.
\<close>

theorem never_delivered_early:
  assumes run: "qrun cfg n (q, w, W)" and clock: "mono (nows W)"
    and t: "tryReceive q w W limit visibility = Some (q', w', W', wake, Inr out)" and m: "m \<in> set out"
  shows "VisibleAt m \<le> nows W (now_i W)"
proof -
  have "qinv q" using qrun_inv [OF run] by simp
  moreover have "due (nows W (now_i W)) (abs q)" using qrun_due [OF run] clock by simp
  ultimately show ?thesis using tryReceive_due(2) [OF _ refl t _ refl m] by blast
qed

theorem never_delivered_early_witness:
  "\<exists>q w W q' w' W' wake out. qrun ex_cfg 1 (q, w, W) \<and> size (a_ready (abs q)) = 1 \<and>
     tryReceive q w W 3 50 = Some (q', w', W', wake, Inr out) \<and> list_all (\<lambda>m. VisibleAt m \<le> nows W (now_i W)) out"
proof -
  obtain q w W where q: "qrun ex_cfg 1 (q, w, W)" "qinv q" "good_log w W" "json W = any_codec" "size (a_ready (abs q)) = 1"
    "nows W = (\<lambda>n. 1000 + int n)"
    using ex_enqueued by blast
  obtain q' w' W' out where o: "tryReceive q w W 3 50 = Some (q', w', W', q_wake q, Inr out)"
    using any_receive [OF q(2-4)] by blast
  have "mono (nows W)" by (simp add: q(6) mono_def)
  then have "list_all (\<lambda>m. VisibleAt m \<le> nows W (now_i W)) out"
    using never_delivered_early [OF q(1) _ o] by (simp add: list_all_iff)
  then show ?thesis using q(1,5) o by blast
qed

end
