(* ===== verification/FQ_Poll_Props.thy ===== *)
theory FQ_Poll_Props
  imports FQ_Run_Props
begin

text \<open>
  The long poll of \<^verbatim>\<open>Queue.Receive\<close> and what keeps it live: every operation that makes a message
  ready closes the wake channel, the poll returns once its deadline is past, and it comes
  back empty-handed only then. The statistics of a queue are here too.
\<close>

section \<open>Wake-ups\<close>

lemma replay_dlq_count: "replay_dlq q w W now ps n = (q', w', W', rem, n', r) \<Longrightarrow> q_wake q' = q_wake q"
proof (induction ps arbitrary: q w W n)
  case (Cons p ps)
  have w: "q_wake (placeLocked (set_msg q p f) p now) = q_wake q" for f
    by (simp add: placeLocked_def push_ready_def push_delayed_def set_msg_def split: prod.splits)
  show ?case using Cons.prems Cons.IH w by (fastforce split: prod.splits sum.splits)
qed simp

lemma ReplayDLQ_wake:
  "ReplayDLQ q w W = (q', w', W', k, r) \<Longrightarrow> q_wake q' = (if k > 0 then Suc (q_wake q) else q_wake q)"
  by (auto simp: ReplayDLQ_def time_Now_def signalLocked_def Let_def dest: replay_dlq_count split: prod.splits if_splits)

lemma advance_wakes:
  assumes "advance_run (q, w, W) now xs (q', w', W')"
  shows "q_wake q < q_wake q' \<or> q_wake q' = q_wake q \<and> a_ready (abs q') = a_ready (abs q)"
proof -
  have r: "abs q' = advance (q_cfg q) now xs (abs q)"
    "q_wake q' = (if xs = [] \<and> filter_mset (\<lambda>m. Ready m now) (a_delayed (abs q)) = {#}
                  then q_wake q else Suc (q_wake q))"
    using assms unfolding advance_run_def prod.case by blast+
  show ?thesis
  proof (cases "xs = [] \<and> filter_mset (\<lambda>m. Ready m now) (a_delayed (abs q)) = {#}")
    case True
    then have "a_ready (abs q') = a_ready (abs q)" unfolding r(1) advance_def by simp
    then show ?thesis using r(2) True by simp
  next
    case False
    then show ?thesis using r(2) by (metis lessI)
  qed
qed

lemma received_ready: "received q limit t res q' \<Longrightarrow> a_ready (abs q') \<subseteq># a_ready (abs q)"
  by (cases res) (auto simp: received_def)

lemma settled_ready:
  assumes inv: "qinv q"
  shows "Ack q w W receipt = Some (q', w', W', r) \<Longrightarrow> a_ready (abs q') \<subseteq># a_ready (abs q)"
    and "Extend q W receipt visibility = Some (q', W', t) \<Longrightarrow> a_ready (abs q') \<subseteq># a_ready (abs q)"
  using Ack_spec [OF inv, of receipt _ w W] no_lease(1) [of q receipt w W] Extend_spec [OF inv _ refl, of receipt _ W visibility] no_lease(3) [of q receipt W]
  by (cases "q_leases q receipt"; cases r; auto)+

lemma Nack_wakes:
  assumes "qinv q" and "Nack q w W receipt delay = Some (q', w', W', Inr u)" and "\<not> a_ready (abs q') \<subseteq># a_ready (abs q)"
  shows "q_wake q < q_wake q'"
proof (cases "q_leases q receipt")
  case (Some p)
  then show ?thesis using Nack_spec [OF assms(1) Some, of w W delay] assms(2) by auto
qed (use no_lease(2) assms(2,3) in auto)

text \<open>
  C18: whatever operation makes a message ready also closes the channel that receivers took
  before they looked, so none of them sleeps through it. The one exception is a return
  whose dead letter record the log refused.
\<close>

theorem no_lost_wakeup:
  assumes inv: "qinv q" and eq: "perform oper (q, w, W) = Some (q', w', W')"
    and new: "\<not> a_ready (abs q') \<subseteq># a_ready (abs q)"
    and nack: "\<forall>receipt delay e. oper = DoNack receipt delay \<longrightarrow> Nack q w W receipt delay \<noteq> Some (q', w', W', Inl e)"
  shows "q_wake q < q_wake q'"
proof (cases oper)
  case (DoEnqueue body priority delay)
  then obtain r where e: "Enqueue q w W body priority delay = (q', w', W', r)"
    using eq by (auto simp: perform_def split: prod.splits)
  show ?thesis
  proof (cases "priority = 0 \<or> Priority_on (q_cfg q)")
    case True
    then show ?thesis using Enqueue_spec(5) [OF inv True e] new by (cases r) auto
  qed (use Enqueue_refused [of priority q] e new in auto)
next
  case (DoReceive limit visibility)
  then obtain xs q2 w2 W2 r where t: "advance_run (q, w, W) (nows W (now_i W)) xs (q2, w2, W2)"
    "received q2 limit (nows W (now_i W) + visibility) r q'"
    "rest (q'\<lparr>q_leases := q_leases q2, q_delivered := q_delivered q2\<rparr>) = rest q2"
    using tryReceive_spec [OF inv, of w W limit visibility] eq by (auto simp: perform_def)
  show ?thesis using advance_wakes [OF t(1)] received_ready [OF t(2)] rest_sel(6) [OF t(3)] new by auto
next
  case (DoNack receipt delay)
  then obtain r where r: "Nack q w W receipt delay = Some (q', w', W', r)" using eq by (auto simp: perform_def)
  then show ?thesis using Nack_wakes [OF inv _ new] nack DoNack by (cases r) auto
next
  case (DoAck receipt)
  then show ?thesis using settled_ready(1) [OF inv] eq new by (auto simp: perform_def)
next
  case (DoExtend receipt visibility)
  then show ?thesis using settled_ready(2) [OF inv] eq new by (auto simp: perform_def)
next
  case (DoTick now)
  then show ?thesis using advanceLocked_spec [OF inv, of w W now] eq new advance_wakes
    by (fastforce simp: perform_def Tick_def)
next
  case DoReplayDLQ
  then obtain k r where r: "ReplayDLQ q w W = (q', w', W', k, r)"
    using eq by (auto simp: perform_def split: prod.splits)
  show ?thesis using ReplayDLQ_wake [OF r] ReplayDLQ_spec(4) [OF inv r] new by (cases k) auto
qed

theorem no_lost_wakeup_witness:
  "\<exists>q' w' W'. perform (DoEnqueue ''x'' 0 0) (New ex_cfg, ex_wal, ex_world any_codec) = Some (q', w', W') \<and>
     q_wake (New ex_cfg) < q_wake q'"
proof -
  obtain q w W m where e: "Enqueue (New ex_cfg) ex_wal (ex_world any_codec) ''x'' 0 0 = (q, w, W, Inr m)"
    "size (a_ready (abs q)) = 1"
    using ex_enqueue by blast
  have p: "perform (DoEnqueue ''x'' 0 0) (New ex_cfg, ex_wal, ex_world any_codec) = Some (q, w, W)"
    by (simp add: perform_def e(1))
  have "\<not> a_ready (abs q) \<subseteq># a_ready (abs (New ex_cfg))" using e(2) by (auto simp: New_spec(2))
  from no_lost_wakeup [OF New_spec(1) p this] p show ?thesis by blast
qed

section \<open>The long poll\<close>

lemma remaining_le: "remaining deadline now \<le> 0 \<longleftrightarrow> deadline \<le> now"
  by (simp add: remaining_def Millisecond_def)

lemma benign_Cons:
  assumes "benign ((ev, others) # sch)" and "qinv q"
  shows "benign sch" and "\<exists>q' w' W'. others (q, w, W) = (q', w', W') \<and> qinv q' \<and> q_cfg q' = q_cfg q \<and>
    nows W' = nows W \<and> now_i W \<le> now_i W'"
  using assms by (auto simp: benign_def split: prod.splits) (metis prod_cases3)

text \<open>
  What a poll that returns has seen: a state that satisfies the invariant, and if it comes
  back with nothing although it was willing to wait, a clock at or past the deadline.
\<close>

definition poll_done :: "nat \<Rightarrow> (nat \<Rightarrow> gotime) \<Rightarrow> duration \<Rightarrow> gotime \<Rightarrow> (shared \<times> (msg list) result) outcome \<Rightarrow> bool" where
  "poll_done i clk wait deadline out \<longleftrightarrow>
     (\<exists>q' w' W' res. out = Returned ((q', w', W'), res) \<and> qinv q' \<and>
        (0 < wait \<longrightarrow> res = Inr [] \<longrightarrow> (\<exists>j \<ge> i. deadline \<le> clk j)))"

lemma poll_done_later:
  assumes "poll_done j clk wait deadline out" and "i \<le> j"
  shows "poll_done i clk wait deadline out"
proof -
  obtain q' w' W' res where o: "out = Returned ((q', w', W'), res)" "qinv q'"
    "0 < wait \<longrightarrow> res = Inr [] \<longrightarrow> (\<exists>l \<ge> j. deadline \<le> clk l)"
    using assms(1) unfolding poll_done_def by blast
  then have "0 < wait \<longrightarrow> res = Inr [] \<longrightarrow> (\<exists>l \<ge> i. deadline \<le> clk l)" using assms(2) le_trans by blast
  then show ?thesis using o(1,2) unfolding poll_done_def by blast
qed

text \<open>One round of the loop.\<close>

lemma Receive_round:
  assumes inv: "qinv q"
  shows "\<exists>q1 w1 W1. qinv q1 \<and> q_cfg q1 = q_cfg q \<and> nows W1 = nows W \<and> now_i W \<le> now_i W1 \<and>
    ((\<exists>res. Receive_loop sch (q, w, W) limit visibility wait deadline = Returned ((q1, w1, W1), res) \<and>
        \<not> (0 < wait \<and> res = Inr [])) \<or>
     deadline \<le> nows W (now_i W1) \<and>
        Receive_loop sch (q, w, W) limit visibility wait deadline =
          Returned ((q1, w1, W1\<lparr>now_i := Suc (now_i W1)\<rparr>), Inr []) \<or>
     nows W (now_i W1) < deadline \<and>
        Receive_loop sch (q, w, W) limit visibility wait deadline =
          (case sch of
             [] \<Rightarrow> Waiting
           | (ev, others) # sch' \<Rightarrow>
               if ev = Cancelled then Returned (others (q1, w1, W1\<lparr>now_i := Suc (now_i W1)\<rparr>), Inl ErrCanceled)
               else Receive_loop sch' (others (q1, w1, W1\<lparr>now_i := Suc (now_i W1)\<rparr>)) limit visibility wait deadline))"
proof -
  obtain q1 w1 W1 res where t: "tryReceive q w W limit visibility = Some (q1, w1, W1, q_wake q, res)" "qinv q1"
    using tryReceive_spec [OF inv, of w W limit visibility] by blast
  have e: "nows W1 = nows W" "now_i W \<le> now_i W1"
    using tryReceive_due(1) [OF inv refl t(1)] by (simp_all add: same_env_def)
  have c: "q_cfg q1 = q_cfg q"
    using perform_step [OF inv, of "DoReceive limit visibility" w W] t(1) by (simp add: perform_def)
  note rl = Receive_loop.simps [of sch q w W limit visibility wait deadline]
  show ?thesis
  proof (cases "\<exists>out. res = Inr out \<and> out = [] \<and> 0 < wait")
    case False
    then have "Receive_loop sch (q, w, W) limit visibility wait deadline = Returned ((q1, w1, W1), res)"
      unfolding rl using t(1) by (cases res) auto
    then show ?thesis using False t(2) e c by blast
  next
    case True
    then have l: "Receive_loop sch (q, w, W) limit visibility wait deadline =
        (if deadline \<le> nows W (now_i W1) then Returned ((q1, w1, W1\<lparr>now_i := Suc (now_i W1)\<rparr>), Inr [])
         else case sch of
             [] \<Rightarrow> Waiting
           | (ev, others) # sch' \<Rightarrow>
               if ev = Cancelled then Returned (others (q1, w1, W1\<lparr>now_i := Suc (now_i W1)\<rparr>), Inl ErrCanceled)
               else Receive_loop sch' (others (q1, w1, W1\<lparr>now_i := Suc (now_i W1)\<rparr>)) limit visibility wait deadline)"
      unfolding rl using t(1) e(1) by (auto simp: time_Now_def remaining_le)
    show ?thesis
    proof (cases "deadline \<le> nows W (now_i W1)")
      case True
      then show ?thesis using l t(2) e c by auto
    next
      case False
      then show ?thesis using l t(2) e c by (intro exI [of _ q1] exI [of _ w1] exI [of _ W1]) auto
    qed
  qed
qed

lemma poll_doneI:
  "qinv q' \<Longrightarrow> (0 < wait \<Longrightarrow> res = Inr [] \<Longrightarrow> \<exists>j \<ge> i. deadline \<le> clk j) \<Longrightarrow>
     poll_done i clk wait deadline (Returned ((q', w', W'), res))"
  by (auto simp: poll_done_def)

lemma Receive_loop_done:
  "qinv q \<Longrightarrow> benign sch \<Longrightarrow> k \<le> length sch \<Longrightarrow> (\<forall>i \<ge> now_i W + k. deadline \<le> nows W i) \<Longrightarrow>
     poll_done (now_i W) (nows W) wait deadline (Receive_loop sch (q, w, W) limit visibility wait deadline)"
proof (induction k arbitrary: sch q w W)
  case 0
  have d: "deadline \<le> nows W j" if "now_i W \<le> j" for j using 0(4) that by simp
  show ?case
    using Receive_round [OF 0(1), of W sch w limit visibility wait deadline]
    apply (elim exE conjE disjE)
    subgoal for q1 w1 W1 res by (auto intro: poll_doneI)
    subgoal for q1 w1 W1 using d by (auto intro!: poll_doneI)
    subgoal for q1 w1 W1 using d [of "now_i W1"] by simp
    done
next
  case (Suc k)
  obtain ev others sch' where sch: "sch = (ev, others) # sch'" using Suc.prems(3) by (cases sch) auto
  obtain q1 w1 W1 where r: "qinv q1" "nows W1 = nows W" "now_i W \<le> now_i W1"
    "(\<exists>res. Receive_loop sch (q, w, W) limit visibility wait deadline = Returned ((q1, w1, W1), res) \<and>
        \<not> (0 < wait \<and> res = Inr [])) \<or>
     deadline \<le> nows W (now_i W1) \<and>
        Receive_loop sch (q, w, W) limit visibility wait deadline =
          Returned ((q1, w1, W1\<lparr>now_i := Suc (now_i W1)\<rparr>), Inr []) \<or>
        Receive_loop sch (q, w, W) limit visibility wait deadline =
          (if ev = Cancelled then Returned (others (q1, w1, W1\<lparr>now_i := Suc (now_i W1)\<rparr>), Inl ErrCanceled)
           else Receive_loop sch' (others (q1, w1, W1\<lparr>now_i := Suc (now_i W1)\<rparr>)) limit visibility wait deadline)"
    using Receive_round [OF Suc.prems(1), of W sch w limit visibility wait deadline] unfolding sch by auto
  obtain q2 w2 W2 where o: "others (q1, w1, W1\<lparr>now_i := Suc (now_i W1)\<rparr>) = (q2, w2, W2)" "qinv q2"
    "nows W2 = nows W" "Suc (now_i W1) \<le> now_i W2"
    using benign_Cons(2) [OF Suc.prems(2) [unfolded sch] r(1), of w1 "W1\<lparr>now_i := Suc (now_i W1)\<rparr>"] r(2) by auto
  have "poll_done (now_i W2) (nows W2) wait deadline (Receive_loop sch' (q2, w2, W2) limit visibility wait deadline)"
    using Suc.IH [OF o(2) benign_Cons(1) [OF Suc.prems(2) [unfolded sch] r(1)], of W2] Suc.prems(3,4) o r(3) sch by auto
  then have "poll_done (now_i W) (nows W) wait deadline (Receive_loop sch' (q2, w2, W2) limit visibility wait deadline)"
    using poll_done_later o r(3) by (metis Suc_leD le_trans)
  then show ?case using r(4,3,1) o by (auto intro!: poll_doneI split: if_splits)
qed



section \<open>Statistics\<close>

lemma oldest_fold:
  assumes "\<forall>m \<in> set ms. EnqueuedAt m \<noteq> zero_time" and "t \<noteq> zero_time"
  shows "foldl (\<lambda>oldest m. if oldest = zero_time \<or> EnqueuedAt m < oldest then EnqueuedAt m else oldest) t ms =
    Min (insert t (EnqueuedAt ` set ms))"
  using assms
proof (induction ms arbitrary: t)
  case (Cons m ms)
  have "Min (insert (min (EnqueuedAt m) t) (EnqueuedAt ` set ms)) = Min (insert t (EnqueuedAt ` set (m # ms)))"
    by (cases "ms = []") (auto simp: min.assoc min.commute min.left_commute)
  moreover have "(if t = zero_time \<or> EnqueuedAt m < t then EnqueuedAt m else t) = min (EnqueuedAt m) t"
    using Cons.prems by auto
  moreover have "min (EnqueuedAt m) t \<noteq> zero_time" using Cons.prems by (simp add: min_def)
  ultimately show ?case using Cons.IH [of "min (EnqueuedAt m) t"] Cons.prems by simp
qed simp

lemma oldest_ready_Min:
  assumes "\<forall>m \<in> set ms. EnqueuedAt m \<noteq> zero_time" and "ms \<noteq> []"
  shows "oldest_ready ms = Min (EnqueuedAt ` set ms)"
proof (cases ms)
  case (Cons m ms')
  then show ?thesis using oldest_fold [of ms' "EnqueuedAt m"] assms by (simp add: oldest_ready_def)
qed (use assms in simp)

text \<open>
  C37: the statistics of a queue count its messages in each place, and the reported age is the
  time since the oldest ready message was enqueued, zero when none is ready.
\<close>

theorem stats_report:
  assumes nz: "\<forall>m \<in># a_ready (abs q). EnqueuedAt m \<noteq> zero_time" and eq: "Stats_of q W = (W', s)"
  shows "s_Ready s = size (a_ready (abs q)) \<and> s_Delayed s = size (a_delayed (abs q)) \<and>
    s_Inflight s = size (a_inflight (abs q)) \<and> s_DLQ s = length (a_dlq (abs q)) \<and>
    s_Degraded s = q_walErr q \<and>
    s_OldestReadyAgeMS s =
      (if a_ready (abs q) = {#} then 0
       else Milliseconds (time_Since (nows W (now_i W)) (Min (EnqueuedAt ` set_mset (a_ready (abs q))))))"
proof -
  let ?ms = "map (q_mem q) (items (q_ready q))"
  have img: "EnqueuedAt ` set ?ms = EnqueuedAt ` set_mset (a_ready (abs q))"
    by (simp add: abs_def val_def image_image)
  then have z: "\<forall>m \<in> set ?ms. EnqueuedAt m \<noteq> zero_time" using nz by (metis (no_types, opaque_lifting) imageE imageI)
  have em: "a_ready (abs q) = {#} \<longleftrightarrow> ?ms = []" by (simp add: abs_def)
  have "oldest_ready ?ms = (if ?ms = [] then zero_time else Min (EnqueuedAt ` set_mset (a_ready (abs q))))"
    using oldest_ready_Min [OF z] img by (auto simp: oldest_ready_def)
  moreover have "Min (EnqueuedAt ` set_mset (a_ready (abs q))) \<noteq> zero_time" if "?ms \<noteq> []"
  proof -
    have "Min (EnqueuedAt ` set ?ms) \<in> EnqueuedAt ` set ?ms" using that by (intro Min_in) auto
    then show ?thesis using z img by (metis (no_types, lifting) imageE)
  qed
  ultimately have o: "s_OldestReadyAgeMS s =
      (if ?ms = [] then 0 else Milliseconds (time_Since (nows W (now_i W)) (Min (EnqueuedAt ` set_mset (a_ready (abs q))))))"
    using eq by (auto simp: Stats_of_def Let_def time_Now_def split: if_splits)
  show ?thesis unfolding em o using eq
    by (auto simp: Stats_of_def Let_def Len_def abs_def split: prod.splits)
qed

theorem stats_report_witness:
  "\<exists>W' s. Stats_of ex_queue (ex_world any_codec) = (W', s) \<and> s_Ready s = 2 \<and> s_DLQ s = 1"
proof -
  obtain W' s where e: "Stats_of ex_queue (ex_world any_codec) = (W', s)" by fastforce
  have "\<forall>m \<in># a_ready (abs ex_queue). EnqueuedAt m \<noteq> zero_time"
    by (simp add: ex_queue_abs ex_mem_def ex_msg_def zero_time_def)
  from stats_report [OF this e] e show ?thesis by (auto simp: ex_queue_abs)
qed

end
