(* ===== verification/FQ_Manager.thy ===== *)
theory FQ_Manager
  imports FQ_Queue_Ops "HOL-Library.AList" "HOL-Library.Char_ord" "HOL-Library.List_Lexorder"
begin

text \<open>
  The manager of \<^verbatim>\<open>src/queue/manager.go\<close>: every queue and the one log they share. Opening
  with recovery, creation, lookup, listing, historical replay, compaction, the pump and
  closing.

  A Go map is an association list with distinct keys. Ranging over a map visits it in the
  order of the list; Go leaves that order open, and the program sorts what it collects
  wherever the order would show.
\<close>

section \<open>Recovery\<close>

record staging =
  live :: "(string \<times> msg) list"
  dlq_ids :: "string list"
  maxSeq :: u64

definition new_staging :: staging where
  "new_staging = \<lparr>live = [], dlq_ids = [], maxSeq = 0\<rparr>"

definition bump :: "u64 \<Rightarrow> staging \<Rightarrow> staging" where
  "bump seq s = (if seq > maxSeq s then s\<lparr>maxSeq := seq\<rparr> else s)"

text \<open>Updating a live message in place, when there is one with that identifier.\<close>

definition amend :: "string \<Rightarrow> (msg \<Rightarrow> msg) \<Rightarrow> staging \<Rightarrow> staging" where
  "amend ident f s = s\<lparr>live := AList.map_entry ident f (live s)\<rparr>"

text \<open>What one record does to the staging area of its queue.\<close>

definition stage_record :: "wal_record \<Rightarrow> staging \<Rightarrow> staging" where
  "stage_record rec s =
     (case (rOp rec, rMsg rec) of
        (OpCreateQueue, _) \<Rightarrow> (case rConfig rec of None \<Rightarrow> s | Some _ \<Rightarrow> bump (rSeq rec) s)
      | (OpEnqueue, Some m) \<Rightarrow> bump (Seq m) (s\<lparr>live := AList.update (ID m) m (live s)\<rparr>)
      | (OpLease, Some m) \<Rightarrow> amend (ID m) (\<lambda>cur. cur\<lparr>Attempts := Attempts m\<rparr>) s
      | (OpNack, Some m) \<Rightarrow>
          amend (ID m) (\<lambda>cur. cur\<lparr>Attempts := Attempts m, VisibleAt := VisibleAt m\<rparr>) s
      | (OpAck, _) \<Rightarrow>
          s\<lparr>live := AList.delete (rID rec) (live s), dlq_ids := removeAll (rID rec) (dlq_ids s)\<rparr>
      | (OpDLQ, _) \<Rightarrow> s\<lparr>dlq_ids := List.insert (rID rec) (dlq_ids s)\<rparr>
      | (OpReplay, _) \<Rightarrow>
          amend (rID rec) (\<lambda>cur. cur\<lparr>Attempts := 0\<rparr>)
            (s\<lparr>dlq_ids := removeAll (rID rec) (dlq_ids s)\<rparr>)
      | _ \<Rightarrow> s)"

text \<open>Whether the record makes \<^verbatim>\<open>recover\<close> look up (and so create) a staging area at all.\<close>

definition touches :: "wal_record \<Rightarrow> bool" where
  "touches rec =
     (case rOp rec of
        OpCreateQueue \<Rightarrow> rConfig rec \<noteq> None
      | OpEnqueue \<Rightarrow> rMsg rec \<noteq> None
      | OpLease \<Rightarrow> rMsg rec \<noteq> None
      | OpNack \<Rightarrow> rMsg rec \<noteq> None
      | OpAck \<Rightarrow> True
      | OpDLQ \<Rightarrow> True
      | OpReplay \<Rightarrow> True
      | _ \<Rightarrow> False)"

record recovery =
  r_queues :: "(string \<times> queue) list"
  r_pending :: "(string \<times> staging) list"

definition get_staging :: "string \<Rightarrow> (string \<times> staging) list \<Rightarrow> staging" where
  "get_staging name p = (case map_of p name of None \<Rightarrow> new_staging | Some s \<Rightarrow> s)"

definition recover_record :: "wal_record \<Rightarrow> recovery \<Rightarrow> recovery" where
  "recover_record rec R =
     (if \<not> touches rec then R
      else
        (let R1 = (case (rOp rec, rConfig rec) of
                     (OpCreateQueue, Some cfg) \<Rightarrow>
                       (if map_of (r_queues R) (rQueue rec) = None
                        then R\<lparr>r_queues := AList.update (rQueue rec) (New cfg) (r_queues R)\<rparr> else R)
                   | _ \<Rightarrow> R)
         in R1\<lparr>r_pending := AList.update (rQueue rec)
                 (stage_record rec (get_staging (rQueue rec) (r_pending R1))) (r_pending R1)\<rparr>))"

text \<open>Reinstalling the recovered messages: each is a new pointer of the queue's memory.\<close>

definition install :: "queue \<Rightarrow> msg \<Rightarrow> queue" where
  "install q m = q\<lparr>q_mem := (q_mem q)(q_next q := m\<lparr>Receipt := '''', LeaseExpiry := zero_time\<rparr>),
     q_next := Suc (q_next q)\<rparr>"

fun restore_live :: "queue \<Rightarrow> gotime \<Rightarrow> msg list \<Rightarrow> queue" where
  "restore_live q now [] = q"
| "restore_live q now (m # ms) = restore_live (placeLocked (install q m) (q_next q) now) now ms"

fun restore_dead :: "queue \<Rightarrow> msg list \<Rightarrow> queue" where
  "restore_dead q [] = q"
| "restore_dead q (m # ms) =
     restore_dead ((install q m)\<lparr>q_dlq := q_dlq q @ [q_next q]\<rparr>) ms"

definition restore :: "queue \<Rightarrow> world \<Rightarrow> msg list \<Rightarrow> msg list \<Rightarrow> u64 \<Rightarrow> queue \<times> world" where
  "restore q W lv dd hi =
     (case time_Now W of
        (now, W1) \<Rightarrow> (restore_dead (restore_live (q\<lparr>q_seq := hi\<rparr>) now lv) dd, W1))"

definition staged_live :: "staging \<Rightarrow> msg list" where
  "staged_live s = sort_key Seq (map snd (filter (\<lambda>(ident, _). ident \<notin> set (dlq_ids s)) (live s)))"

definition staged_dead :: "staging \<Rightarrow> msg list" where
  "staged_dead s = sort_key Seq (map snd (filter (\<lambda>(ident, _). ident \<in> set (dlq_ids s)) (live s)))"

fun recover_finish ::
  "(string \<times> staging) list \<Rightarrow> (string \<times> queue) list \<Rightarrow> world \<Rightarrow>
   (string \<times> queue) list \<times> world \<times> unit result" where
  "recover_finish [] qs W = (qs, W, Inr ())"
| "recover_finish ((name, s) # ps) qs W =
     (case map_of qs name of
        None \<Rightarrow>
          if length (live s) > 0 \<or> length (dlq_ids s) > 0
          then (qs, W, Inl (ErrUnknownQueue (length (live s)) name))
          else recover_finish ps qs W
      | Some q \<Rightarrow>
          (case restore q W (staged_live s) (staged_dead s) (maxSeq s) of
             (q', W') \<Rightarrow> recover_finish ps (AList.update name q' qs) W'))"

section \<open>The manager\<close>

record manager =
  m_queues :: "(string \<times> queue) list"
  m_wal :: wal
  m_tick :: duration
  m_stop :: bool
  m_closed :: bool

definition recover :: "manager \<Rightarrow> world \<Rightarrow> manager \<times> world \<times> unit result" where
  "recover m W =
     (case Recover (m_wal m) W (\<lambda>rec off R. (recover_record rec R, None))
             \<lparr>r_queues = m_queues m, r_pending = []\<rparr> of
        (w1, W1, R, Inl e) \<Rightarrow> (m\<lparr>m_queues := r_queues R, m_wal := w1\<rparr>, W1, Inl e)
      | (w1, W1, R, Inr _) \<Rightarrow>
          (case recover_finish (r_pending R) (r_queues R) W1 of
             (qs, W2, r) \<Rightarrow> (m\<lparr>m_queues := qs, m_wal := w1\<rparr>, W2, r)))"

definition Open :: "string \<Rightarrow> duration \<Rightarrow> duration \<Rightarrow> world \<Rightarrow> world \<times> manager result" where
  "Open path syncEvery tick W =
     (case OpenWAL path syncEvery W of
        (W1, Inl e) \<Rightarrow> (W1, Inl e)
      | (W1, Inr w) \<Rightarrow>
          (case recover \<lparr>m_queues = [], m_wal = w, m_tick = (if tick \<le> 0 then 50 * Millisecond else tick),
                         m_stop = False, m_closed = False\<rparr> W1 of
             (m, W2, Inl e) \<Rightarrow> (case wal_Close (m_wal m) W2 of (_, W3, _) \<Rightarrow> (W3, Inl (ErrRecover e)))
           | (m, W2, Inr _) \<Rightarrow> (W2, Inr m)))"

definition Create :: "manager \<Rightarrow> world \<Rightarrow> Config \<Rightarrow> manager \<times> world \<times> queue result" where
  "Create m W cfg =
     (if Name cfg = '''' then (m, W, Inl ErrNameRequired)
      else if \<exists>c \<in> set (Name cfg). c \<in> set ''/?#% '' then (m, W, Inl ErrNameChars)
      else if Mode_of cfg \<noteq> FIFO \<and> Mode_of cfg \<noteq> LIFO then (m, W, Inl ErrMode)
      else (case map_of (m_queues m) (Name cfg) of
              Some _ \<Rightarrow> (m, W, Inl ErrQueueExists)
            | None \<Rightarrow>
                (let q = New cfg in
                 case AppendSync (m_wal m) W
                        (zero_record\<lparr>rOp := OpCreateQueue, rQueue := Name cfg, rConfig := Some (q_cfg q)\<rparr>) of
                   (w1, W1, Inl e) \<Rightarrow> (m\<lparr>m_wal := w1\<rparr>, W1, Inl e)
                 | (w1, W1, Inr _) \<Rightarrow>
                     (m\<lparr>m_wal := w1, m_queues := AList.update (Name cfg) q (m_queues m)\<rparr>, W1, Inr q))))"

definition Get :: "manager \<Rightarrow> string \<Rightarrow> queue result" where
  "Get m name = (case map_of (m_queues m) name of None \<Rightarrow> Inl ErrQueueNotFound | Some q \<Rightarrow> Inr q)"

fun all_stats :: "queue list \<Rightarrow> world \<Rightarrow> Stats list \<times> world" where
  "all_stats [] W = ([], W)"
| "all_stats (q # qs) W =
     (case Stats_of q W of (W1, s) \<Rightarrow> (case all_stats qs W1 of (ss, W2) \<Rightarrow> (s # ss, W2)))"

definition List_of :: "manager \<Rightarrow> world \<Rightarrow> Stats list \<times> world" where
  "List_of m W = (case all_stats (map snd (m_queues m)) W of (ss, W1) \<Rightarrow> (sort_key s_Name ss, W1))"

record Bookmark =
  b_Epoch :: u64
  b_Offset :: int

definition m_Bookmark :: "manager \<Rightarrow> Bookmark" where
  "m_Bookmark m =
     (case wal_Bookmark (m_wal m) of (ep, off) \<Rightarrow> \<lparr>b_Epoch = ep, b_Offset = int off\<rparr>)"

definition m_Err :: "manager \<Rightarrow> error option" where
  "m_Err m = wal_Err (m_wal m)"

section \<open>Replay\<close>

definition replay_wants :: "string \<Rightarrow> gotime \<Rightarrow> wal_record \<Rightarrow> bool" where
  "replay_wants name since rec =
     (case rMsg rec of
        None \<Rightarrow> False
      | Some x \<Rightarrow>
          rOp rec = OpEnqueue \<and> rQueue rec = name \<and> \<not> (since \<noteq> zero_time \<and> EnqueuedAt x < since))"

definition replay_item :: "string \<Rightarrow> gotime \<Rightarrow> wal_record \<Rightarrow> (string \<times> int) list \<Rightarrow> (string \<times> int) list" where
  "replay_item name since rec found =
     (case rMsg rec of
        None \<Rightarrow> found
      | Some x \<Rightarrow> if replay_wants name since rec then found @ [(Body x, Priority x)] else found)"

fun publish :: "queue \<Rightarrow> wal \<Rightarrow> world \<Rightarrow> (string \<times> int) list \<Rightarrow> nat \<Rightarrow>
    queue \<times> wal \<times> world \<times> nat \<times> unit result" where
  "publish q w W [] n = (q, w, W, n, Inr ())"
| "publish q w W ((body, priority) # its) n =
     (case Enqueue q w W body priority 0 of
        (q1, w1, W1, Inl e) \<Rightarrow> (q1, w1, W1, n, Inl e)
      | (q1, w1, W1, Inr _) \<Rightarrow> publish q1 w1 W1 its (Suc n))"

definition Replay ::
  "manager \<Rightarrow> world \<Rightarrow> string \<Rightarrow> Bookmark \<Rightarrow> gotime \<Rightarrow> manager \<times> world \<times> nat \<times> unit result" where
  "Replay m W name bm since =
     (case Get m name of
        Inl e \<Rightarrow> (m, W, 0, Inl e)
      | Inr q \<Rightarrow>
          (let ep = fst (wal_Bookmark (m_wal m)) in
           if b_Offset bm > 0 \<and> b_Epoch bm \<noteq> ep then (m, W, 0, Inl (ErrStaleBookmark (b_Epoch bm) ep))
           else (case Scan (m_wal m) W (b_Offset bm)
                        (\<lambda>rec off found. (replay_item name since rec found, None)) [] of
                   (w1, W1, found, Inl e) \<Rightarrow> (m\<lparr>m_wal := w1\<rparr>, W1, 0, Inl e)
                 | (w1, W1, found, Inr _) \<Rightarrow>
                     (case publish q w1 W1 found 0 of
                        (q2, w2, W2, n, r) \<Rightarrow>
                          (m\<lparr>m_wal := w2, m_queues := AList.update name q2 (m_queues m)\<rparr>, W2, n, r)))))"

section \<open>Compaction, the pump, closing\<close>

definition emit :: "queue \<Rightarrow> msg \<Rightarrow> wal_record" where
  "emit q m = (q_record q OpEnqueue)\<lparr>rMsg := Some (m\<lparr>Receipt := '''', LeaseExpiry := zero_time\<rparr>)\<rparr>"

definition liveRecordsLocked :: "queue \<Rightarrow> wal_record list" where
  "liveRecordsLocked q =
     (q_record q OpCreateQueue)\<lparr>rConfig := Some (q_cfg q), rSeq := q_seq q\<rparr> #
     map (\<lambda>p. emit q (q_mem q p)) (items (q_ready q)) @
     map (\<lambda>p. emit q (q_mem q p)) (items (q_delayed q)) @
     map (\<lambda>p. emit q (q_mem q p)) (items (q_inflight q)) @
     concat (map (\<lambda>p. [emit q (q_mem q p), (q_record q OpDLQ)\<lparr>rID := ID (q_mem q p)\<rparr>]) (q_dlq q))"

definition m_Compact :: "manager \<Rightarrow> world \<Rightarrow> manager \<times> world \<times> unit result" where
  "m_Compact m W =
     (let qs = sort_key (\<lambda>q. Name (q_cfg q)) (map snd (m_queues m));
          recs = concat (map liveRecordsLocked qs)
      in (case wal_Compact (m_wal m) W recs of (w1, W1, r) \<Rightarrow> (m\<lparr>m_wal := w1\<rparr>, W1, r)))"

fun tick_all :: "(string \<times> queue) list \<Rightarrow> wal \<Rightarrow> world \<Rightarrow> gotime \<Rightarrow>
    ((string \<times> queue) list \<times> wal \<times> world) option" where
  "tick_all [] w W now = Some ([], w, W)"
| "tick_all ((name, q) # qs) w W now =
     (case Tick q w W now of
        None \<Rightarrow> None
      | Some (q1, w1, W1) \<Rightarrow>
          map_option (\<lambda>(qs', w2, W2). ((name, q1) # qs', w2, W2)) (tick_all qs w1 W1 now))"

definition pump_tick :: "manager \<Rightarrow> world \<Rightarrow> (manager \<times> world) option" where
  "pump_tick m W =
     (if m_stop m then Some (m, W)
      else (case time_Now W of
              (now, W1) \<Rightarrow>
                map_option (\<lambda>(qs, w, W2). (m\<lparr>m_queues := qs, m_wal := w\<rparr>, W2))
                  (tick_all (m_queues m) (m_wal m) W1 now)))"

definition m_Close :: "manager \<Rightarrow> world \<Rightarrow> manager \<times> world \<times> unit result" where
  "m_Close m W =
     (if m_closed m then (m, W, Inr ())
      else (case wal_Close (m_wal m) W of
              (w1, W1, r) \<Rightarrow> (m\<lparr>m_wal := w1, m_stop := True, m_closed := True\<rparr>, W1, r)))"

end
