(* ===== verification/FQ_Recovery.thy ===== *)
theory FQ_Recovery
  imports FQ_Manager FQ_Queue_Hist
begin

text \<open>
  What recovery makes of a log. The records of one queue are folded into its staging area
  (\<open>stage\<close>), independently of the records of the others; \<open>sview\<close> reads off which messages a
  restart would bring back and which of them as dead letters. \<open>backs\<close> relates the messages
  in memory to that view, and the lemmas here follow it through the kinds of record.
\<close>

section \<open>Reinstalling messages\<close>

lemma install_spec:
  assumes "qinv q"
  shows "hold [q_next q] (install q m)" and "abs (install q m) = abs q" and "lease_ok (install q m)"
    and "val (install q m) (q_next q) = strip (released m)" and "q_cfg (install q m) = q_cfg q"
    and "q_seq (install q m) = q_seq q"
  using assms hold_fresh [of "[]" q "released m"]
  by (simp_all add: qinv_def install_def released_def val_def)

lemma restore_live_spec:
  "qinv q \<Longrightarrow> qinv (restore_live q now ms) \<and>
     abs (restore_live q now ms) = fold (\<lambda>m. gate now (strip (released m))) ms (abs q) \<and>
     q_cfg (restore_live q now ms) = q_cfg q \<and> q_seq (restore_live q now ms) = q_seq q"
proof (induction ms arbitrary: q)
  case (Cons m ms)
  note i = install_spec [OF Cons.prems, of m]
  let ?q = "placeLocked (install q m) (q_next q) now"
  have "qinv ?q" using placeLocked_hold(1) [OF i(1)] placeLocked_lease_ok [OF i(1,3)] by (simp add: qinv_def)
  moreover have "abs ?q = gate now (strip (released m)) (abs q)" using placeLocked_gate [OF i(1)] i(2,4) by simp
  ultimately show ?case using Cons.IH [of ?q] i(5,6) by simp
qed simp

lemma restore_dead_spec:
  "qinv q \<Longrightarrow> qinv (restore_dead q ms) \<and>
     abs (restore_dead q ms) = (abs q)\<lparr>a_dlq := a_dlq (abs q) @ map (strip \<circ> released) ms\<rparr> \<and>
     q_cfg (restore_dead q ms) = q_cfg q \<and> q_seq (restore_dead q ms) = q_seq q"
proof (induction ms arbitrary: q)
  case (Cons m ms)
  note i = install_spec [OF Cons.prems, of m]
  let ?q = "(install q m)\<lparr>q_dlq := q_dlq q @ [q_next q]\<rparr>"
  have d: "q_dlq (install q m) = q_dlq q" by (simp add: install_def)
  have "qinv ?q" "abs ?q = (abs q)\<lparr>a_dlq := a_dlq (abs q) @ [strip (released m)]\<rparr>"
    using hold_dlq [OF i(1)] i(2,3,4) d by (simp_all add: qinv_def)
  then show ?case using Cons.IH [of ?q] i(5,6) by simp
qed simp

section \<open>The staging area of one queue\<close>

definition stage :: "string \<Rightarrow> wal_record list \<Rightarrow> staging" where
  "stage name rs = fold stage_record (filter (\<lambda>r. rQueue r = name) rs) new_staging"

lemma stage_append: "stage name (rs @ ss) = fold stage_record (filter (\<lambda>r. rQueue r = name) ss) (stage name rs)"
  by (simp add: stage_def)

lemma stage_other: "\<forall>r \<in> set ss. rQueue r \<noteq> name \<Longrightarrow> stage name (rs @ ss) = stage name rs"
  by (simp add: stage_append filter_False)

lemma stage_own: "\<forall>r \<in> set ss. rQueue r = name \<Longrightarrow> stage name (rs @ ss) = fold stage_record ss (stage name rs)"
  by (simp add: stage_append)

lemma map_of_entry: "map_of (AList.map_entry k f al) i = (if i = k then map_option f (map_of al k) else map_of al i)"
  by (induction al) auto

lemma keys_entry [simp]: "map fst (AList.map_entry k f al) = map fst al"
  by (induction al) auto

lemma bump_simps [simp]:
  "live (bump k s) = live s" "dlq_ids (bump k s) = dlq_ids s" "maxSeq (bump k s) = max k (maxSeq s)"
  by (auto simp: bump_def max_def)

lemma amend_simps [simp]:
  "dlq_ids (amend i f s) = dlq_ids s" "maxSeq (amend i f s) = maxSeq s"
  "map_of (live (amend i f s)) j = (if j = i then map_option f (map_of (live s) i) else map_of (live s) j)"
  "map fst (live (amend i f s)) = map fst (live s)"
  by (simp_all add: amend_def map_of_entry)

text \<open>
  The invariant of a staging area: one entry per identifier, filed under the message's own
  identifier, with a sequence number within the high-water mark.
\<close>

definition stage_inv :: "staging \<Rightarrow> bool" where
  "stage_inv s \<longleftrightarrow>
     distinct (map fst (live s)) \<and> (\<forall>i m. map_of (live s) i = Some m \<longrightarrow> ID m = i \<and> Seq m \<le> maxSeq s)"

lemma stage_inv_amend:
  assumes "stage_inv s" and "\<And>m. ID (f m) = ID m" and "\<And>m. Seq (f m) = Seq m"
  shows "stage_inv (amend i f s)"
  using assms by (auto simp: stage_inv_def)

lemma stage_inv_step: "stage_inv s \<Longrightarrow> stage_inv (stage_record r s)"
proof -
  assume s: "stage_inv s"
  show ?thesis
  proof (cases "rOp r = OpEnqueue \<and> rMsg r \<noteq> None")
    case True
    then obtain m where "stage_record r s = bump (Seq m) (s\<lparr>live := AList.update (ID m) m (live s)\<rparr>)"
      by (auto simp: stage_record_def)
    then show ?thesis using s by (auto simp: stage_inv_def distinct_update update_conv' le_max_iff_disj)
  next
    case False
    have "stage_inv (s\<lparr>live := AList.delete (rID r) (live s), dlq_ids := ds\<rparr>)" "stage_inv (s\<lparr>dlq_ids := ds\<rparr>)" "stage_inv (bump k s)" for ds k
      using s by (auto simp: stage_inv_def distinct_delete delete_conv' le_max_iff_disj split: if_splits)
    then show ?thesis using s False
      by (auto simp: stage_record_def stage_inv_amend split: Op.splits option.splits)
  qed
qed

lemma stage_inv_stage: "stage_inv (stage name rs)"
proof -
  have "stage_inv s \<Longrightarrow> stage_inv (fold stage_record rs s)" for rs s
    by (induction rs arbitrary: s) (simp_all add: stage_inv_step)
  moreover have "stage_inv new_staging" by (simp add: stage_inv_def new_staging_def)
  ultimately show ?thesis by (simp add: stage_def)
qed

section \<open>What a restart would bring back\<close>

type_synonym core = "string \<times> string \<times> int \<times> u64 \<times> gotime"

definition sview :: "staging \<Rightarrow> string \<Rightarrow> (core \<times> bool) option" where
  "sview s i = map_option (\<lambda>m. (core m, i \<in> set (dlq_ids s))) (map_of (live s) i)"

definition qview :: "aqueue \<Rightarrow> (core \<times> bool) multiset" where
  "qview A = image_mset (\<lambda>m. (core m, False)) (a_ready A + a_delayed A + a_inflight A) +
     image_mset (\<lambda>m. (core m, True)) (mset (a_dlq A))"

text \<open>
  The messages of a queue, each with the note whether it is dead, are backed by a staging
  area: no two of them share an identifier, and each is staged with that note.
\<close>

definition backs :: "(core \<times> bool) multiset \<Rightarrow> staging \<Rightarrow> bool" where
  "backs V s \<longleftrightarrow>
     (\<forall>i. count (image_mset (fst \<circ> fst) V) i \<le> 1) \<and> (\<forall>x \<in># V. sview s (fst (fst x)) = Some x)"

lemma backs_mono: "backs V s \<Longrightarrow> V' \<subseteq># V \<Longrightarrow> backs V' s"
  unfolding backs_def by (meson image_mset_subseteq_mono le_trans mset_subset_eqD mset_subset_eq_count)

lemma backs_empty [simp]: "backs {#} s"
  by (simp add: backs_def)

lemma count_once:
  "(\<forall>i. (k = i \<longrightarrow> c i = 0) \<and> (k \<noteq> i \<longrightarrow> c i \<le> Suc 0)) \<longleftrightarrow> (\<forall>i. c i \<le> Suc 0) \<and> c k = (0::nat)"
  by (metis le0)

lemma backs_add:
  "backs (add_mset x V) s \<longleftrightarrow>
     backs V s \<and> sview s (fst (fst x)) = Some x \<and> (\<forall>y \<in># V. fst (fst y) \<noteq> fst (fst x))"
proof -
  let ?I = "image_mset (fst \<circ> fst) V"
  have "(\<forall>i. count (image_mset (fst \<circ> fst) (add_mset x V)) i \<le> 1) \<longleftrightarrow>
      (\<forall>i. count ?I i \<le> 1) \<and> count ?I (fst (fst x)) = 0"
    using count_once [of "fst (fst x)" "count ?I"] by (simp split: if_splits)
  moreover have "count ?I (fst (fst x)) = 0 \<longleftrightarrow> (\<forall>y \<in># V. fst (fst y) \<noteq> fst (fst x))"
    unfolding count_eq_zero_iff set_image_mset image_iff comp_def by metis
  ultimately show ?thesis by (auto simp: backs_def)
qed

lemma backs_cong:
  assumes "backs V s" and "\<And>y. y \<in># V \<Longrightarrow> sview s' (fst (fst y)) = sview s (fst (fst y))"
  shows "backs V s'"
  using assms by (simp add: backs_def)

section \<open>What each kind of record does\<close>

definition sids :: "staging \<Rightarrow> string set" where
  "sids s = fst ` set (live s) \<union> set (dlq_ids s)"

lemma sids_view: "sview s i = Some x \<Longrightarrow> i \<in> sids s"
  by (auto simp: sview_def sids_def dest: map_of_SomeD intro: rev_image_eqI)

lemma core_ID [simp]: "fst (core m) = ID m"
  by (simp add: core_def)

lemma amend_view:
  assumes "\<And>m. core (f m) = core m"
  shows "sview (amend i f s) = sview s" and "sids (amend i f s) = sids s"
proof -
  show "sview (amend i f s) = sview s"
    using assms by (auto simp: sview_def fun_eq_iff option.map_comp comp_def)
  show "sids (amend i f s) = sids s" by (metis amend_simps(1,4) set_map sids_def)
qed

lemma stage_enq [simp]:
  "sview (stage_record (norm (enq_rec name m)) s) = (sview s)(ID m \<mapsto> (core m, ID m \<in> set (dlq_ids s)))"
  "sids (stage_record (norm (enq_rec name m)) s) = insert (ID m) (sids s)"
  by (auto simp: stage_record_def enq_rec_def sview_def sids_def update_conv' dom_update fun_eq_iff)

lemma stage_lease [simp]:
  "sview (stage_record (norm (lease_rec name m)) s) = sview s"
  "sids (stage_record (norm (lease_rec name m)) s) = sids s"
  by (simp_all add: stage_record_def lease_rec_def amend_view)

lemma stage_ack [simp]:
  "sview (stage_record (norm (id_rec OpAck name i)) s) = (sview s)(i := None)"
  "sids (stage_record (norm (id_rec OpAck name i)) s) \<subseteq> sids s"
  using dom_delete_subset [of i "live s"]
  by (auto simp: stage_record_def id_rec_def sview_def sids_def delete_conv' fun_eq_iff)

lemma stage_replay [simp]:
  "sview (stage_record (norm (id_rec OpReplay name i)) s) = (sview s)(i := map_option (\<lambda>(c, _). (c, False)) (sview s i))"
  "sids (stage_record (norm (id_rec OpReplay name i)) s) \<subseteq> sids s"
proof -
  let ?s = "s\<lparr>dlq_ids := removeAll i (dlq_ids s)\<rparr>" and ?f = "\<lambda>cur. cur\<lparr>Attempts := 0\<rparr>"
  have e: "stage_record (norm (id_rec OpReplay name i)) s = amend i ?f ?s"
    by (simp add: stage_record_def id_rec_def)
  show "sview (stage_record (norm (id_rec OpReplay name i)) s) = (sview s)(i := map_option (\<lambda>(c, _). (c, False)) (sview s i))"
    unfolding e by (subst amend_view(1)) (auto simp: sview_def fun_eq_iff option.map_comp comp_def)
  show "sids (stage_record (norm (id_rec OpReplay name i)) s) \<subseteq> sids s"
    unfolding e by (subst amend_view(2)) (auto simp: sids_def)
qed

lemma stage_retry:
  "sview (stage_record (norm (retry_rec cfg now d m)) s) =
     (if dead cfg m then (sview s)(ID m := map_option (\<lambda>(c, _). (c, True)) (sview s (ID m))) else sview s)"
  "sids (stage_record (norm (retry_rec cfg now d m)) s) \<subseteq> insert (ID m) (sids s)"
  by (auto simp: stage_record_def retry_rec_def amend_view)
     (auto simp: sview_def sids_def fun_eq_iff option.map_comp comp_def)

section \<open>Following the operations of a queue\<close>

lemma qview_gate [simp]: "qview (gate now m A) = add_mset (core m, False) (qview A)"
  by (simp add: gate_def qview_def)

lemma qview_dlq [simp]: "qview (A\<lparr>a_dlq := a_dlq A @ [m]\<rparr>) = add_mset (core m, True) (qview A)"
  by (simp add: qview_def)

lemma qview_cores: "image_mset fst (qview A) = cores A"
  by (simp add: qview_def cores_def allm_def multiset.map_comp comp_def)

text \<open>
  \<open>follows V rs V'\<close>: records \<open>rs\<close> written while the messages change from \<open>V\<close> to \<open>V'\<close> keep
  them backed, and introduce no identifier.
\<close>

definition follows :: "(core \<times> bool) multiset \<Rightarrow> wal_record list \<Rightarrow> (core \<times> bool) multiset \<Rightarrow> bool" where
  "follows V rs V' \<longleftrightarrow>
     (\<forall>s. backs V s \<longrightarrow>
        backs V' (fold stage_record (map norm rs) s) \<and> sids (fold stage_record (map norm rs) s) \<subseteq> sids s)"

lemma follows_refl: "V' \<subseteq># V \<Longrightarrow> follows V [] V'"
  by (auto simp: follows_def intro: backs_mono)

lemma follows_trans [trans]: "follows V rs V' \<Longrightarrow> follows V' rs' V'' \<Longrightarrow> follows V (rs @ rs') V''"
  by (fastforce simp: follows_def)

lemma qview_retry:
  "qview (retry_spec cfg now d ok m A) =
     (if ok \<or> dead cfg m then add_mset (core m, ok \<and> dead cfg m) (qview A) else qview A)"
  by (simp add: retry_spec_def)

lemma follows_retry:
  "follows (add_mset (core m, False) V) (logged ok (retry_rec cfg now d m))
     (if ok \<or> dead cfg m then add_mset (core m, ok \<and> dead cfg m) V else V)"
proof -
  have "backs (add_mset (core m, dead cfg m) V) (stage_record (norm (retry_rec cfg now d m)) s) \<and>
      sids (stage_record (norm (retry_rec cfg now d m)) s) \<subseteq> sids s"
    if b: "backs (add_mset (core m, False) V) s" for s
  proof -
    have v: "sview s (ID m) = Some (core m, False)" "\<forall>y \<in># V. fst (fst y) \<noteq> ID m" "backs V s"
      using b by (simp_all add: backs_add)
    have "backs V (stage_record (norm (retry_rec cfg now d m)) s)"
      using backs_cong [OF v(3)] v(2) by (simp add: stage_retry)
    then show ?thesis using v stage_retry(2) [of cfg now d m s] sids_view [OF v(1)]
      by (auto simp: backs_add stage_retry(1))
  qed
  then show ?thesis by (auto simp: follows_def logged_def backs_add)
qed

lemma follows_retries:
  "follows (qview A + image_mset (\<lambda>m. (core m, False)) (mset (map fst xs))) (reclaim_recs cfg now xs)
     (qview (fold (\<lambda>(m, ok). retry_spec cfg now 0 ok (released m)) xs A))"
proof (induction xs arbitrary: A)
  case (Cons x xs)
  obtain m ok where x: "x = (m, ok)" by fastforce
  let ?A = "retry_spec cfg now 0 ok (released m) A" and ?X = "image_mset (\<lambda>m. (core m, False)) (mset (map fst xs))"
  have "follows (add_mset (core m, False) (qview A + ?X)) (logged ok (retry_rec cfg now 0 (released m))) (qview ?A + ?X)"
    using follows_retry [of "released m" "qview A + ?X" ok cfg now 0] by (auto simp: qview_retry split: if_splits)
  from follows_trans [OF this Cons.IH [of ?A]] show ?case by (simp add: x reclaim_recs_def)
qed (simp add: follows_refl reclaim_recs_def)

lemma follows_advance:
  assumes "advance_run (q, w, W) now xs (q', w', W')"
  shows "follows (qview (abs q)) (reclaim_recs (q_cfg q) now xs) (qview (abs q'))"
proof -
  let ?due = "\<lambda>m. Ready m now" and ?ex = "\<lambda>m. LeaseExpiry m \<le> now" and ?A = "abs q"
  have r: "mset (map fst xs) = filter_mset ?ex (a_inflight ?A)" "abs q' = advance (q_cfg q) now xs ?A"
    using assms unfolding advance_run_def prod.case by blast+
  have "qview (?A\<lparr>a_ready := a_ready ?A + filter_mset ?due (a_delayed ?A),
      a_delayed := filter_mset (\<lambda>m. \<not> ?due m) (a_delayed ?A),
      a_inflight := filter_mset (\<lambda>m. \<not> ?ex m) (a_inflight ?A)\<rparr>) +
      image_mset (\<lambda>m. (core m, False)) (filter_mset ?ex (a_inflight ?A)) = qview ?A"
    using image_filter_split [of "\<lambda>m. (core m, False)" ?due "a_delayed ?A"]
      image_filter_split [of "\<lambda>m. (core m, False)" ?ex "a_inflight ?A"]
    by (simp add: qview_def) (simp add: ac_simps)
  then show ?thesis using follows_retries [of _ xs "q_cfg q" now] unfolding r advance_def by metis
qed

lemma follows_leases: "follows V (map (lease_rec name) ms) V"
proof -
  have "sview (fold stage_record (map norm (map (lease_rec name) ms)) s) = sview s \<and>
      sids (fold stage_record (map norm (map (lease_rec name) ms)) s) = sids s" for s
    by (induction ms arbitrary: s) simp_all
  then show ?thesis unfolding follows_def by (metis backs_cong order_refl)
qed

lemma received_view:
  assumes "received q limit t res q'"
  shows "qview (abs q') = qview (abs q)"
proof (cases res)
  case (Inr out)
  let ?g = "\<lambda>m. (core m, False)"
  obtain ms rs where r: "mset ms \<subseteq># a_ready (abs q)" "length rs = length ms"
    "abs q' = (abs q)\<lparr>a_ready := a_ready (abs q) - mset ms,
       a_inflight := mset (map2 (leased t) ms rs) + a_inflight (abs q)\<rparr>"
    using assms Inr by (auto simp: received_def front_def)
  have "map ?g (map2 (leased t) ms rs) = map ?g ms" using r(2) by (induction ms rs rule: list_induct2') auto
  then have "image_mset ?g (mset (map2 (leased t) ms rs)) = image_mset ?g (mset ms)"
    by (simp only: mset_map [symmetric])
  moreover have "image_mset ?g (a_ready (abs q)) = image_mset ?g (a_ready (abs q) - mset ms) + image_mset ?g (mset ms)"
    unfolding image_mset_union [symmetric] using r(1) by simp
  ultimately show ?thesis using r(3) by (simp add: qview_def ac_simps)
qed (use assms in \<open>simp add: received_def\<close>)

lemma qview_take:
  assumes "m \<in># a_inflight A"
  shows "qview A = add_mset (core m, False) (qview (A\<lparr>a_inflight := a_inflight A - {#m#}\<rparr>))"
proof -
  obtain B where "a_inflight A = add_mset m B" using assms by (metis insert_DiffM)
  then show ?thesis by (simp add: qview_def)
qed

lemma follows_ack: "follows (add_mset (core m, False) V) [id_rec OpAck name (ID m)] V"
proof -
  have "backs V (stage_record (norm (id_rec OpAck name (ID m))) s)" if "backs (add_mset (core m, False) V) s" for s
    by (rule backs_cong [of V s]) (use that in \<open>auto simp: backs_add\<close>)
  then show ?thesis by (simp add: follows_def)
qed

lemma follows_replay:
  "follows (V + image_mset (\<lambda>m. (core m, True)) (mset ms)) (map (id_rec OpReplay name) (map ID ms))
     (V + image_mset (\<lambda>m. (core m, False)) (mset ms))"
proof (induction ms arbitrary: V)
  case (Cons m ms)
  let ?T = "image_mset (\<lambda>m. (core m, True)) (mset ms)"
  have "backs (add_mset (core m, False) (V + ?T)) (stage_record (norm (id_rec OpReplay name (ID m))) s)"
    if b: "backs (add_mset (core m, True) (V + ?T)) s" for s
  proof -
    have v: "sview s (ID m) = Some (core m, True)" "\<forall>y \<in># V + ?T. fst (fst y) \<noteq> ID m" "backs (V + ?T) s"
      using b by (simp_all add: backs_add)
    have "backs (V + ?T) (stage_record (norm (id_rec OpReplay name (ID m))) s)"
      using backs_cong [OF v(3)] v(2) by simp
    then show ?thesis using v by (simp add: backs_add)
  qed
  then have "follows (add_mset (core m, True) (V + ?T)) [id_rec OpReplay name (ID m)] (add_mset (core m, False) V + ?T)"
    by (simp add: follows_def)
  from follows_trans [OF this Cons.IH] show ?case by simp
qed (simp add: follows_refl)

lemma qview_revive:
  assumes "k \<le> length (a_dlq A)"
  shows "follows (qview A) (map (id_rec OpReplay name) (take k (map ID (a_dlq A))))
    (qview (A\<lparr>a_ready := mset (map (revived t) (take k (a_dlq A))) + a_ready A, a_dlq := drop k (a_dlq A)\<rparr>))"
proof -
  let ?ms = "take k (a_dlq A)" and ?V = "qview (A\<lparr>a_dlq := drop k (a_dlq A)\<rparr>)"
  have "mset (a_dlq A) = mset ?ms + mset (drop k (a_dlq A))" by (metis append_take_drop_id mset_append)
  then have "qview A = ?V + image_mset (\<lambda>m. (core m, True)) (mset ?ms)" by (simp add: qview_def)
  moreover have "image_mset (\<lambda>m. (core m, False)) (mset (map (revived t) ms)) = image_mset (\<lambda>m. (core m, False)) (mset ms)" for ms
    by (induction ms) simp_all
  then have "qview (A\<lparr>a_ready := mset (map (revived t) ?ms) + a_ready A, a_dlq := drop k (a_dlq A)\<rparr>) =
      ?V + image_mset (\<lambda>m. (core m, False)) (mset ?ms)"
    by (simp add: qview_def ac_simps del: mset_map)
  ultimately show ?thesis using follows_replay [of ?V ?ms name] by (simp add: take_map)
qed

section \<open>One operation of a queue, seen from the log\<close>

definition minted :: "world \<Rightarrow> nat \<Rightarrow> string" where
  "minted W n = EncodeToString (map (rnds W n) [0..<16])"

text \<open>
  Between two states of a queue its own records were appended; either they follow the
  messages, or one message was added under the identifier drawn for it.
\<close>

definition qstep :: "queue \<Rightarrow> wal \<Rightarrow> world \<Rightarrow> queue \<Rightarrow> wal \<Rightarrow> world \<Rightarrow> bool" where
  "qstep q w W q' w' W' \<longleftrightarrow> qinv q' \<and> q_cfg q' = q_cfg q \<and>
     (\<exists>recs. grew (w, W) recs (w', W') \<and> (\<forall>r \<in> set recs. rQueue r = Name (q_cfg q) \<and> rOp r \<noteq> OpCreateQueue) \<and>
        (follows (qview (abs q)) recs (qview (abs q')) \<or>
         (\<exists>m. recs = [enq_rec (Name (q_cfg q)) m] \<and> ID m = minted W (rnd_i W) \<and> rnd_i W < rnd_i W' \<and>
            qview (abs q') = add_mset (core m, False) (qview (abs q)))))"

lemma qstepI:
  assumes "qinv q'" and "q_cfg q' = q_cfg q" and "grew (w, W) recs (w', W')"
    and "\<forall>r \<in> set recs. rQueue r = Name (q_cfg q) \<and> rOp r \<noteq> OpCreateQueue"
    and "follows (qview (abs q)) recs (qview (abs q'))"
  shows "qstep q w W q' w' W'"
  using assms unfolding qstep_def by blast

lemma recs_own [simp]:
  "rQueue (enq_rec name m) = name" "rQueue (lease_rec name m) = name" "rQueue (id_rec oper name i) = name"
  "rQueue (retry_rec cfg now d m) = Name cfg" "rOp (enq_rec name m) = OpEnqueue" "rOp (lease_rec name m) = OpLease"
  "rOp (id_rec oper name i) = oper" "rOp (retry_rec cfg now d m) \<noteq> OpCreateQueue"
  "\<forall>r \<in> set (reclaim_recs cfg now xs). rQueue r = Name cfg \<and> rOp r \<noteq> OpCreateQueue"
  "\<forall>r \<in> set (logged ok (retry_rec cfg now d m)). rQueue r = Name cfg \<and> rOp r \<noteq> OpCreateQueue"
  by (auto simp: enq_rec_def lease_rec_def id_rec_def retry_rec_def reclaim_recs_def logged_def split: if_splits)

lemma qstep_same: "qinv q \<Longrightarrow> qstep q w W q w W"
  by (rule qstepI [of _ _ _ _ "[]"]) (simp_all add: follows_refl)

lemma Enqueue_qstep:
  assumes inv: "qinv q" and e: "Enqueue q w W body priority delay = (q', w', W', res)"
  shows "qstep q w W q' w' W'"
proof (cases "priority = 0 \<or> Priority_on (q_cfg q)")
  case True
  note sp = Enqueue_spec [OF inv True e]
  show ?thesis
  proof (cases res)
    case (Inl err)
    then show ?thesis using sp by (intro qstepI [of _ _ _ _ "[]"]) (simp_all add: follows_refl logged_def)
  next
    case (Inr x)
    let ?m = "fresh_msg q W body priority delay"
    have "ID ?m = minted W (rnd_i W)" by (simp add: fresh_msg_def newID_def minted_def)
    moreover have "qview (abs q') = add_mset (core ?m, False) (qview (abs q))" using sp(5) Inr by auto
    ultimately show ?thesis using sp(1,3,6,7) Inr unfolding qstep_def
      by (intro conjI exI [of _ "[enq_rec (Name (q_cfg q)) ?m]"]) (auto simp: logged_def)
  qed
next
  case False
  then show ?thesis using Enqueue_refused [of priority q] e qstep_same [OF inv] by simp
qed

lemma Tick_qstep:
  assumes inv: "qinv q" and e: "Tick q w W now = Some (q', w', W')"
  shows "qstep q w W q' w' W'"
proof -
  obtain xs where a: "advance_run (q, w, W) now xs (q', w', W')"
    using advanceLocked_spec [OF inv, of w W now] e by (auto simp: Tick_def)
  then have "qinv q'" "q_cfg q' = q_cfg q" "grew (w, W) (reclaim_recs (q_cfg q) now xs) (w', W')"
    unfolding advance_run_def prod.case by blast+
  then show ?thesis using follows_advance [OF a] by (intro qstepI) simp_all
qed

lemma tryReceive_qstep:
  assumes inv: "qinv q" and e: "tryReceive q w W limit visibility = Some (q', w', W', wake, res)"
  shows "qstep q w W q' w' W'"
proof -
  let ?now = "nows W (now_i W)"
  obtain xs q2 w2 W2 recs where r: "qinv q'" "advance_run (q, w, W) ?now xs (q2, w2, W2)"
    "received q2 limit (?now + visibility) res q'"
    "rest (q'\<lparr>q_leases := q_leases q2, q_delivered := q_delivered q2\<rparr>) = rest q2"
    "received_recs q2 W2 limit (?now + visibility) res recs" "grew (w2, W2) recs (w', W')"
    using tryReceive_spec [OF inv, of w W limit visibility] e by auto
  then have a: "q_cfg q2 = q_cfg q" "grew (w, W) (reclaim_recs (q_cfg q) ?now xs) (w2, W2)"
    unfolding advance_run_def prod.case by blast+
  obtain ls where ls: "recs = map (lease_rec (Name (q_cfg q))) ls" using r(5) unfolding received_recs_def a(1) by blast
  have "follows (qview (abs q)) (reclaim_recs (q_cfg q) ?now xs @ recs) (qview (abs q'))"
    using follows_trans [OF follows_advance [OF r(2)] follows_leases] received_view [OF r(3)] ls by simp
  moreover have "q_cfg q' = q_cfg q" using rest_sel(1) [OF r(4)] a(1) by simp
  ultimately show ?thesis using r(1) grew_trans [OF a(2) r(6)] recs_own(9) [of "q_cfg q" ?now xs] ls
    by (intro qstepI) auto
qed

lemma Ack_qstep:
  assumes inv: "qinv q" and e: "Ack q w W receipt = Some (q', w', W', r)"
  shows "qstep q w W q' w' W'"
proof (cases "q_leases q receipt")
  case (Some p)
  have a: "qinv q'" "grew (w, W) (logged (\<not> isl r) (id_rec OpAck (Name (q_cfg q)) (ID (val q p)))) (w', W')"
    "q_cfg q' = q_cfg q" "case r of Inl e \<Rightarrow> q' = q | Inr _ \<Rightarrow> val q p \<in># a_inflight (abs q) \<and>
         abs q' = (abs q)\<lparr>a_inflight := a_inflight (abs q) - {#val q p#}\<rparr>"
    using Ack_spec [OF inv Some, of w W] e by (auto split: sum.splits)
  show ?thesis
  proof (cases r)
    case Inl
    then show ?thesis using a by (intro qstepI [of _ _ _ _ "[]"]) (simp_all add: follows_refl logged_def)
  next
    case Inr
    then have "follows (qview (abs q)) [id_rec OpAck (Name (q_cfg q)) (ID (val q p))] (qview (abs q'))"
      using a(4) qview_take [of "val q p" "abs q"] follows_ack by auto
    then show ?thesis using a Inr by (intro qstepI) (simp_all add: logged_def)
  qed
qed (use e no_lease(1) qstep_same [OF inv] in auto)

lemma Nack_qstep:
  assumes inv: "qinv q" and e: "Nack q w W receipt delay = Some (q', w', W', r)"
  shows "qstep q w W q' w' W'"
proof (cases "q_leases q receipt")
  case (Some p)
  let ?m = "released (val q p)" and ?B = "(abs q)\<lparr>a_inflight := a_inflight (abs q) - {#val q p#}\<rparr>" and ?now = "nows W (now_i W)"
  have n: "qinv q'" "val q p \<in># a_inflight (abs q)" "q_cfg q' = q_cfg q"
    "abs q' = retry_spec (q_cfg q) ?now delay (\<not> isl r) ?m ?B"
    "grew (w, W) (logged (\<not> isl r) (retry_rec (q_cfg q) ?now delay ?m)) (w', W')"
    using Nack_spec [OF inv Some, of w W delay] e by auto
  have "follows (qview (abs q)) (logged (\<not> isl r) (retry_rec (q_cfg q) ?now delay ?m)) (qview (abs q'))"
    using follows_retry [of ?m "qview ?B" "\<not> isl r" "q_cfg q" ?now delay]
    unfolding n(4) qview_retry qview_take [OF n(2)] by simp
  then show ?thesis using n by (intro qstepI) simp_all
qed (use e no_lease(2) qstep_same [OF inv] in auto)

lemma Extend_qstep:
  assumes inv: "qinv q" and e: "Extend q W receipt visibility = Some (q', W', r)"
  shows "qstep q w W q' w W'"
proof (cases "q_leases q receipt")
  case (Some p)
  let ?t = "nows W (now_i W) + (if visibility \<le> 0 then Visibility (q_cfg q) else visibility)"
  have x: "qinv q'" "abs q' = (abs q)\<lparr>a_inflight := add_mset ((val q p)\<lparr>LeaseExpiry := ?t\<rparr>) (a_inflight (abs q) - {#val q p#})\<rparr>"
    "val q p \<in># a_inflight (abs q)" "rest q' = rest q" "grew (w, W) [] (w, W')"
    using Extend_spec [OF inv Some refl, of W visibility] e by auto
  have "qview (abs q') = qview (abs q)" unfolding x(2) using qview_take [OF x(3)] by (simp add: qview_def)
  then show ?thesis using x rest_sel(1) [OF x(4)] by (intro qstepI [of _ _ _ _ "[]"]) (simp_all add: follows_refl)
qed (use e no_lease(3) qstep_same [OF inv] in auto)

lemma ReplayDLQ_qstep:
  assumes inv: "qinv q" and e: "ReplayDLQ q w W = (q', w', W', k, r)"
  shows "qstep q w W q' w' W'"
  using ReplayDLQ_spec [OF inv e] qview_revive [of k "abs q" "Name (q_cfg q)" "nows W (now_i W)"]
  by (intro qstepI [of _ _ _ _ "map (id_rec OpReplay (Name (q_cfg q))) (take k (map ID (a_dlq (abs q))))"]) auto

lemma perform_qstep:
  assumes inv: "qinv q" and e: "perform oper (q, w, W) = Some (q', w', W')"
  shows "qstep q w W q' w' W'"
  using e Enqueue_qstep [OF inv, of w W] tryReceive_qstep [OF inv, of w W] Ack_qstep [OF inv, of w W]
    Nack_qstep [OF inv, of w W] Extend_qstep [OF inv, of W] Tick_qstep [OF inv, of w W] ReplayDLQ_qstep [OF inv, of w W]
  by (cases oper) (auto simp: perform_def split: prod.splits)

end
