(* ===== verification/FQ_System.thy ===== *)
theory FQ_System
  imports FQ_Recovery
begin

text \<open>
  The whole program over time: every queue of the manager, the shared log and the world. The
  invariant \<open>sinv\<close> says that, unless a failure of the log is latched, each queue's messages
  are backed by what recovery would read; every operation of the manager keeps it, and
  reopening the log rebuilds at least the messages that were in memory.
\<close>

section \<open>Recovery, queue by queue\<close>

definition first_config :: "string \<Rightarrow> wal_record list \<Rightarrow> Config option" where
  "first_config name rs =
     (case filter (\<lambda>r. rOp r = OpCreateQueue \<and> rQueue r = name \<and> rConfig r \<noteq> None) rs of
        [] \<Rightarrow> None | r # _ \<Rightarrow> rConfig r)"

lemma first_config_Nil [simp]: "first_config name [] = None"
  by (simp add: first_config_def)

lemma first_config_Cons:
  "first_config name (r # rs) =
     (if rOp r = OpCreateQueue \<and> rQueue r = name \<and> rConfig r \<noteq> None then rConfig r else first_config name rs)"
  by (auto simp: first_config_def)

lemma first_config_append:
  "first_config name (rs @ ss) = (case first_config name rs of None \<Rightarrow> first_config name ss | Some c \<Rightarrow> Some c)"
  by (induction rs) (auto simp: first_config_Cons)

lemma first_config_none: "\<forall>r \<in> set rs. rOp r = OpCreateQueue \<longrightarrow> rQueue r \<noteq> name \<Longrightarrow> first_config name rs = None"
  by (induction rs) (auto simp: first_config_Cons)

lemma first_config_norm [simp]: "first_config name (map norm rs) = first_config name rs"
  by (induction rs) (auto simp: first_config_Cons)

lemma first_config_data [simp]: "first_config name (data rs) = first_config name rs"
  by (induction rs) (auto simp: first_config_Cons data_def)

lemma stage_untouched: "\<not> touches r \<Longrightarrow> stage_record r s = s"
  by (cases "rOp r") (auto simp: touches_def stage_record_def split: option.splits)

lemma stage_data [simp]: "stage name (data rs) = stage name rs"
proof -
  have "rOp r = OpEpoch \<Longrightarrow> stage_record r s = s" for r s by (simp add: stage_untouched touches_def)
  then have "fold stage_record (filter (\<lambda>r. rQueue r = name) (data rs)) s = fold stage_record (filter (\<lambda>r. rQueue r = name) rs) s" for s
    by (induction rs arbitrary: s) (auto simp: data_def)
  then show ?thesis by (simp add: stage_def)
qed

lemma get_staging_update:
  "get_staging name (AList.update k s p) = (if name = k then s else get_staging name p)"
  by (simp add: get_staging_def update_conv')

lemma recover_record_step:
  "get_staging name (r_pending (recover_record r R)) =
     (if rQueue r = name then stage_record r (get_staging name (r_pending R)) else get_staging name (r_pending R))"
  "map_of (r_queues (recover_record r R)) name =
     (case map_of (r_queues R) name of
        Some q \<Rightarrow> Some q
      | None \<Rightarrow> map_option New (first_config name [r]))"
  by (auto simp: recover_record_def stage_untouched Let_def get_staging_update update_conv' first_config_Cons touches_def
      split: Op.splits option.splits if_splits)

lemma recover_fold:
  "get_staging name (r_pending (fold recover_record rs R)) =
     fold stage_record (filter (\<lambda>r. rQueue r = name) rs) (get_staging name (r_pending R))"
  "map_of (r_queues (fold recover_record rs R)) name =
     (case map_of (r_queues R) name of Some q \<Rightarrow> Some q | None \<Rightarrow> map_option New (first_config name rs))"
  by (induction rs arbitrary: R)
     (auto simp: recover_record_step first_config_Cons split: option.splits if_splits)

lemma recover_distinct:
  "distinct (map fst (r_queues R)) \<Longrightarrow> distinct (map fst (r_pending R)) \<Longrightarrow>
     distinct (map fst (r_queues (fold recover_record rs R))) \<and> distinct (map fst (r_pending (fold recover_record rs R)))"
  by (induction rs arbitrary: R)
     (auto simp: recover_record_def Let_def distinct_update split: Op.splits option.splits)

text \<open>Staging the records as a restart reads them, and as the history abstracts them.\<close>

definition strip_staging :: "staging \<Rightarrow> staging" where
  "strip_staging s = s\<lparr>live := map (apsnd strip) (live s)\<rparr>"

lemma alist_apsnd:
  "AList.update k (f v) (map (apsnd f) al) = map (apsnd f) (AList.update k v al)"
  "AList.delete k (map (apsnd f) al) = map (apsnd f) (AList.delete k al)"
  by (induction al) (auto simp: AList.delete_eq)

lemma alist_entry_apsnd:
  "(\<And>v. g (f v) = f (g v)) \<Longrightarrow> AList.map_entry k g (map (apsnd f) al) = map (apsnd f) (AList.map_entry k g al)"
  by (induction al) auto

lemma stage_record_norm: "stage_record (norm r) (strip_staging s) = strip_staging (stage_record r s)"
  by (cases "rOp r"; cases "rMsg r")
     (auto simp: stage_record_def strip_staging_def amend_def bump_def alist_apsnd alist_entry_apsnd
       split: option.splits)

lemma stage_norm: "stage name (map norm rs) = strip_staging (stage name rs)"
proof -
  have "fold stage_record (filter (\<lambda>r. rQueue r = name) (map norm rs)) (strip_staging s) =
      strip_staging (fold stage_record (filter (\<lambda>r. rQueue r = name) rs) s)" for s
    by (induction rs arbitrary: s) (simp_all add: stage_record_norm)
  moreover have "strip_staging new_staging = new_staging" by (simp add: strip_staging_def new_staging_def)
  ultimately show ?thesis unfolding stage_def by metis
qed

section \<open>The contents of a recovered queue\<close>

definition restored :: "gotime \<Rightarrow> staging \<Rightarrow> aqueue" where
  "restored now s =
     (fold (\<lambda>m. gate now (strip (released m))) (staged_live s) \<lparr>a_ready = {#}, a_delayed = {#}, a_inflight = {#}, a_dlq = []\<rparr>)
       \<lparr>a_dlq := map (strip \<circ> released) (staged_dead s)\<rparr>"

lemma fold_gate_frame:
  "a_inflight (fold (\<lambda>m. gate now (g m)) ms A) = a_inflight A" "a_dlq (fold (\<lambda>m. gate now (g m)) ms A) = a_dlq A"
  by (induction ms arbitrary: A) (auto simp: gate_def)

lemma restore_spec:
  assumes "restore (New cfg) W (staged_live s) (staged_dead s) (maxSeq s) = (q, W')"
  shows "qinv q \<and> q_cfg q = q_cfg (New cfg) \<and> q_seq q = maxSeq s \<and> abs q = restored (nows W (now_i W)) s \<and>
    W' = W\<lparr>now_i := Suc (now_i W)\<rparr>"
proof -
  let ?now = "nows W (now_i W)" and ?q = "(New cfg)\<lparr>q_seq := maxSeq s\<rparr>"
  have q: "qinv ?q" "abs ?q = abs (New cfg)"
    using New_spec(1) [of cfg] by (simp_all add: qinv_def hold_def lease_ok_def refs_def abs_def val_def)
  note l = restore_live_spec [OF q(1), of ?now "staged_live s"]
  note d = restore_dead_spec [OF conjunct1 [OF l], of "staged_dead s"]
  show ?thesis
    using assms l d q(2) by (auto simp: restore_def time_Now_def restored_def New_spec(2) fold_gate_frame)
qed

lemma qview_fold_gate:
  "qview (fold (\<lambda>m. gate now (strip (released m))) ms A) = image_mset (\<lambda>m. (core m, False)) (mset ms) + qview A"
  by (induction ms arbitrary: A) simp_all

lemma staged_mset:
  "mset (staged_live s) = image_mset snd (filter_mset (\<lambda>x. fst x \<notin> set (dlq_ids s)) (mset (live s)))"
  "mset (staged_dead s) = image_mset snd (filter_mset (\<lambda>x. fst x \<in> set (dlq_ids s)) (mset (live s)))"
  by (simp_all add: staged_live_def staged_dead_def case_prod_beta')

lemma image_split:
  "image_mset (\<lambda>x. (f x, False)) (filter_mset (\<lambda>x. \<not> P x) L) + image_mset (\<lambda>x. (f x, True)) (filter_mset P L) =
     image_mset (\<lambda>x. (f x, P x)) L"
  by (induction L) auto

lemma qview_restored:
  "qview (restored now s) = image_mset (\<lambda>x. (core (snd x), fst x \<in> set (dlq_ids s))) (mset (live s))"
proof -
  let ?D = "set (dlq_ids s)" and ?L = "mset (live s)"
  let ?E = "\<lparr>a_ready = {#}, a_delayed = {#}, a_inflight = {#}, a_dlq = []\<rparr>"
  have "qview (A\<lparr>a_dlq := ds\<rparr>) = qview A + image_mset (\<lambda>m. (core m, True)) (mset ds)" if "a_dlq A = []" for A ds
    using that by (simp add: qview_def)
  then have "qview (restored now s) = qview (fold (\<lambda>m. gate now (strip (released m))) (staged_live s) ?E) +
      image_mset (\<lambda>m. (core m, True)) (mset (map (strip \<circ> released) (staged_dead s)))"
    by (simp add: restored_def fold_gate_frame)
  also have "\<dots> = image_mset (\<lambda>m. (core m, False)) (mset (staged_live s)) + image_mset (\<lambda>m. (core m, True)) (mset (staged_dead s))"
    by (simp add: qview_fold_gate multiset.map_comp comp_def) (simp add: qview_def)
  also have "\<dots> = image_mset (\<lambda>x. (core (snd x), False)) (filter_mset (\<lambda>x. fst x \<notin> ?D) ?L) +
      image_mset (\<lambda>x. (core (snd x), True)) (filter_mset (\<lambda>x. fst x \<in> ?D) ?L)"
    by (simp add: staged_mset multiset.map_comp comp_def)
  also have "\<dots> = image_mset (\<lambda>x. (core (snd x), fst x \<in> ?D)) ?L"
    by (rule image_split)
  finally show ?thesis .
qed

lemma backs_restored:
  assumes "stage_inv s"
  shows "backs (qview (restored now s)) s"
proof -
  have e: "map_of (live s) (fst x) = Some (snd x) \<and> ID (snd x) = fst x" if "x \<in> set (live s)" for x
  proof -
    have "map_of (live s) (fst x) = Some (snd x)" using assms that by (simp add: stage_inv_def map_of_is_SomeI)
    then show ?thesis using assms by (auto simp: stage_inv_def)
  qed
  have "image_mset (fst \<circ> fst) (qview (restored now s)) = image_mset (\<lambda>x. ID (snd x)) (mset (live s))"
    by (simp add: qview_restored multiset.map_comp comp_def)
  also have "\<dots> = mset (map fst (live s))" using e by (auto intro: image_mset_cong)
  finally have "count (image_mset (fst \<circ> fst) (qview (restored now s))) i \<le> 1" for i
    using assms distinct_count_atmost_1 [of "map fst (live s)"] by (simp add: stage_inv_def)
  moreover have "sview s (fst (fst y)) = Some y" if "y \<in># qview (restored now s)" for y
    using that e by (auto simp: qview_restored sview_def)
  ultimately show ?thesis by (simp add: backs_def)
qed

lemma count_le_image: "count V x \<le> count (image_mset f V) (f x)"
  by (induction V) auto

lemma backs_restored_all:
  assumes "backs V s"
  shows "V \<subseteq># qview (restored now s)"
proof (rule mset_subset_eqI)
  fix x
  show "count V x \<le> count (qview (restored now s)) x"
  proof (cases "x \<in># V")
    case True
    have "count V x \<le> count (image_mset (fst \<circ> fst) V) (fst (fst x))"
      using count_le_image [of V x "fst \<circ> fst"] by simp
    also have "\<dots> \<le> 1" using assms by (simp add: backs_def)
    finally have "count V x \<le> 1" .
    moreover have "x \<in># qview (restored now s)"
    proof -
      obtain m where m: "map_of (live s) (fst (fst x)) = Some m" "x = (core m, fst (fst x) \<in> set (dlq_ids s))"
        using assms True by (auto simp: backs_def sview_def)
      have "(fst (fst x), m) \<in> set (live s)" using map_of_SomeD [OF m(1)] .
      then have "(core m, fst (fst x) \<in> set (dlq_ids s)) \<in># qview (restored now s)"
        unfolding qview_restored by force
      then show ?thesis using m(2) by metis
    qed
    ultimately show ?thesis by (metis One_nat_def Suc_leI count_greater_zero_iff le_trans)
  qed (simp add: not_in_iff)
qed

lemma restored_inflight [simp]: "a_inflight (restored now s) = {#}"
  by (simp add: restored_def fold_gate_frame)

lemma strip_staging_view [simp]:
  "sview (strip_staging s) = sview s" "sids (strip_staging s) = sids s" "maxSeq (strip_staging s) = maxSeq s"
proof -
  have "map_of (map (apsnd strip) al) i = map_option strip (map_of al i)" for al :: "(string \<times> msg) list" and i
    by (induction al) auto
  then show "sview (strip_staging s) = sview s"
    by (auto simp: sview_def strip_staging_def fun_eq_iff option.map_comp comp_def)
  show "sids (strip_staging s) = sids s" "maxSeq (strip_staging s) = maxSeq s"
    by (auto simp: sids_def strip_staging_def image_image)
qed

lemma sort_key_map: "(\<And>x. f (g x) = f x) \<Longrightarrow> sort_key f (map g xs) = map g (sort_key f xs)"
proof -
  assume f: "\<And>x. f (g x) = f x"
  have "insort_key f (g x) (map g ys) = map g (insort_key f x ys)" for x ys
    by (induction ys) (simp_all add: f)
  then show ?thesis by (induction xs) simp_all
qed

lemma strip_released [simp]: "strip (released (strip m)) = strip (released m)"
  by (simp add: released_def strip_def)

lemma restored_strip [simp]: "restored now (strip_staging s) = restored now s"
proof -
  have f: "map snd (filter (\<lambda>(i, _). P i) (map (apsnd strip) al)) = map strip (map snd (filter (\<lambda>(i, _). P i) al))"
    for P and al :: "(string \<times> msg) list" by (induction al) auto
  have "staged_live (strip_staging s) = map strip (staged_live s)" "staged_dead (strip_staging s) = map strip (staged_dead s)"
    using f [of "\<lambda>i. i \<notin> set (dlq_ids s)"] f [of "\<lambda>i. i \<in> set (dlq_ids s)"]
    by (simp_all add: staged_live_def staged_dead_def strip_staging_def sort_key_map [where g = strip, symmetric])
  then show ?thesis by (simp add: restored_def fold_map comp_def)
qed

lemma backs_strip [simp]: "backs V (strip_staging s) = backs V s"
  by (simp add: backs_def)

definition revives :: "(string \<times> queue) list \<Rightarrow> (string \<times> queue) list \<Rightarrow> string \<Rightarrow> staging \<Rightarrow> bool" where
  "revives qs qs' name s \<longleftrightarrow>
     (case map_of qs name of
        None \<Rightarrow> map_of qs' name = None
      | Some q0 \<Rightarrow> \<exists>q now. map_of qs' name = Some q \<and> qinv q \<and> q_cfg q = q_cfg q0 \<and> q_seq q = maxSeq s \<and>
          abs q = restored now s)"

lemma sids_empty: "sids s = {} \<longleftrightarrow> live s = [] \<and> dlq_ids s = []"
  by (auto simp: sids_def)

lemma recover_finish_ok:
  "distinct (map fst ps) \<Longrightarrow>
   (\<And>name s. (name, s) \<in> set ps \<Longrightarrow> (\<exists>cfg. map_of qs name = Some (New cfg)) \<or> map_of qs name = None \<and> sids s = {}) \<Longrightarrow>
     \<exists>qs' k. recover_finish ps qs W = (qs', W\<lparr>now_i := now_i W + k\<rparr>, Inr ()) \<and>
       (distinct (map fst qs) \<longrightarrow> distinct (map fst qs')) \<and>
       (\<forall>name. name \<notin> fst ` set ps \<longrightarrow> map_of qs' name = map_of qs name) \<and>
       (\<forall>name s. (name, s) \<in> set ps \<longrightarrow> revives qs qs' name s)"
proof (induction ps arbitrary: qs W)
  case Nil
  have "W = W\<lparr>now_i := now_i W + 0\<rparr>" by simp
  then show ?case by (intro exI [of _ qs] exI [of _ 0]) simp
next
  case (Cons p ps)
  obtain name s where p: "p = (name, s)" by fastforce
  have nd: "name \<notin> fst ` set ps" "distinct (map fst ps)" using Cons.prems(1) by (auto simp: p)
  show ?case
  proof (cases "map_of qs name")
    case None
    then have "live s = []" "dlq_ids s = []" using Cons.prems(2) [of name s] by (auto simp: p sids_empty)
    then have rf: "recover_finish (p # ps) qs W = recover_finish ps qs W" using None by (simp add: p)
    obtain qs' k where IH: "recover_finish ps qs W = (qs', W\<lparr>now_i := now_i W + k\<rparr>, Inr ())"
      "distinct (map fst qs) \<longrightarrow> distinct (map fst qs')"
      "\<forall>n. n \<notin> fst ` set ps \<longrightarrow> map_of qs' n = map_of qs n" "\<forall>n s. (n, s) \<in> set ps \<longrightarrow> revives qs qs' n s"
      using Cons.IH [OF nd(2), of qs W] Cons.prems(2) by auto
    have "revives qs qs' name s" using IH(3) nd(1) None by (simp add: revives_def)
    then show ?thesis using rf IH by (intro exI [of _ qs'] exI [of _ k]) (auto simp: p)
  next
    case (Some q0)
    then obtain cfg where q0: "q0 = New cfg" using Cons.prems(2) [of name s] by (auto simp: p)
    obtain q W1 where r: "restore q0 W (staged_live s) (staged_dead s) (maxSeq s) = (q, W1)" by fastforce
    note rs = restore_spec [OF r [unfolded q0]]
    let ?qs = "AList.update name q qs"
    have rf: "recover_finish (p # ps) qs W = recover_finish ps ?qs W1" using Some r by (simp add: p)
    have "(\<exists>cfg. map_of ?qs n = Some (New cfg)) \<or> map_of ?qs n = None \<and> sids t = {}" if "(n, t) \<in> set ps" for n t
    proof -
      have "n \<noteq> name" using that nd(1) by force
      then show ?thesis using Cons.prems(2) [of n t] that by (simp add: update_conv')
    qed
    from Cons.IH [OF nd(2) this, of W1] obtain qs' k where IH: "recover_finish ps ?qs W1 = (qs', W1\<lparr>now_i := now_i W1 + k\<rparr>, Inr ())"
      "distinct (map fst ?qs) \<longrightarrow> distinct (map fst qs')"
      "\<forall>n. n \<notin> fst ` set ps \<longrightarrow> map_of qs' n = map_of ?qs n" "\<forall>n s. (n, s) \<in> set ps \<longrightarrow> revives ?qs qs' n s"
      by auto
    have "map_of qs' name = Some q" using IH(3) nd(1) by (simp add: update_conv')
    then have "revives qs qs' name s" using rs Some by (auto simp: revives_def q0)
    moreover have "revives qs qs' n t" if "(n, t) \<in> set ps" for n t
    proof -
      have "n \<noteq> name" using that nd(1) by force
      moreover have "revives ?qs qs' n t" using IH(4) that by blast
      ultimately show ?thesis by (simp add: revives_def update_conv')
    qed
    moreover have "W1\<lparr>now_i := now_i W1 + k\<rparr> = W\<lparr>now_i := now_i W + Suc k\<rparr>" using rs by simp
    ultimately show ?thesis using rf IH(1-3)
      by (intro exI [of _ qs'] exI [of _ "Suc k"]) (auto simp: p distinct_update update_conv')
  qed
qed

section \<open>Reopening the log\<close>

text \<open>The next system calls do not fail.\<close>

definition calm :: "nat \<Rightarrow> world \<Rightarrow> bool" where
  "calm k W \<longleftrightarrow> (\<forall>n < k. ios W (io_i W + n) = IOok)"

lemma calm_3: "calm 3 W \<longleftrightarrow> ios W (io_i W) = IOok \<and> ios W (Suc (io_i W)) = IOok \<and> ios W (Suc (Suc (io_i W))) = IOok"
  by (auto simp: calm_def numeral_3_eq_3 less_Suc_eq)

lemma Recover_calm:
  assumes h: "handle_ok w W" and rl: "calm 3 W" and sz: "w_size w = length (files W (w_f w))"
    and eq: "Recover w W (\<lambda>r off s. (g r s, None)) s = (w', W', s', res)"
  shows "res = Inr ()"
proof -
  have o: "opened W (w_f w)" using h by (simp add: handle_ok_def fs_ok_def)
  let ?W1 = "W\<lparr>io_i := Suc (io_i W)\<rparr>"
  obtain rs t where pr: "parse (unmarshal (json W)) (files W (w_f w)) = (rs, t)" by fastforce
  obtain reason where lp: "scan_loop (unmarshal (json W)) (\<lambda>r off s. (g r s, None)) (files W (w_f w)) False 0 (w_epoch w) s =
      (epoch_after (w_epoch w) rs, fold g (data rs) s,
       if t = [] \<and> \<not> False then ScanEOF else ScanFail (0 + (length (files W (w_f w)) - length t)) reason)"
    using scan_loop_parse [OF pr, of g False 0 "w_epoch w" s] by blast
  have tr: "\<exists>w2 W2. FQ_Wal.truncate v ?W1 at = (w2, W2, Inr ())" if "w_f v = w_f w" for v at
    using that o rl
    by (auto simp: FQ_Wal.truncate_def os_Truncate_def os_Sync_def draw_def calm_3)
  have r: "os_read (w_f w) 0 (w_size w) W = (?W1, files W (w_f w), False)"
    using o rl sz by (simp add: os_read_def draw_def calm_3)
  show ?thesis
    using eq r lp tr [of "w\<lparr>w_epoch := epoch_after (w_epoch w) rs\<rparr>" "length (files W (w_f w)) - length t"]
    by (auto simp: Recover_def scan_def Let_def split: if_splits)
qed

text \<open>
  Reopening the file of a log that is not latched, when no system call fails: recovery reads
  exactly its history, provided the bytes a failed write may have left behind the end of
  the log do not read as a record.
\<close>

definition clean_tail :: "wal \<Rightarrow> world \<Rightarrow> bool" where
  "clean_tail w W \<longleftrightarrow> fst (parse (unmarshal (json W)) (drop (w_size w) (files W (w_f w)))) = []"

lemma calm_6:
  assumes "calm 6 W" and "ios W' = ios W" and "io_i W' = Suc (Suc (Suc (io_i W)))"
  shows "ios W (io_i W) = IOok" "ios W (Suc (io_i W)) = IOok" "ios W (Suc (Suc (io_i W))) = IOok" "calm 3 W'"
proof -
  have c: "ios W (io_i W + n) = IOok" if "n < 6" for n using assms(1) that by (simp add: calm_def)
  show "ios W (io_i W) = IOok" "ios W (Suc (io_i W)) = IOok" "ios W (Suc (Suc (io_i W))) = IOok"
    using c [of 0] c [of 1] c [of 2] by simp_all
  show "calm 3 W'" using c [of "Suc (Suc (Suc n))" for n] assms(2,3) by (simp add: calm_def)
qed

lemma OpenWAL_again:
  assumes ok: "wal_ok w W" "w_failed w = None" and rl: "calm 6 W"
  shows "\<exists>w' W'. OpenWAL (w_path w) syncEvery W = (W', Inr w') \<and> handle_ok w' W' \<and> w_f w' = w_f w \<and>
    w_path w' = w_path w \<and> w_failed w' = None \<and> \<not> w_closed w' \<and> w_size w' = length (files W' (w_f w)) \<and> files W' = files W \<and>
    same_env W W' \<and> calm 3 W'"
proof -
  have d: "dir W (w_path w) = Some (w_f w)" "fs_ok (w_f w) (w_path w) W"
    using ok by (simp_all add: wal_ok_def handle_ok_def)
  let ?W = "W\<lparr>io_i := Suc (Suc (Suc (io_i W))), opened := (opened W)(w_f w := True)\<rparr>"
  let ?w = "\<lparr>w_f = w_f w, w_path = w_path w, w_size = length (files W (w_f w)), w_epoch = 0, w_retired = [],
    w_failed = None, w_syncEvery = syncEvery, w_dirty = False, w_stop = False, w_closed = False\<rparr>"
  have io: "ios W (io_i W) = IOok" "ios W (Suc (io_i W)) = IOok" "ios W (Suc (Suc (io_i W))) = IOok" "calm 3 ?W"
    using calm_6 [OF rl, of ?W] by simp_all
  have "OpenWAL (w_path w) syncEvery W = (?W, Inr ?w)"
    using d(1) by (simp add: OpenWAL_def os_MkdirAll_def os_OpenFile_def os_Stat_def draw_def io)
  moreover have sel: "dir ?W = dir W" "next_ino ?W = next_ino W" "opened ?W (w_f w)" by simp_all
  then have "fs_ok (w_f w) (w_path w) ?W" using d(2) unfolding fs_ok_def sel(1,2) by blast
  then have "handle_ok ?w ?W" using d(1) by (simp add: handle_ok_def)
  moreover have "same_env W ?W" by (simp add: same_env_def)
  ultimately show ?thesis using io(4) by (intro exI [of _ ?w] exI [of _ ?W]) simp
qed

lemma reopen_reads:
  assumes ok: "wal_ok w W" and cl: "clean_tail w W"
  shows "\<exists>rs t. parse (unmarshal (json W)) (files W (w_f w)) = (rs, t) \<and> map norm rs = history w W"
proof -
  let ?un = "unmarshal (json W)"
  have "parse ?un (logbytes w W) = (fst (parse ?un (logbytes w W)), [])" using ok by (metis prod.collapse wal_ok_def)
  from parse_append [OF this, of "drop (w_size w) (files W (w_f w))"] cl show ?thesis
    by (auto simp: clean_tail_def logbytes_def history_def)
qed

end
