(* ===== verification/FQ_Durability.thy ===== *)
theory FQ_Durability
  imports FQ_System
begin

text \<open>
  The invariant of the running program and its preservation by everything the manager does.
\<close>

section \<open>The system invariant\<close>

text \<open>
  \<open>tracked qs W H\<close>: the log with history \<open>H\<close> accounts for the queues \<open>qs\<close>. A queue that
  exists was created by a record that carries its configuration and its messages are
  backed; nothing is on record for a queue that does not exist; and every identifier on
  record was drawn from the random source.
\<close>

definition tracked :: "(string \<times> queue) list \<Rightarrow> world \<Rightarrow> wal_record list \<Rightarrow> bool" where
  "tracked qs W H \<longleftrightarrow>
     (\<forall>name. sids (stage name H) \<subseteq> minted W ` {..<rnd_i W} \<and>
        (case map_of qs name of
           None \<Rightarrow> first_config name H = None \<and> sids (stage name H) = {}
         | Some q \<Rightarrow> (\<exists>cfg. first_config name H = Some cfg \<and> q_cfg (New cfg) = q_cfg q) \<and>
             backs (qview (abs q)) (stage name H)))"

lemma trackedD:
  assumes "tracked qs W H"
  shows "sids (stage name H) \<subseteq> minted W ` {..<rnd_i W}"
    and "map_of qs name = None \<Longrightarrow> first_config name H = None \<and> sids (stage name H) = {}"
    and "map_of qs name = Some q \<Longrightarrow> (\<exists>cfg. first_config name H = Some cfg \<and> q_cfg (New cfg) = q_cfg q) \<and>
      backs (qview (abs q)) (stage name H)"
  using spec [OF assms [unfolded tracked_def], of name] by simp_all

definition queues_ok :: "(string \<times> queue) list \<Rightarrow> bool" where
  "queues_ok qs \<longleftrightarrow> distinct (map fst qs) \<and> (\<forall>name q. map_of qs name = Some q \<longrightarrow> qinv q \<and> Name (q_cfg q) = name)"

text \<open>
  The identifiers drawn so far are all different. Identifiers have 128 bits, so this cannot
  hold for ever, only for the draws that have been made.
\<close>

definition unrepeated :: "world \<Rightarrow> bool" where
  "unrepeated W \<longleftrightarrow> inj_on (minted W) {..<rnd_i W}"

definition sinv :: "(string \<times> queue) list \<Rightarrow> wal \<Rightarrow> world \<Rightarrow> bool" where
  "sinv qs w W \<longleftrightarrow>
     wal_ok w W \<and> codec_ok (json W) \<and> queues_ok qs \<and>
     (w_failed w = None \<longrightarrow> unrepeated W \<longrightarrow> tracked qs W (history w W))"

lemma queues_ok_update:
  "queues_ok qs \<Longrightarrow> qinv q \<Longrightarrow> Name (q_cfg q) = name \<Longrightarrow> queues_ok (AList.update name q qs)"
  by (auto simp: queues_ok_def distinct_update update_conv')

lemma minted_env: "same_env W W' \<Longrightarrow> minted W' = minted W" "same_env W W' \<Longrightarrow> rnd_i W \<le> rnd_i W'"
  by (simp_all add: same_env_def minted_def [abs_def])

lemma minted_mono: "same_env W W' \<Longrightarrow> minted W ` {..<rnd_i W} \<subseteq> minted W' ` {..<rnd_i W'}"
  using minted_env [of W W'] by auto

lemma unrepeated_env: "same_env W W' \<Longrightarrow> unrepeated W' \<Longrightarrow> unrepeated W"
  using minted_env [of W W'] by (auto simp: unrepeated_def intro: inj_on_subset)

lemma tracked_env: "tracked qs W H \<Longrightarrow> same_env W W' \<Longrightarrow> tracked qs W' H"
  using minted_mono [of W W'] unfolding tracked_def by (meson order_trans)

lemma sinv_env:
  assumes "sinv qs w W" and "grew (w, W) [] (w', W')"
  shows "sinv qs w' W'"
proof -
  have "same_env W W'" using assms(2) by (simp add: grew_def)
  then show ?thesis using assms tracked_env [of qs W _ W'] unrepeated_env [of W W']
    by (auto simp: sinv_def grew_def same_env_def)
qed

text \<open>What every step leaves alone: the world outside and the identity of the log.\<close>

definition onward :: "wal \<times> world \<Rightarrow> wal \<times> world \<Rightarrow> bool" where
  "onward s s' \<longleftrightarrow> same_env (snd s) (snd s') \<and> same_log (fst s) (fst s')"

lemma onward_refl [simp, intro]: "onward s s"
  by (simp add: onward_def)

lemma onward_trans [trans]: "onward s s' \<Longrightarrow> onward s' s'' \<Longrightarrow> onward s s''"
  unfolding onward_def using same_env_trans same_log_trans by blast

lemma onward_env: "onward (w, W) (w', W') \<Longrightarrow> same_env W W'"
  by (simp add: onward_def)

lemma grew_onward: "grew s rs s' \<Longrightarrow> onward s s'"
  by (simp add: grew_def onward_def)

lemma qstep_onward: "qstep q w W q' w' W' \<Longrightarrow> onward (w, W) (w', W')"
  unfolding qstep_def using grew_onward by blast

text \<open>One operation of one queue.\<close>

lemma qstep_tracked:
  assumes t: "tracked qs W H" and q: "map_of qs name = Some q" "Name (q_cfg q) = name" and se: "same_env W W'"
    and own: "\<forall>r \<in> set recs. rQueue r = name \<and> rOp r \<noteq> OpCreateQueue" and c: "q_cfg q' = q_cfg q"
    and b: "backs (qview (abs q')) (fold stage_record (map norm recs) (stage name H))"
    and s: "sids (fold stage_record (map norm recs) (stage name H)) \<subseteq> minted W' ` {..<rnd_i W'}"
  shows "tracked (AList.update name q' qs) W' (H @ map norm recs)"
proof -
  have fc: "first_config n (H @ map norm recs) = first_config n H" for n
    using own first_config_none [of recs n] by (simp add: first_config_append split: option.split)
  have st: "stage n (H @ map norm recs) = (if n = name then fold stage_record (map norm recs) (stage name H) else stage n H)" for n
    using own stage_own [of "map norm recs" name H] stage_other [of "map norm recs" n H] by auto
  show ?thesis
    using t q c b s minted_mono [OF se] unfolding tracked_def fc st update_conv'
    by (auto split: option.splits) blast+
qed

lemma qstep_sinv:
  assumes inv: "sinv qs w W" and q: "map_of qs name = Some q" and st: "qstep q w W q' w' W'"
  shows "sinv (AList.update name q' qs) w' W'"
proof -
  have qn: "qinv q" "Name (q_cfg q) = name" using inv q by (auto simp: sinv_def queues_ok_def)
  obtain recs where r: "qinv q'" "q_cfg q' = q_cfg q" "grew (w, W) recs (w', W')"
    "\<forall>r \<in> set recs. rQueue r = name \<and> rOp r \<noteq> OpCreateQueue"
    "follows (qview (abs q)) recs (qview (abs q')) \<or>
         (\<exists>m. recs = [enq_rec name m] \<and> ID m = minted W (rnd_i W) \<and> rnd_i W < rnd_i W' \<and>
            qview (abs q') = add_mset (core m, False) (qview (abs q)))"
    using st qn(2) unfolding qstep_def by auto
  have se: "same_env W W'" and g: "wal_ok w' W'" "w_failed w' = None \<longrightarrow> w_failed w = None \<and> history w' W' = history w W @ map norm recs"
    using r(3) inv by (auto simp: grew_def sinv_def)
  have "tracked (AList.update name q' qs) W' (history w W @ map norm recs)"
    if t: "tracked qs W (history w W)" and un: "unrepeated W'"
  proof -
    let ?s = "stage name (history w W)"
    have b: "backs (qview (abs q)) ?s" and d: "sids ?s \<subseteq> minted W ` {..<rnd_i W}"
      using trackedD(1,3) [OF t] q by auto
    have "backs (qview (abs q')) (fold stage_record (map norm recs) ?s) \<and>
        sids (fold stage_record (map norm recs) ?s) \<subseteq> minted W' ` {..<rnd_i W'}"
      using r(5)
    proof
      assume "follows (qview (abs q)) recs (qview (abs q'))"
      then show ?thesis using b d minted_mono [OF se] by (fastforce simp: follows_def)
    next
      assume "\<exists>m. recs = [enq_rec name m] \<and> ID m = minted W (rnd_i W) \<and> rnd_i W < rnd_i W' \<and>
            qview (abs q') = add_mset (core m, False) (qview (abs q))"
      then obtain m where m: "recs = [enq_rec name m]" "ID m = minted W (rnd_i W)" "rnd_i W < rnd_i W'"
        "qview (abs q') = add_mset (core m, False) (qview (abs q))" by blast
      have "minted W (rnd_i W) \<notin> minted W ` {..<rnd_i W}"
      proof
        assume "minted W (rnd_i W) \<in> minted W ` {..<rnd_i W}"
        then obtain j where j: "j < rnd_i W" "minted W (rnd_i W) = minted W j" by auto
        then show False
          using inj_onD [OF un [unfolded unrepeated_def minted_env(1) [OF se]] j(2)] m(3) by simp
      qed
      then have new: "ID m \<notin> sids ?s" using d m(2) by auto
      have "fst (fst y) \<noteq> ID m" if "y \<in># qview (abs q)" for y
      proof -
        have "sview ?s (fst (fst y)) = Some y" using b that by (simp add: backs_def)
        then show ?thesis using new sids_view by metis
      qed
      then have ne: "\<forall>y \<in># qview (abs q). fst (fst y) \<noteq> ID m" "ID m \<notin> set (dlq_ids ?s)"
        using new by (simp_all add: sids_def)
      have "backs (qview (abs q)) (stage_record (norm (enq_rec name m)) ?s)"
        using backs_cong [OF b] ne(1) by simp
      then show ?thesis using m d ne minted_env [OF se] by (auto simp: backs_add)
    qed
    then show ?thesis using qstep_tracked [OF t q qn(2) se r(4,2)] by blast
  qed
  then show ?thesis using inv g r(1,2) qn(2) se queues_ok_update [of qs q' name] unrepeated_env [OF se]
    by (auto simp: sinv_def same_env_def)
qed

section \<open>Creating, ticking, publishing\<close>

lemma New_idem [simp]: "q_cfg (New (q_cfg (New cfg))) = q_cfg (New cfg)" "Name (q_cfg (New cfg)) = Name cfg"
  by (simp_all add: New_def Let_def FIFO_def)

lemma stage_create:
  "rOp r = OpCreateQueue \<Longrightarrow> rConfig r = Some c \<Longrightarrow> stage_record (norm r) s = bump (rSeq r) s"
  by (simp add: stage_record_def)

lemma bump_view [simp]: "sview (bump k s) = sview s" "sids (bump k s) = sids s" "backs V (bump k s) = backs V s"
  by (simp_all add: sview_def sids_def backs_def fun_eq_iff)

lemma Create_sinv:
  assumes inv: "sinv (m_queues m) (m_wal m) W" and e: "Create m W cfg = (m', W', r)"
  shows "sinv (m_queues m') (m_wal m') W' \<and> onward (m_wal m, W) (m_wal m', W')"
proof -
  let ?q = "New cfg" and ?qs = "m_queues m" and ?w = "m_wal m"
  let ?rec = "zero_record\<lparr>rOp := OpCreateQueue, rQueue := Name cfg, rConfig := Some (q_cfg (New cfg))\<rparr>"
  show ?thesis
  proof (cases "m' = m \<and> W' = W")
    case False
    then have none: "map_of ?qs (Name cfg) = None" and
      ok: "Name cfg \<noteq> ''''" "\<not> (\<exists>c \<in> set (Name cfg). c \<in> set ''/?#% '')" "\<not> (Mode_of cfg \<noteq> FIFO \<and> Mode_of cfg \<noteq> LIFO)"
      using e by (auto simp: Create_def split: if_splits option.splits)
    obtain w1 W1 res where ap: "AppendSync ?w W ?rec = (w1, W1, res)" by (metis prod_cases3)
    have g: "grew (?w, W) (if isl res then [] else [?rec]) (w1, W1)" by (rule AppendSync_grew [OF ap])
    then have se: "same_env W W1" "onward (?w, W) (w1, W1)" by (simp_all add: grew_def onward_def)
    have m': "W' = W1" "m_wal m' = w1" "m_queues m' = (if isl res then ?qs else AList.update (Name cfg) ?q ?qs)"
      using e none ap unfolding Create_def Let_def if_not_P [OF ok(1)] if_not_P [OF ok(2)] if_not_P [OF ok(3)]
      by (cases res; auto)+
    show ?thesis
    proof (cases "isl res")
      case True
      then show ?thesis using sinv_env [OF inv, of w1 W1] g m' se by simp
    next
      case False
      let ?H = "history ?w W"
      have g: "wal_ok w1 W1" "w_failed w1 = None \<longrightarrow> w_failed ?w = None \<and> history w1 W1 = ?H @ map norm [?rec]"
        using g inv False by (auto simp: grew_def sinv_def)
      have "tracked (AList.update (Name cfg) ?q ?qs) W1 (?H @ map norm [?rec])" if t: "tracked ?qs W ?H"
      proof -
        have n: "first_config (Name cfg) ?H = None" "sids (stage (Name cfg) ?H) = {}"
          using trackedD(2) [OF t none] by auto
        have st: "stage n (?H @ map norm [?rec]) = (if n = Name cfg then bump 0 (stage n ?H) else stage n ?H)" for n
          by (simp add: stage_append stage_create zero_record_def)
        have fc: "first_config n (?H @ map norm [?rec]) = (if n = Name cfg then Some (q_cfg ?q) else first_config n ?H)" for n
          using n(1) by (auto simp: first_config_append first_config_Cons zero_record_def split: option.split)
        have "qview (abs ?q) = {#}" by (simp add: New_spec(2) qview_def)
        then show ?thesis using t n minted_mono [OF se(1)] unfolding tracked_def st fc update_conv'
          by (auto split: option.splits) blast
      qed
      then show ?thesis using inv g m' False se queues_ok_update [of ?qs ?q "Name cfg"] New_spec(1) unrepeated_env [OF se(1)]
        by (auto simp: sinv_def same_env_def)
    qed
  qed (use inv in auto)
qed

lemma update_split:
  "distinct (map fst (pre @ (name, q) # post)) \<Longrightarrow>
     AList.update name q' (pre @ (name, q) # post) = pre @ (name, q') # post"
  by (induction pre) auto

lemma tick_all_sinv:
  "sinv (pre @ qs) w W \<Longrightarrow>
     \<exists>qs' w' W'. tick_all qs w W now = Some (qs', w', W') \<and> sinv (pre @ qs') w' W' \<and> onward (w, W) (w', W')"
proof (induction qs arbitrary: pre w W)
  case (Cons x qs)
  obtain name q where x: "x = (name, q)" by fastforce
  have d: "distinct (map fst (pre @ (name, q) # qs))" using Cons.prems by (simp add: sinv_def queues_ok_def x)
  then have mo: "map_of (pre @ x # qs) name = Some q" by (auto simp: x map_add_Some_iff map_of_eq_None_iff)
  then have qi: "qinv q" using Cons.prems by (auto simp: sinv_def queues_ok_def)
  obtain q1 w1 W1 where t: "Tick q w W now = Some (q1, w1, W1)"
    using advanceLocked_spec [OF qi, of w W now] by (auto simp: Tick_def)
  note st = Tick_qstep [OF qi t]
  note se = qstep_onward [OF st]
  have "sinv ((pre @ [(name, q1)]) @ qs) w1 W1"
    using qstep_sinv [OF Cons.prems mo st] update_split [OF d] by (simp add: x)
  then obtain qs' w' W' where "tick_all qs w1 W1 now = Some (qs', w', W')"
    "sinv ((pre @ [(name, q1)]) @ qs') w' W'" "onward (w1, W1) (w', W')" using Cons.IH by blast
  then show ?case using t onward_trans [OF se] by (auto simp: x)
qed auto

lemma pump_tick_sinv:
  assumes "sinv (m_queues m) (m_wal m) W"
  shows "\<exists>m' W'. pump_tick m W = Some (m', W') \<and> sinv (m_queues m') (m_wal m') W' \<and> onward (m_wal m, W) (m_wal m', W')"
proof -
  let ?W = "W\<lparr>now_i := Suc (now_i W)\<rparr>"
  have "sinv (m_queues m) (m_wal m) ?W" by (rule sinv_env [OF assms grew_now])
  then obtain qs w' W' where "tick_all (m_queues m) (m_wal m) ?W (nows W (now_i W)) = Some (qs, w', W')"
    "sinv qs w' W'" "onward (m_wal m, ?W) (w', W')"
    using tick_all_sinv [of "[]" "m_queues m" "m_wal m" ?W "nows W (now_i W)"] by auto
  then show ?thesis using assms by (auto simp: pump_tick_def time_Now_def same_env_def onward_def)
qed

lemma update_update: "AList.update k v (AList.update k u al) = AList.update k v al"
  by (induction al) auto

lemma update_same: "map_of al k = Some v \<Longrightarrow> AList.update k v al = al"
  by (induction al) (auto split: if_splits)

lemma publish_sinv:
  "sinv qs w W \<Longrightarrow> map_of qs name = Some q \<Longrightarrow> publish q w W its n = (q', w', W', k, r) \<Longrightarrow>
     sinv (AList.update name q' qs) w' W' \<and> onward (w, W) (w', W')"
proof (induction its arbitrary: qs q w W n)
  case Nil
  then show ?case using update_same [of qs name q] by simp
next
  case (Cons it its)
  obtain body priority where it: "it = (body, priority)" by fastforce
  obtain q1 w1 W1 res where e: "Enqueue q w W body priority 0 = (q1, w1, W1, res)" by (metis prod_cases4)
  have qi: "qinv q" using Cons.prems(1,2) by (auto simp: sinv_def queues_ok_def)
  note st = Enqueue_qstep [OF qi e]
  note se = qstep_onward [OF st]
  have s1: "sinv (AList.update name q1 qs) w1 W1" by (rule qstep_sinv [OF Cons.prems(1,2) st])
  show ?case
  proof (cases res)
    case (Inl err)
    then show ?thesis using Cons.prems(3) e s1 se by (simp add: it)
  next
    case (Inr x)
    then have "publish q1 w1 W1 its (Suc n) = (q', w', W', k, r)" using Cons.prems(3) e by (simp add: it)
    from Cons.IH [OF s1 _ this] show ?thesis
      using onward_trans [OF se] by (auto simp: update_conv' update_update)
  qed
qed

section \<open>The snapshot of a queue\<close>

text \<open>The messages of a queue in the order compaction writes them, with the note whether dead.\<close>

definition contents :: "queue \<Rightarrow> (msg \<times> bool) list" where
  "contents q =
     map (\<lambda>p. (val q p, False)) (items (q_ready q) @ items (q_delayed q) @ items (q_inflight q)) @
     map (\<lambda>p. (val q p, True)) (q_dlq q)"

definition snap_recs :: "string \<Rightarrow> (msg \<times> bool) list \<Rightarrow> wal_record list" where
  "snap_recs name xs =
     concat (map (\<lambda>(m, b). enq_rec name (released m) # (if b then [id_rec OpDLQ name (ID m)] else [])) xs)"

lemma snapshot_records:
  "map norm (liveRecordsLocked q) =
     norm ((q_record q OpCreateQueue)\<lparr>rConfig := Some (q_cfg q), rSeq := q_seq q\<rparr>) #
     map norm (snap_recs (Name (q_cfg q)) (contents q))"
proof -
  have e: "norm (emit q (q_mem q p)) = norm (enq_rec (Name (q_cfg q)) (released (val q p)))" for p
    by (simp add: emit_def enq_rec_def q_record_def norm_def wire_def released_def val_def)
  have d: "norm ((q_record q OpDLQ)\<lparr>rID := ID (q_mem q p)\<rparr>) = norm (id_rec OpDLQ (Name (q_cfg q)) (ID (val q p)))" for p
    by (simp add: id_rec_eq)
  have f: "map norm (snap_recs name (map (\<lambda>p. (val q p, False)) ps)) = map norm (map (\<lambda>p. enq_rec name (released (val q p))) ps)" for name ps
    by (induction ps) (simp_all add: snap_recs_def)
  have t: "map norm (snap_recs name (map (\<lambda>p. (val q p, True)) ps)) =
      map norm (concat (map (\<lambda>p. [enq_rec name (released (val q p)), id_rec OpDLQ name (ID (val q p))]) ps))" for name ps
    by (induction ps) (simp_all add: snap_recs_def)
  have a: "snap_recs name (xs @ ys) = snap_recs name xs @ snap_recs name ys" for name xs ys
    by (simp add: snap_recs_def)
  have dd: "map norm (concat (map (\<lambda>p. [emit q (q_mem q p), (q_record q OpDLQ)\<lparr>rID := ID (q_mem q p)\<rparr>]) ps)) =
      map norm (concat (map (\<lambda>p. [enq_rec (Name (q_cfg q)) (released (val q p)), id_rec OpDLQ (Name (q_cfg q)) (ID (val q p))]) ps))" for ps
    by (induction ps) (simp_all add: e d)
  show ?thesis unfolding liveRecordsLocked_def contents_def a map_append list.map(2) f t dd by (simp add: e)
qed

text \<open>
  Staging a snapshot gives back exactly the messages, released from their leases, under
  their identifiers, and marks exactly the dead ones.
\<close>

lemma update_fresh: "k \<notin> fst ` set al \<Longrightarrow> AList.update k v al = al @ [(k, v)]"
  by (induction al) auto

definition snapshot :: "(msg \<times> bool) list \<Rightarrow> u64 \<Rightarrow> staging \<Rightarrow> bool" where
  "snapshot xs k s \<longleftrightarrow>
     live s = map (\<lambda>(m, b). (ID m, strip (released m))) xs \<and>
     set (dlq_ids s) = {ID m | m. (m, True) \<in> set xs} \<and> maxSeq s = foldl max k (map (Seq \<circ> fst) xs)"

lemma snapshot_step:
  assumes "snapshot xs k s" and "ID m \<notin> (ID \<circ> fst) ` set xs"
  shows "snapshot (xs @ [(m, b)]) k (fold stage_record (map norm (snap_recs name [(m, b)])) s)"
proof -
  have k: "ID m \<notin> fst ` set (live s)" using assms by (auto simp: snapshot_def image_iff)
  have d: "stage_record (norm (id_rec OpDLQ name i)) t = t\<lparr>dlq_ids := List.insert i (dlq_ids t)\<rparr>" for i t
    by (simp add: stage_record_def id_rec_def)
  have e: "stage_record (norm (enq_rec name (released m))) s =
      bump (Seq m) (s\<lparr>live := live s @ [(ID m, strip (released m))]\<rparr>)"
    using update_fresh [OF k] by (simp add: stage_record_def enq_rec_def released_def)
  show ?thesis using assms(1)
    by (cases b) (auto simp: snap_recs_def e d snapshot_def max.commute)
qed

lemma snapshot_fold:
  "snapshot xs k s \<Longrightarrow> distinct (map (ID \<circ> fst) (xs @ ys)) \<Longrightarrow>
     snapshot (xs @ ys) k (fold stage_record (map norm (snap_recs name ys)) s)"
proof (induction ys arbitrary: xs s)
  case (Cons y ys)
  obtain m b where y: "y = (m, b)" by fastforce
  have "ID m \<notin> (ID \<circ> fst) ` set xs" using Cons.prems(2) by (auto simp: y)
  note st = snapshot_step [OF Cons.prems(1) this, of b name]
  have "snap_recs name (y # ys) = snap_recs name [(m, b)] @ snap_recs name ys" by (simp add: snap_recs_def y)
  then show ?case using Cons.IH [OF st] Cons.prems(2) by (simp add: y)
qed (simp add: snap_recs_def)

lemma snapshot_queue:
  assumes "distinct (map (ID \<circ> fst) (contents q))"
  shows "snapshot (contents q) (q_seq q) (fold stage_record (map norm (liveRecordsLocked q)) new_staging)"
proof -
  have "snapshot [] (q_seq q) (bump (q_seq q) new_staging)"
    by (simp add: snapshot_def new_staging_def)
  from snapshot_fold [OF this, of "contents q"] assms show ?thesis
    by (simp add: snapshot_records stage_create q_record_def)
qed

lemma contents_view: "qview (abs q) = image_mset (\<lambda>(m, b). (core m, b)) (mset (contents q))"
  by (simp add: qview_def contents_def abs_def multiset.map_comp comp_def)

lemma snapshot_dead:
  assumes "snapshot xs k s" and "distinct (map (ID \<circ> fst) xs)" and x: "x \<in> set xs"
  shows "ID (fst x) \<in> set (dlq_ids s) \<longleftrightarrow> snd x"
proof
  assume "ID (fst x) \<in> set (dlq_ids s)"
  then obtain m where m: "(m, True) \<in> set xs" "ID m = ID (fst x)" using assms(1) by (auto simp: snapshot_def)
  then have "(m, True) = x" using assms(2) x by (auto simp: distinct_map inj_on_def)
  then show "snd x" by auto
next
  assume "snd x"
  then show "ID (fst x) \<in> set (dlq_ids s)" using assms(1) x by (cases x) (auto simp: snapshot_def)
qed

lemma snapshot_view:
  assumes "snapshot xs k s" and "distinct (map (ID \<circ> fst) xs)"
  shows "qview (restored now s) = image_mset (\<lambda>(m, b). (core m, b)) (mset xs)" and "sids s = (ID \<circ> fst) ` set xs"
    and "stage_inv s \<Longrightarrow> backs (image_mset (\<lambda>(m, b). (core m, b)) (mset xs)) s"
proof -
  note i = snapshot_dead [OF assms]
  have "mset (live s) = image_mset (\<lambda>(m, b). (ID m, strip (released m))) (mset xs)"
    using assms(1) by (simp add: snapshot_def)
  then show v: "qview (restored now s) = image_mset (\<lambda>(m, b). (core m, b)) (mset xs)" for now
    using i by (auto simp: qview_restored multiset.map_comp comp_def split_def intro!: image_mset_cong)
  have "fst ` set (live s) = (ID \<circ> fst) ` set xs"
    using assms(1) by (simp add: snapshot_def image_image split_def)
  moreover have "ID m \<in> (ID \<circ> fst) ` set xs" if "(m, True) \<in> set xs" for m using that by force
  then have "set (dlq_ids s) \<subseteq> (ID \<circ> fst) ` set xs" using assms(1) by (auto simp: snapshot_def)
  ultimately show "sids s = (ID \<circ> fst) ` set xs" by (auto simp: sids_def)
  show "stage_inv s \<Longrightarrow> backs (image_mset (\<lambda>(m, b). (core m, b)) (mset xs)) s"
    using backs_restored [of s] v by simp
qed

section \<open>Compaction\<close>

lemma backs_distinct:
  assumes "backs (qview (abs q)) s"
  shows "distinct (map (ID \<circ> fst) (contents q))"
proof -
  have "image_mset (fst \<circ> fst) (qview (abs q)) = mset (map (ID \<circ> fst) (contents q))"
    by (simp add: contents_view multiset.map_comp comp_def split_def)
  then have c: "count (mset (map (ID \<circ> fst) (contents q))) i \<le> 1" for i using assms by (simp add: backs_def)
  have "count (mset (map (ID \<circ> fst) (contents q))) i = (if i \<in> set (map (ID \<circ> fst) (contents q)) then 1 else 0)" for i
    using c [of i] by (cases "i \<in> set (map (ID \<circ> fst) (contents q))")
      (metis count_greater_zero_iff le_antisym One_nat_def Suc_leI set_mset_mset, metis count_mset_0_iff)
  then show ?thesis by (simp add: distinct_count_atmost_1)
qed

lemma live_own: "r \<in> set (liveRecordsLocked q) \<Longrightarrow> rQueue r = Name (q_cfg q)"
  by (auto simp: liveRecordsLocked_def emit_def q_record_def)

lemma live_filter:
  "distinct (map (\<lambda>q. Name (q_cfg q)) Q) \<Longrightarrow>
     filter (\<lambda>r. rQueue r = n) (concat (map liveRecordsLocked Q)) =
       (case find (\<lambda>q. Name (q_cfg q) = n) Q of None \<Rightarrow> [] | Some q \<Rightarrow> liveRecordsLocked q)"
proof (induction Q)
  case (Cons q Q)
  have f: "filter (\<lambda>r. rQueue r = n) (liveRecordsLocked q) = (if Name (q_cfg q) = n then liveRecordsLocked q else [])"
    using live_own [of _ q] by (auto simp: filter_id_conv filter_empty_conv)
  have "find (\<lambda>q. Name (q_cfg q) = n) Q = None" if "Name (q_cfg q) = n"
    using Cons.prems that by (auto simp: find_None_iff image_iff)
  then show ?case using Cons f by (auto split: option.splits)
qed simp

lemma live_create:
  "first_config n (liveRecordsLocked q) = (if Name (q_cfg q) = n then Some (q_cfg q) else None)"
proof (cases "Name (q_cfg q) = n")
  case False
  then show ?thesis using live_own [of _ q] by (auto intro!: first_config_none)
qed (simp add: liveRecordsLocked_def first_config_Cons q_record_def)

lemma first_config_filter: "first_config n (filter (\<lambda>r. rQueue r = n) rs) = first_config n rs"
  by (induction rs) (auto simp: first_config_Cons)

lemma find_unique:
  "distinct (map f Q) \<Longrightarrow> q \<in> set Q \<Longrightarrow> find (\<lambda>x. f x = f q) Q = Some q"
  by (induction Q) (auto simp: image_iff)

lemma snapshot_stage:
  assumes qs: "queues_ok qs" and Q: "mset Q = mset (map snd qs)"
  shows "filter (\<lambda>r. rQueue r = n) (concat (map liveRecordsLocked Q)) =
      (case map_of qs n of None \<Rightarrow> [] | Some q \<Rightarrow> liveRecordsLocked q)"
    and "stage n (norm (epoch_record ep) # map norm (concat (map liveRecordsLocked Q))) =
      (case map_of qs n of None \<Rightarrow> new_staging
       | Some q \<Rightarrow> fold stage_record (map norm (liveRecordsLocked q)) new_staging)"
proof -
  have nm: "map (\<lambda>q. Name (q_cfg q)) (map snd qs) = map fst qs"
    using qs by (auto simp: queues_ok_def) 
  have "mset (map (\<lambda>q. Name (q_cfg q)) Q) = mset (map fst qs)" using Q nm by (metis mset_map)
  from distinct_mset_eq [OF this] have dq: "distinct (map (\<lambda>q. Name (q_cfg q)) Q)" using qs by (simp add: queues_ok_def)
  have sQ: "set Q = snd ` set qs" using Q by (metis set_map set_mset_mset)
  have fd: "find (\<lambda>q. Name (q_cfg q) = n) Q = map_of qs n" for n
  proof (cases "map_of qs n")
    case None
    have "Name (q_cfg q) \<noteq> n" if qQ: "q \<in> set Q" for q
    proof -
      obtain k where "(k, q) \<in> set qs" using qQ sQ by auto
      then have "map_of qs k = Some q" using qs by (simp add: queues_ok_def)
      then show ?thesis using qs None by (auto simp: queues_ok_def)
    qed
    then show ?thesis using None by (auto simp: find_None_iff)
  next
    case (Some q)
    then have "q \<in> set Q" "Name (q_cfg q) = n" using qs sQ map_of_SomeD [OF Some] by (force simp: queues_ok_def)+
    then show ?thesis using find_unique [OF dq] Some by auto
  qed
  have ep: "stage_record (norm (epoch_record ep)) s = s" for s
    by (simp add: stage_untouched touches_def epoch_record_def)
  show own: "filter (\<lambda>r. rQueue r = n) (concat (map liveRecordsLocked Q)) =
      (case map_of qs n of None \<Rightarrow> [] | Some q \<Rightarrow> liveRecordsLocked q)"
    using live_filter [OF dq, of n] fd [of n] by simp
  show "stage n (norm (epoch_record ep) # map norm (concat (map liveRecordsLocked Q))) =
      (case map_of qs n of None \<Rightarrow> new_staging
       | Some q \<Rightarrow> fold stage_record (map norm (liveRecordsLocked q)) new_staging)"
    using own ep by (auto simp: stage_def filter_map comp_def split: option.splits)
qed

lemma snapshot_tracked:
  assumes t: "tracked qs W H" and qs: "queues_ok qs" and se: "same_env W W'"
    and Q: "mset Q = mset (map snd qs)"
  shows "tracked qs W' (norm (epoch_record ep) # map norm (concat (map liveRecordsLocked Q)))" (is "tracked qs W' ?H")
proof -
  note own = snapshot_stage(1) [OF qs Q] and st = snapshot_stage(2) [OF qs Q, of _ ep]
  have fc: "first_config n ?H = map_option q_cfg (map_of qs n)" for n
  proof -
    have "first_config n ?H = first_config n (filter (\<lambda>r. rQueue r = n) (concat (map liveRecordsLocked Q)))"
      by (simp add: first_config_filter first_config_Cons epoch_record_def)
    then show ?thesis using own [of n] live_create [of n] qs
      by (auto simp: queues_ok_def split: option.splits)
  qed
  have some: "(\<exists>cfg. first_config n ?H = Some cfg \<and> q_cfg (New cfg) = q_cfg q) \<and> backs (qview (abs q)) (stage n ?H) \<and>
      sids (stage n ?H) \<subseteq> minted W' ` {..<rnd_i W'}" if q: "map_of qs n = Some q" for n q
  proof -
    obtain cfg where c: "q_cfg (New cfg) = q_cfg q" and b: "backs (qview (abs q)) (stage n H)"
      using trackedD(3) [OF t q] by blast
    note d = backs_distinct [OF b]
    note sn = snapshot_view [OF snapshot_queue [OF d] d]
    have sq: "stage n ?H = fold stage_record (map norm (liveRecordsLocked q)) new_staging" using st [of n] q by simp
    have "backs (qview (abs q)) (stage n ?H)"
      using sn(3) stage_inv_stage [of n ?H] unfolding sq contents_view by blast
    moreover have "sids (stage n ?H) \<subseteq> sids (stage n H)"
    proof
      fix i assume "i \<in> sids (stage n ?H)"
      then obtain x where "x \<in> set (contents q)" "i = ID (fst x)" using sn(2) sq by auto
      then have "(core (fst x), snd x) \<in># qview (abs q)" by (force simp: contents_view)
      then have "sview (stage n H) (ID (fst x)) = Some (core (fst x), snd x)" using b by (auto simp: backs_def)
      then show "i \<in> sids (stage n H)" using sids_view \<open>i = ID (fst x)\<close> by metis
    qed
    moreover have "q_cfg (New (q_cfg q)) = q_cfg q" using New_idem(1) [of cfg] c by simp
    ultimately show ?thesis using fc [of n] q trackedD(1) [OF t, of n] minted_mono [OF se] by auto
  qed
  have none: "first_config n ?H = None \<and> sids (stage n ?H) = {}" if "map_of qs n = None" for n
    using fc [of n] st [of n] that by (simp add: sids_def new_staging_def)
  show ?thesis unfolding tracked_def
  proof
    fix n
    show "sids (stage n ?H) \<subseteq> minted W' ` {..<rnd_i W'} \<and>
      (case map_of qs n of
         None \<Rightarrow> first_config n ?H = None \<and> sids (stage n ?H) = {}
       | Some q \<Rightarrow> (\<exists>cfg. first_config n ?H = Some cfg \<and> q_cfg (New cfg) = q_cfg q) \<and> backs (qview (abs q)) (stage n ?H))"
      using some none by (cases "map_of qs n") auto
  qed
qed

lemma wal_Compact_same_log: "wal_Compact w W recs = (w', W', r) \<Longrightarrow> same_log w w'"
  by (auto simp: wal_Compact_def same_log_def Let_def split: option.splits prod.splits sum.splits if_splits)

lemma m_Compact_sinv:
  assumes inv: "sinv (m_queues m) (m_wal m) W" and e: "m_Compact m W = (m', W', r)"
  shows "sinv (m_queues m') (m_wal m') W' \<and> onward (m_wal m, W) (m_wal m', W') \<and> m_queues m' = m_queues m"
proof -
  let ?Q = "sort_key (\<lambda>q. Name (q_cfg q)) (map snd (m_queues m))" and ?w = "m_wal m"
  let ?recs = "concat (map liveRecordsLocked ?Q)"
  obtain w1 where c: "wal_Compact ?w W ?recs = (w1, W', r)" "m' = m\<lparr>m_wal := w1\<rparr>"
    using e by (auto simp: m_Compact_def Let_def split: prod.splits)
  have sl: "same_log ?w w1" by (rule wal_Compact_same_log [OF c(1)])
  have ok: "wal_ok ?w W" "codec_ok (json W)" "queues_ok (m_queues m)"
    "w_failed ?w = None \<longrightarrow> unrepeated W \<longrightarrow> tracked (m_queues m) W (history ?w W)" using inv by (auto simp: sinv_def)
  show ?thesis
  proof (cases r)
    case (Inr u)
    then have cp: "compacted ?w W ?recs w1 W'" using wal_Compact_ok [OF ok(1,2)] c(1) by simp
    then have h: "wal_ok w1 W'" "same_env W W'" "history w1 W' = norm (epoch_record (w_epoch ?w + 1)) # map norm ?recs"
      by (simp_all add: compacted_def)
    have "w_failed ?w = None" using c(1) Inr by (auto simp: wal_Compact_def split: option.splits)
    then have "unrepeated W \<longrightarrow> tracked (m_queues m) W' (history w1 W')"
      using snapshot_tracked [OF _ ok(3) h(2), of "history ?w W" ?Q] ok(4) h(3) by simp
    then show ?thesis using h ok c(2) unrepeated_env [OF h(2)] sl by (auto simp: sinv_def same_env_def onward_def)
  next
    case (Inl er)
    then have "compact_failed ?w W er w1 W'" using wal_Compact_fail [OF ok(1)] c(1) by simp
    then consider (kept) "w1 = ?w" "spares (w_f ?w) (w_path ?w) W W'"
      | (latched) "w1 = ?w\<lparr>w_failed := Some er\<rparr>" "fs_ok (w_f ?w) (w_path ?w) W'" "same_env W W'"
          "files W' (w_f ?w) = files W (w_f ?w)"
      by (auto simp: compact_failed_def)
    then show ?thesis
    proof cases
      case kept
      then have "same_env W W'" "wal_ok ?w W'" "history ?w W' = history ?w W"
        using spares_wal_ok [OF kept(2) ok(1)] by (simp_all add: spares_def)
      then show ?thesis using kept(1) c(2) ok tracked_env [of "m_queues m" W _ W'] unrepeated_env [of W W']
        by (auto simp: sinv_def same_env_def onward_def)
    next
      case latched
      have "wal_ok w1 W'" using latched ok(1) by (simp add: wal_ok_def handle_ok_def logbytes_def same_env_def)
      then show ?thesis using latched c(2) ok sl by (simp add: sinv_def same_env_def onward_def)
    qed
  qed
qed

section \<open>Flushing, replaying, reopening\<close>

lemma flusher_sinv:
  assumes inv: "sinv qs w W" and e: "flusher_tick w W = (w', W')"
  shows "sinv qs w' W' \<and> onward (w, W) (w', W')"
proof -
  have s: "files W' = files W" "opened W' = opened W" "json W' = json W" "dir W' = dir W" "next_ino W' = next_ino W"
    "w_f w' = w_f w" "w_size w' = w_size w" "w_path w' = w_path w" "w_failed w' = None \<longrightarrow> w_failed w = None" "same_env W W'" "same_log w w'"
    using e by (auto simp: flusher_tick_def os_Sync_def draw_def same_env_def same_log_def split: if_splits prod.splits sum.splits io.splits option.splits)
  show ?thesis using inv wal_ok_cong [OF s(1-9)] s tracked_env [of qs W _ W'] unrepeated_env [of W W'] by (auto simp: sinv_def onward_def)
qed

lemma Replay_sinv:
  assumes inv: "sinv (m_queues m) (m_wal m) W" and e: "Replay m W name bm since = (m', W', n, r)"
  shows "sinv (m_queues m') (m_wal m') W' \<and> onward (m_wal m, W) (m_wal m', W')"
proof (cases "m' = m \<and> W' = W")
  case False
  then obtain q where q: "map_of (m_queues m) name = Some q" "\<not> (b_Offset bm > 0 \<and> b_Epoch bm \<noteq> fst (wal_Bookmark (m_wal m)))"
    using e by (auto simp: Replay_def Get_def Let_def split: option.splits if_splits)
  obtain w1 W1 found res where sc: "Scan (m_wal m) W (b_Offset bm) (\<lambda>rec off found. (replay_item name since rec found, None)) [] = (w1, W1, found, res)"
    by (metis prod_cases4)
  obtain ep where w1: "w1 = (m_wal m)\<lparr>w_epoch := ep\<rparr>" using Scan_read_only(1) [OF sc] by blast
  have W1: "W1 = W \<or> W1 = W\<lparr>io_i := Suc (io_i W)\<rparr>" by (rule Scan_read_only(2) [OF sc])
  then have k: "files W1 = files W" "opened W1 = opened W" "json W1 = json W" "dir W1 = dir W" "next_ino W1 = next_ino W"
    "w_f w1 = w_f (m_wal m)" "w_size w1 = w_size (m_wal m)" "w_path w1 = w_path (m_wal m)"
    "w_failed w1 = None \<longrightarrow> w_failed (m_wal m) = None" "same_env W W1"
    by (auto simp: w1 same_env_def)
  then have on: "onward (m_wal m, W) (w1, W1)" by (simp add: onward_def same_log_def w1)
  have s1: "sinv (m_queues m) w1 W1" using inv wal_ok_cong [OF k(1-9)] k tracked_env [of "m_queues m" W _ W1] unrepeated_env [of W W1]
    by (auto simp: sinv_def)
  show ?thesis
  proof (cases res)
    case (Inl er)
    then have "m' = m\<lparr>m_wal := w1\<rparr>" "W' = W1" using e q sc by (simp_all add: Replay_def Get_def Let_def)
    then show ?thesis using s1 on by simp
  next
    case (Inr u)
    obtain q2 w2 W2 n2 r2 where pb: "publish q w1 W1 found 0 = (q2, w2, W2, n2, r2)" by (metis prod_cases5)
    then have m': "m' = m\<lparr>m_wal := w2, m_queues := AList.update name q2 (m_queues m)\<rparr>" "W' = W2"
      using e q sc Inr by (simp_all add: Replay_def Get_def Let_def)
    from publish_sinv [OF s1 q(1) pb] show ?thesis using m' onward_trans [OF on] by auto
  qed
qed (use inv in auto)

lemma recover_result:
  assumes t: "tracked qs W H" and rs: "map norm rs = H"
    and R: "R = fold recover_record (data rs) \<lparr>r_queues = [], r_pending = []\<rparr>"
  shows "\<exists>qs' k. recover_finish (r_pending R) (r_queues R) V = (qs', V\<lparr>now_i := now_i V + k\<rparr>, Inr ()) \<and>
    distinct (map fst qs') \<and>
    (\<forall>name. case map_of qs name of
       None \<Rightarrow> map_of qs' name = None
     | Some q \<Rightarrow> \<exists>q' now. map_of qs' name = Some q' \<and> qinv q' \<and> q_cfg q' = q_cfg q \<and>
         q_seq q' = maxSeq (stage name rs) \<and> abs q' = restored now (stage name rs))"
proof -
  have st: "get_staging name (r_pending R) = stage name rs" for name
    using recover_fold(1) [of name "data rs"] stage_data [of name rs] by (simp add: R stage_def get_staging_def)
  have mq: "map_of (r_queues R) name = map_option New (first_config name rs)" for name
    using recover_fold(2) [of "data rs" _ name] by (simp add: R)
  have fc: "first_config name rs = first_config name H" "sids (stage name rs) = sids (stage name H)" for name
    using stage_norm [of name rs] first_config_norm [of name rs] by (simp_all add: rs)
  have d: "distinct (map fst (r_queues R))" "distinct (map fst (r_pending R))"
    using recover_distinct [of "\<lparr>r_queues = [], r_pending = []\<rparr>" "data rs"] by (simp_all add: R)
  have pe: "s = stage name rs" if "(name, s) \<in> set (r_pending R)" for name s
    using st [of name] that d(2) by (simp add: get_staging_def)
  have "(\<exists>cfg. map_of (r_queues R) name = Some (New cfg)) \<or> map_of (r_queues R) name = None \<and> sids s = {}"
    if "(name, s) \<in> set (r_pending R)" for name s
    using pe [OF that] mq [of name] fc [of name] trackedD(2,3) [OF t, of name]
    by (cases "map_of qs name"; cases "first_config name rs") auto
  from recover_finish_ok [OF d(2) this, of V] obtain qs' k where
    rf: "recover_finish (r_pending R) (r_queues R) V = (qs', V\<lparr>now_i := now_i V + k\<rparr>, Inr ())" "distinct (map fst qs')"
    "\<forall>name. name \<notin> fst ` set (r_pending R) \<longrightarrow> map_of qs' name = map_of (r_queues R) name"
    "\<forall>name s. (name, s) \<in> set (r_pending R) \<longrightarrow> revives (r_queues R) qs' name s"
    using d(1) by auto
  have "case map_of qs name of
       None \<Rightarrow> map_of qs' name = None
     | Some q \<Rightarrow> \<exists>q' now. map_of qs' name = Some q' \<and> qinv q' \<and> q_cfg q' = q_cfg q \<and>
         q_seq q' = maxSeq (stage name rs) \<and> abs q' = restored now (stage name rs)" for name
  proof (cases "\<exists>s. (name, s) \<in> set (r_pending R)")
    case True
    then have "revives (r_queues R) qs' name (stage name rs)" using pe rf(4) by blast
    then show ?thesis using mq [of name] fc(1) [of name] trackedD(2,3) [OF t, of name]
      by (cases "map_of qs name"; cases "first_config name rs") (auto simp: revives_def)
  next
    case False
    then have n: "name \<notin> fst ` set (r_pending R)" by force
    then have "map_of (r_pending R) name = None" by (simp add: map_of_eq_None_iff)
    then have ns: "stage name rs = new_staging" using st [of name] by (simp add: get_staging_def)
    have "abs (New cfg) = restored zero_time new_staging" "q_seq (New cfg) = maxSeq new_staging" for cfg
      by (simp_all add: restored_def new_staging_def staged_live_def staged_dead_def New_spec(2)) (simp add: New_def Let_def)
    then show ?thesis using rf(3) n mq [of name] fc(1) [of name] trackedD(2,3) [OF t, of name] New_spec(1)
      by (cases "map_of qs name"; cases "first_config name rs") (auto simp: ns)
  qed
  then show ?thesis using rf(1,2) by blast
qed

text \<open>
  What a restart brings back: every queue with its configuration, and at least the messages
  it had, each as dead or alive as before, nothing in flight, and numbering that goes on
  above every message.
\<close>

definition survives :: "(string \<times> queue) list \<Rightarrow> (string \<times> queue) list \<Rightarrow> bool" where
  "survives qs qs' \<longleftrightarrow>
     (\<forall>name. case map_of qs name of
        None \<Rightarrow> map_of qs' name = None
      | Some q \<Rightarrow> \<exists>q'. map_of qs' name = Some q' \<and> q_cfg q' = q_cfg q \<and> qview (abs q) \<subseteq># qview (abs q') \<and>
          a_inflight (abs q') = {#} \<and> (\<forall>m \<in># allm (abs q'). Seq m \<le> q_seq q'))"

lemma restored_seq:
  assumes "stage_inv s" and "m \<in># allm (restored now s)"
  shows "Seq m \<le> maxSeq s"
proof -
  have "core m \<in># cores (restored now s)" using assms(2) by (simp add: cores_def)
  then obtain x where x: "x \<in> set (live s)" "core m = core (snd x)"
    by (auto simp: qview_cores [symmetric] qview_restored)
  then have "map_of (live s) (fst x) = Some (snd x)" using assms(1) by (simp add: stage_inv_def map_of_is_SomeI)
  then have "Seq (snd x) \<le> maxSeq s" using assms(1) unfolding stage_inv_def by blast
  then show ?thesis using x(2) by (simp add: core_def)
qed

text \<open>The queues \<open>qs'\<close> hold exactly what the history \<open>H\<close> says of the queues \<open>qs\<close>.\<close>

definition recovered_from :: "(string \<times> queue) list \<Rightarrow> wal_record list \<Rightarrow> (string \<times> queue) list \<Rightarrow> bool" where
  "recovered_from qs H qs' \<longleftrightarrow>
     (\<forall>name. case map_of qs name of
        None \<Rightarrow> map_of qs' name = None
      | Some q \<Rightarrow> \<exists>q' now. map_of qs' name = Some q' \<and> qinv q' \<and> q_cfg q' = q_cfg q \<and>
          q_seq q' = maxSeq (stage name H) \<and> abs q' = restored now (stage name H))"

lemma recovered_fromD:
  assumes "recovered_from qs H qs'" and "map_of qs name = Some q"
  obtains q' now where "map_of qs' name = Some q'" "qinv q'" "q_cfg q' = q_cfg q"
    "q_seq q' = maxSeq (stage name H)" "abs q' = restored now (stage name H)"
  using spec [OF assms(1) [unfolded recovered_from_def], of name] assms(2) by auto

lemma recovered_from_inv:
  assumes "recovered_from qs H qs'" and "map_of qs' name = Some q'"
  obtains q now where "map_of qs name = Some q" "qinv q'" "q_cfg q' = q_cfg q" "abs q' = restored now (stage name H)"
  using spec [OF assms(1) [unfolded recovered_from_def], of name] assms(2) by (auto split: option.splits)

lemma recovered_from_none: "recovered_from qs H qs' \<Longrightarrow> map_of qs' name = None \<longleftrightarrow> map_of qs name = None"
  by (auto simp: recovered_from_def split: option.splits dest!: spec [of _ name])

lemma recovered_tracked:
  assumes r: "recovered_from qs H qs'" and t: "tracked qs W H" and se: "same_env W W'"
  shows "tracked qs' W' H"
  unfolding tracked_def
proof
  fix name
  have "sids (stage name H) \<subseteq> minted W' ` {..<rnd_i W'}"
    using trackedD(1) [OF t, of name] minted_mono [OF se] by (rule order_trans)
  moreover have "case map_of qs' name of
      None \<Rightarrow> first_config name H = None \<and> sids (stage name H) = {}
    | Some q \<Rightarrow> (\<exists>cfg. first_config name H = Some cfg \<and> q_cfg (New cfg) = q_cfg q) \<and> backs (qview (abs q)) (stage name H)"
  proof (cases "map_of qs' name")
    case None
    then show ?thesis using trackedD(2) [OF t, of name] recovered_from_none [OF r, of name] by simp
  next
    case (Some q')
    from recovered_from_inv [OF r Some] obtain q now
      where q: "map_of qs name = Some q" "q_cfg q' = q_cfg q" "abs q' = restored now (stage name H)" by blast
    then show ?thesis using Some trackedD(3) [OF t q(1)] backs_restored [OF stage_inv_stage] by simp
  qed
  ultimately show "sids (stage name H) \<subseteq> minted W' ` {..<rnd_i W'} \<and> (case map_of qs' name of
      None \<Rightarrow> first_config name H = None \<and> sids (stage name H) = {}
    | Some q \<Rightarrow> (\<exists>cfg. first_config name H = Some cfg \<and> q_cfg (New cfg) = q_cfg q) \<and> backs (qview (abs q)) (stage name H))" ..
qed

lemma recovered_survives:
  assumes r: "recovered_from qs H qs'" and t: "tracked qs W H"
  shows "survives qs qs'"
  unfolding survives_def
proof
  fix name
  show "case map_of qs name of
      None \<Rightarrow> map_of qs' name = None
    | Some q \<Rightarrow> \<exists>q'. map_of qs' name = Some q' \<and> q_cfg q' = q_cfg q \<and> qview (abs q) \<subseteq># qview (abs q') \<and>
        a_inflight (abs q') = {#} \<and> (\<forall>m \<in># allm (abs q'). Seq m \<le> q_seq q')"
  proof (cases "map_of qs name")
    case None
    then show ?thesis using recovered_from_none [OF r] by simp
  next
    case (Some q)
    from recovered_fromD [OF r Some] obtain q' now where q': "map_of qs' name = Some q'" "q_cfg q' = q_cfg q"
      "q_seq q' = maxSeq (stage name H)" "abs q' = restored now (stage name H)" by blast
    moreover have "qview (abs q) \<subseteq># qview (restored now (stage name H))"
      using trackedD(3) [OF t Some] backs_restored_all by blast
    ultimately show ?thesis using Some restored_seq [OF stage_inv_stage] by auto
  qed
qed

text \<open>Opening, once the log file is open: what its records account for comes back.\<close>

lemma Open_reads:
  assumes o: "OpenWAL path syncEvery W = (W1, Inr w1)" "handle_ok w1 W1" "w_failed w1 = None" "\<not> w_closed w1"
      "w_size w1 = length (files W1 (w_f w1))" "calm 3 W1"
    and p: "parse (unmarshal (json W1)) (files W1 (w_f w1)) = (rs, rem)"
    and t: "tracked qs W1 (map norm rs)" and ok: "codec_ok (json W1)" "queues_ok qs"
  shows "\<exists>m' W'. Open path syncEvery tick W = (W', Inr m') \<and> sinv (m_queues m') (m_wal m') W' \<and>
    same_env W1 W' \<and> w_failed (m_wal m') = None \<and> same_log w1 (m_wal m') \<and> \<not> m_closed m' \<and>
    recovered_from qs (map norm rs) (m_queues m')"
proof -
  let ?R0 = "\<lparr>r_queues = [], r_pending = []\<rparr>"
  obtain w2 W2 R res where rc: "Recover w1 W1 (\<lambda>rec off R. (recover_record rec R, None)) ?R0 = (w2, W2, R, res)"
    by (metis prod_cases4)
  have res: "res = Inr ()" by (rule Recover_calm [OF o(2,6,5) rc])
  have "ios W1 (io_i W1) = IOok" using o(6) by (simp add: calm_3)
  then have R: "R = fold recover_record (data rs) ?R0" and to: "recovered_to w1 W1 rs rem w2 W2"
    using Recover_spec [OF o(2,5) p _ rc] res by blast+
  have w2: "wal_ok w2 W2" "history w2 W2 = map norm rs" "same_env W1 W2" using to by (simp_all add: recovered_to_def)
  have f2: "w_failed w2 = None" "same_log w1 w2"
  proof -
    obtain ep sz' where "w2 = w1\<lparr>w_epoch := ep, w_size := sz'\<rparr>" using to unfolding recovered_to_def by blast
    then show "w_failed w2 = None" "same_log w1 w2" using o(3) by (simp_all add: same_log_def)
  qed
  obtain qs' k where rf: "recover_finish (r_pending R) (r_queues R) W2 = (qs', W2\<lparr>now_i := now_i W2 + k\<rparr>, Inr ())"
    "distinct (map fst qs')"
    "\<forall>name. case map_of qs name of
       None \<Rightarrow> map_of qs' name = None
     | Some q \<Rightarrow> \<exists>q' now. map_of qs' name = Some q' \<and> qinv q' \<and> q_cfg q' = q_cfg q \<and>
         q_seq q' = maxSeq (stage name rs) \<and> abs q' = restored now (stage name rs)"
    using recover_result [OF t refl R] by blast
  let ?W = "W2\<lparr>now_i := now_i W2 + k\<rparr>"
  let ?m = "\<lparr>m_queues = qs', m_wal = w2, m_tick = (if tick \<le> 0 then 50 * Millisecond else tick), m_stop = False, m_closed = False\<rparr>"
  have op: "Open path syncEvery tick W = (?W, Inr ?m)"
    using o(1) rc res rf(1) by (simp add: Open_def recover_def)
  have se: "same_env W1 ?W" using same_env_trans [OF w2(3), of ?W] by (simp add: same_env_def)
  have wk: "wal_ok w2 ?W" "history w2 ?W = map norm rs" using wal_ok_cong [of ?W W2 w2 w2] w2 by simp_all
  have rv: "recovered_from qs (map norm rs) qs'"
    using rf(3) unfolding recovered_from_def stage_norm strip_staging_view restored_strip .
  have "qinv q' \<and> Name (q_cfg q') = name" if m: "map_of qs' name = Some q'" for name q'
    by (rule recovered_from_inv [OF rv m]) (use ok(2) in \<open>auto simp: queues_ok_def\<close>)
  then have "queues_ok qs'" using rf(2) by (simp add: queues_ok_def)
  moreover have "tracked qs' ?W (map norm rs)" by (rule recovered_tracked [OF rv t se])
  ultimately have "sinv qs' w2 ?W" using wk ok(1) se by (simp add: sinv_def same_env_def)
  then show ?thesis using op se f2 rv by auto
qed

lemma Open_again:
  assumes inv: "sinv qs w W" and un: "w_failed w = None" "unrepeated W" and cl: "clean_tail w W" and rl: "calm 6 W"
  shows "\<exists>m' W'. Open (w_path w) syncEvery tick W = (W', Inr m') \<and> sinv (m_queues m') (m_wal m') W' \<and>
    same_env W W' \<and> w_failed (m_wal m') = None \<and> w_path (m_wal m') = w_path w \<and> \<not> w_closed (m_wal m') \<and> \<not> m_closed m' \<and>
    recovered_from qs (history w W) (m_queues m')"
proof -
  have ok: "wal_ok w W" "codec_ok (json W)" "queues_ok qs" and t: "tracked qs W (history w W)"
    using inv un by (simp_all add: sinv_def)
  obtain w1 W1 where o: "OpenWAL (w_path w) syncEvery W = (W1, Inr w1)" "handle_ok w1 W1" "w_f w1 = w_f w" "\<not> w_closed w1"
    "w_failed w1 = None" "w_size w1 = length (files W1 (w_f w))" "files W1 = files W" "same_env W W1" "calm 3 W1" "w_path w1 = w_path w"
    using OpenWAL_again [OF ok(1) un(1) rl] by blast
  obtain rs tl where p: "parse (unmarshal (json W)) (files W (w_f w)) = (rs, tl)" "map norm rs = history w W"
    using reopen_reads [OF ok(1) cl] by blast
  have js: "json W1 = json W" using o(8) by (simp add: same_env_def)
  have "parse (unmarshal (json W1)) (files W1 (w_f w1)) = (rs, tl)" "tracked qs W1 (map norm rs)" "codec_ok (json W1)"
    "w_size w1 = length (files W1 (w_f w1))"
    using p o(3,6,7) js tracked_env [OF t o(8)] ok(2) by simp_all
  from Open_reads [OF o(1,2,5,4) this(4) o(9) this(1-3) ok(3), of tick] show ?thesis
    using same_env_trans [OF o(8)] o(4,10) p(2) by (auto simp: same_log_def)
qed

text \<open>
  The first start. The file system is sound, \<^verbatim>\<open>encoding/json\<close> reads back what it writes, and
  there is no log yet.
\<close>

definition blank :: "string \<Rightarrow> world \<Rightarrow> bool" where
  "blank path W \<longleftrightarrow> codec_ok (json W) \<and> dir W path = None \<and> (\<forall>p i. dir W p = Some i \<longrightarrow> i < next_ino W) \<and>
     (\<forall>p p' i. dir W p = Some i \<longrightarrow> dir W p' = Some i \<longrightarrow> p = p')"

lemma OpenWAL_first:
  assumes b: "blank path W" and rl: "calm 6 W"
  shows "\<exists>w' W'. OpenWAL path syncEvery W = (W', Inr w') \<and> handle_ok w' W' \<and> w_path w' = path \<and> w_failed w' = None \<and>
    \<not> w_closed w' \<and> w_size w' = length (files W' (w_f w')) \<and> files W' (w_f w') = [] \<and> same_env W W' \<and> calm 3 W'"
proof -
  have d: "dir W path = None" "\<forall>p i. dir W p = Some i \<longrightarrow> i < next_ino W"
    "\<forall>p p' i. dir W p = Some i \<longrightarrow> dir W p' = Some i \<longrightarrow> p = p'" using b by (simp_all add: blank_def)
  let ?i = "next_ino W"
  let ?W = "W\<lparr>io_i := Suc (Suc (Suc (io_i W))), opened := (opened W)(?i := True), files := (files W)(?i := []),
    stable := (stable W)(?i := []), dir := (dir W)(path \<mapsto> ?i), next_ino := Suc ?i\<rparr>"
  let ?w = "\<lparr>w_f = ?i, w_path = path, w_size = 0, w_epoch = 0, w_retired = [],
    w_failed = None, w_syncEvery = syncEvery, w_dirty = False, w_stop = False, w_closed = False\<rparr>"
  have io: "ios W (io_i W) = IOok" "ios W (Suc (io_i W)) = IOok" "ios W (Suc (Suc (io_i W))) = IOok" "calm 3 ?W"
    using calm_6 [OF rl, of ?W] by simp_all
  have "OpenWAL path syncEvery W = (?W, Inr ?w)"
    using d(1) by (simp add: OpenWAL_def os_MkdirAll_def os_OpenFile_def os_Stat_def draw_def io Let_def)
  moreover have "fs_ok ?i path ?W"
  proof -
    have nd: "dir W p \<noteq> Some ?i" for p using d(2) by blast
    have s: "opened ?W ?i" "next_ino ?W = Suc ?i" "dir ?W = (dir W)(path \<mapsto> ?i)" by simp_all
    show ?thesis unfolding fs_ok_def s(2,3) using s(1) d nd by (auto split: if_splits intro: less_SucI)
  qed
  then have "handle_ok ?w ?W" by (simp add: handle_ok_def)
  moreover have "same_env W ?W" by (simp add: same_env_def)
  ultimately show ?thesis using io(4) by (intro exI [of _ ?w] exI [of _ ?W]) simp
qed

lemma Open_first:
  assumes b: "blank path W" and rl: "calm 6 W"
  shows "\<exists>m' W'. Open path syncEvery tick W = (W', Inr m') \<and> sinv (m_queues m') (m_wal m') W' \<and> same_env W W' \<and>
    w_failed (m_wal m') = None \<and> w_path (m_wal m') = path \<and> \<not> w_closed (m_wal m') \<and> \<not> m_closed m'"
proof -
  obtain w1 W1 where o: "OpenWAL path syncEvery W = (W1, Inr w1)" "handle_ok w1 W1" "w_path w1 = path" "w_failed w1 = None"
    "\<not> w_closed w1" "w_size w1 = length (files W1 (w_f w1))" "files W1 (w_f w1) = []" "same_env W W1" "calm 3 W1"
    using OpenWAL_first [OF assms] by blast
  have "codec_ok (json W1)" using b o(8) by (simp add: blank_def same_env_def)
  moreover have "tracked [] W1 (map norm [])"
    by (simp add: tracked_def stage_def new_staging_def sids_def first_config_def)
  moreover have "queues_ok []" by (simp add: queues_ok_def)
  moreover have "parse (unmarshal (json W1)) (files W1 (w_f w1)) = ([], [])" using o(7) by simp
  ultimately show ?thesis using Open_reads [OF o(1,2,4,5,6,9), of "[]" "[]" "[]" tick] same_env_trans [OF o(8)] o(3,5)
    by (auto simp: same_log_def)
qed

end
