(* ===== verification/FQ_Api.thy ===== *)
theory FQ_Api
  imports FQ_Manager
begin

text \<open>
  The HTTP surface of \<^verbatim>\<open>src/api.go\<close>: which handler a request reaches, how each handler
  validates its input, what it asks of the manager, and the status and body it answers with.

  A request body is what \<^verbatim>\<open>json.Decoder\<close> makes of it (a parameter): absent, malformed or
  the request struct. A response is its status and its content before it is printed as
  JSON. A panic of a queue operation is \<^const>\<open>None\<close>.
\<close>

section \<open>Bounds, requests, responses\<close>

definition maxDelay :: duration where
  "maxDelay = 365 * 24 * Hour"

definition maxVisibility :: duration where
  "maxVisibility = 12 * Hour"

definition maxWait :: duration where
  "maxWait = 60 * Second"

definition maxBatch :: int where
  "maxBatch = 1000"

datatype 'a body = Absent | Malformed error | Decoded 'a

record enqueueReq =
  e_Body :: string
  e_Priority :: int
  e_DelayMS :: int

record receiveReq =
  v_Max :: int
  v_VisibilityMS :: int
  v_WaitMS :: int

record ackReq =
  a_Receipt :: string

record nackReq =
  n_Receipt :: string
  n_DelayMS :: int

record extendReq =
  x_Receipt :: string
  x_VisibilityMS :: int

record replayReq =
  p_Source :: string
  p_Epoch :: u64
  p_FromOffset :: int
  p_SinceUnixMS :: int

datatype content =
    CConfig Config
  | CQueues "Stats list"
  | CStats Stats
  | CMsg msg
  | CMessages "msg list"
  | CAcked
  | CNacked
  | CExpiry gotime
  | CReplayed string nat "error option"
  | CCompacted int int u64
  | CBookmark Bookmark
  | CHealth "error option"
  | CError error

type_synonym response = "nat \<times> content"

definition StatusOK :: nat where "StatusOK = 200"
definition StatusCreated :: nat where "StatusCreated = 201"
definition StatusBadRequest :: nat where "StatusBadRequest = 400"
definition StatusNotFound :: nat where "StatusNotFound = 404"
definition StatusConflict :: nat where "StatusConflict = 409"
definition StatusInternalServerError :: nat where "StatusInternalServerError = 500"
definition StatusServiceUnavailable :: nat where "StatusServiceUnavailable = 503"

definition respond :: "nat \<Rightarrow> content \<Rightarrow> response" where
  "respond status c = (status, c)"

definition fail :: "nat \<Rightarrow> error \<Rightarrow> response" where
  "fail status e = respond status (CError e)"

text \<open>\<^verbatim>\<open>decode\<close>: an absent body stands for the zero value, a malformed one is answered at once.\<close>

definition decode :: "'a \<Rightarrow> 'a body \<Rightarrow> response + 'a" where
  "decode zero b =
     (case b of
        Absent \<Rightarrow> Inr zero
      | Malformed e \<Rightarrow> Inl (fail StatusBadRequest e)
      | Decoded x \<Rightarrow> Inr x)"

definition boundedMS :: "int \<Rightarrow> duration \<Rightarrow> string \<Rightarrow> duration result" where
  "boundedMS n ceiling field =
     (if n < 0 then Inl (ErrFieldNegative field)
      else (let limit = ceiling div Millisecond
            in if n > limit then Inl (ErrFieldTooLarge field limit)
               else Inr (wrap64 (n * Millisecond))))"

text \<open>\<^verbatim>\<open>errors.Is\<close> against the two sentinels that carry a detail.\<close>

fun is_bad_bookmark :: "error \<Rightarrow> bool" where
  "is_bad_bookmark (ErrStaleBookmark _ _) = True"
| "is_bad_bookmark (ErrCorrupt _ _) = True"
| "is_bad_bookmark (ErrLogUnusable e) = is_bad_bookmark e"
| "is_bad_bookmark (ErrReopen e) = is_bad_bookmark e"
| "is_bad_bookmark (ErrRecover e) = is_bad_bookmark e"
| "is_bad_bookmark _ = False"

text \<open>Writing a queue back after an operation on it.\<close>

definition put_queue :: "manager \<Rightarrow> string \<Rightarrow> queue \<Rightarrow> wal \<Rightarrow> manager" where
  "put_queue m name q w = m\<lparr>m_queues := AList.update name q (m_queues m), m_wal := w\<rparr>"

text \<open>
  A request as the router sees it, and what \<^verbatim>\<open>json.Decoder\<close> makes of the bytes of a body for
  each of the request structs. The decoder is \<^verbatim>\<open>encoding/json\<close>, so it is a parameter.
\<close>

record request =
  q_method :: string
  q_path :: "string list"
  q_body :: "byte list"

record decoders =
  d_config :: "byte list \<Rightarrow> Config body"
  d_enqueue :: "byte list \<Rightarrow> enqueueReq body"
  d_receive :: "byte list \<Rightarrow> receiveReq body"
  d_ack :: "byte list \<Rightarrow> ackReq body"
  d_nack :: "byte list \<Rightarrow> nackReq body"
  d_extend :: "byte list \<Rightarrow> extendReq body"
  d_replay :: "byte list \<Rightarrow> replayReq body"

text \<open>The circumstances of one request: the schedule of a long poll and whether its client hangs up.\<close>

record circumstances =
  c_sch :: schedule
  c_meanwhile :: "manager \<Rightarrow> manager"
  c_hung_up :: bool

section \<open>Queues\<close>

definition zero_config :: Config where
  "zero_config = \<lparr>Name = '''', Mode_of = '''', Priority_on = False, MaxAttempts = 0, VisibilityTimeoutMS = 0\<rparr>"

definition createQueue :: "manager \<Rightarrow> world \<Rightarrow> Config body \<Rightarrow> manager \<times> world \<times> response" where
  "createQueue m W b =
     (case decode zero_config b of
        Inl resp \<Rightarrow> (m, W, resp)
      | Inr cfg0 \<Rightarrow>
          (let cfg = (if Mode_of cfg0 = '''' then cfg0\<lparr>Mode_of := FIFO\<rparr> else cfg0) in
           if VisibilityTimeoutMS cfg < 0 \<or> wrap64 (VisibilityTimeoutMS cfg * Millisecond) > maxVisibility
           then (m, W, fail StatusBadRequest (ErrMessage ''visibility_timeout_ms must be between 0 and 43200000''))
           else (case Create m W cfg of
                   (m1, W1, Inl e) \<Rightarrow>
                     (m1, W1, fail (if errors_Is e ErrQueueExists then StatusConflict else StatusBadRequest) e)
                 | (m1, W1, Inr q) \<Rightarrow> (m1, W1, respond StatusCreated (CConfig (q_cfg q))))))"

definition listQueues :: "manager \<Rightarrow> world \<Rightarrow> manager \<times> world \<times> response" where
  "listQueues m W = (case List_of m W of (ss, W1) \<Rightarrow> (m, W1, respond StatusOK (CQueues ss)))"

definition queueStats :: "manager \<Rightarrow> world \<Rightarrow> string \<Rightarrow> manager \<times> world \<times> response" where
  "queueStats m W name =
     (case Get m name of
        Inl e \<Rightarrow> (m, W, fail StatusNotFound e)
      | Inr q \<Rightarrow> (case Stats_of q W of (W1, s) \<Rightarrow> (m, W1, respond StatusOK (CStats s))))"

section \<open>Messages\<close>

definition zero_enqueueReq :: enqueueReq where
  "zero_enqueueReq = \<lparr>e_Body = '''', e_Priority = 0, e_DelayMS = 0\<rparr>"

definition enqueue :: "manager \<Rightarrow> world \<Rightarrow> string \<Rightarrow> enqueueReq body \<Rightarrow> manager \<times> world \<times> response" where
  "enqueue m W name b =
     (case Get m name of
        Inl e \<Rightarrow> (m, W, fail StatusNotFound e)
      | Inr q \<Rightarrow>
          (case decode zero_enqueueReq b of
             Inl resp \<Rightarrow> (m, W, resp)
           | Inr req \<Rightarrow>
               if e_Body req = '''' then (m, W, fail StatusBadRequest (ErrMessage ''body is required''))
               else (case boundedMS (e_DelayMS req) maxDelay ''delay_ms'' of
                       Inl e \<Rightarrow> (m, W, fail StatusBadRequest e)
                     | Inr delay \<Rightarrow>
                         (case Enqueue q (m_wal m) W (e_Body req) (e_Priority req) delay of
                            (q1, w1, W1, Inl e) \<Rightarrow>
                              (put_queue m name q1 w1, W1,
                               fail (if errors_Is e ErrPriorityDisabled then StatusBadRequest
                                     else StatusInternalServerError) e)
                          | (q1, w1, W1, Inr x) \<Rightarrow>
                              (put_queue m name q1 w1, W1, respond StatusCreated (CMsg x))))))"

definition zero_receiveReq :: receiveReq where
  "zero_receiveReq = \<lparr>v_Max = 0, v_VisibilityMS = 0, v_WaitMS = 0\<rparr>"

text \<open>
  \<open>sch\<close> is what happens to the queue and the log while the receiver is parked, \<open>meanwhile\<close> what
  happens to the other queues, and \<open>hung_up\<close> whether the request's context is done when the
  handler looks; then nothing is sent.
\<close>

definition receive ::
  "schedule \<Rightarrow> (manager \<Rightarrow> manager) \<Rightarrow> bool \<Rightarrow> manager \<Rightarrow> world \<Rightarrow> string \<Rightarrow> receiveReq body \<Rightarrow>
   (manager \<times> world \<times> response option) outcome" where
  "receive sch meanwhile hung_up m W name b =
     (case Get m name of
        Inl e \<Rightarrow> Returned (m, W, Some (fail StatusNotFound e))
      | Inr q \<Rightarrow>
          (case decode zero_receiveReq b of
             Inl resp \<Rightarrow> Returned (m, W, Some resp)
           | Inr req \<Rightarrow>
               if v_Max req < 0 \<or> v_Max req > maxBatch
               then Returned (m, W, Some (fail StatusBadRequest (ErrMessage ''max must be between 0 and 1000'')))
               else (case boundedMS (v_VisibilityMS req) maxVisibility ''visibility_ms'' of
                       Inl e \<Rightarrow> Returned (m, W, Some (fail StatusBadRequest e))
                     | Inr visibility \<Rightarrow>
                         (case boundedMS (v_WaitMS req) maxWait ''wait_ms'' of
                            Inl e \<Rightarrow> Returned (m, W, Some (fail StatusBadRequest e))
                          | Inr wait \<Rightarrow>
                              (case Receive sch (q, m_wal m, W) (v_Max req) visibility wait of
                                 Waiting \<Rightarrow> Waiting
                               | Panic \<Rightarrow> Panic
                               | Returned ((q1, w1, W1), Inl e) \<Rightarrow>
                                   Returned (put_queue (meanwhile m) name q1 w1, W1,
                                     if e = ErrCanceled \<or> hung_up then None
                                     else Some (fail StatusInternalServerError e))
                               | Returned ((q1, w1, W1), Inr msgs) \<Rightarrow>
                                   Returned (put_queue (meanwhile m) name q1 w1, W1, Some (respond StatusOK (CMessages msgs))))))))"

definition lease_status :: "error \<Rightarrow> nat" where
  "lease_status e = (if errors_Is e ErrNoLease then StatusConflict else StatusInternalServerError)"

definition ack :: "manager \<Rightarrow> world \<Rightarrow> string \<Rightarrow> ackReq body \<Rightarrow> (manager \<times> world \<times> response) option" where
  "ack m W name b =
     (case Get m name of
        Inl e \<Rightarrow> Some (m, W, fail StatusNotFound e)
      | Inr q \<Rightarrow>
          (case decode \<lparr>a_Receipt = ''''\<rparr> b of
             Inl resp \<Rightarrow> Some (m, W, resp)
           | Inr req \<Rightarrow>
               (case Ack q (m_wal m) W (a_Receipt req) of
                  None \<Rightarrow> None
                | Some (q1, w1, W1, Inl e) \<Rightarrow> Some (put_queue m name q1 w1, W1, fail (lease_status e) e)
                | Some (q1, w1, W1, Inr _) \<Rightarrow> Some (put_queue m name q1 w1, W1, respond StatusOK CAcked))))"

definition nack :: "manager \<Rightarrow> world \<Rightarrow> string \<Rightarrow> nackReq body \<Rightarrow> (manager \<times> world \<times> response) option" where
  "nack m W name b =
     (case Get m name of
        Inl e \<Rightarrow> Some (m, W, fail StatusNotFound e)
      | Inr q \<Rightarrow>
          (case decode \<lparr>n_Receipt = '''', n_DelayMS = 0\<rparr> b of
             Inl resp \<Rightarrow> Some (m, W, resp)
           | Inr req \<Rightarrow>
               (case boundedMS (n_DelayMS req) maxDelay ''delay_ms'' of
                  Inl e \<Rightarrow> Some (m, W, fail StatusBadRequest e)
                | Inr delay \<Rightarrow>
                    (case Nack q (m_wal m) W (n_Receipt req) delay of
                       None \<Rightarrow> None
                     | Some (q1, w1, W1, Inl e) \<Rightarrow> Some (put_queue m name q1 w1, W1, fail (lease_status e) e)
                     | Some (q1, w1, W1, Inr _) \<Rightarrow> Some (put_queue m name q1 w1, W1, respond StatusOK CNacked)))))"

definition extend :: "manager \<Rightarrow> world \<Rightarrow> string \<Rightarrow> extendReq body \<Rightarrow> (manager \<times> world \<times> response) option" where
  "extend m W name b =
     (case Get m name of
        Inl e \<Rightarrow> Some (m, W, fail StatusNotFound e)
      | Inr q \<Rightarrow>
          (case decode \<lparr>x_Receipt = '''', x_VisibilityMS = 0\<rparr> b of
             Inl resp \<Rightarrow> Some (m, W, resp)
           | Inr req \<Rightarrow>
               (case boundedMS (x_VisibilityMS req) maxVisibility ''visibility_ms'' of
                  Inl e \<Rightarrow> Some (m, W, fail StatusBadRequest e)
                | Inr visibility \<Rightarrow>
                    (case Extend q W (x_Receipt req) visibility of
                       None \<Rightarrow> None
                     | Some (q1, W1, Inl e) \<Rightarrow> Some (put_queue m name q1 (m_wal m), W1, fail (lease_status e) e)
                     | Some (q1, W1, Inr t) \<Rightarrow> Some (put_queue m name q1 (m_wal m), W1, respond StatusOK (CExpiry t))))))"

section \<open>Replay\<close>

definition zero_replayReq :: replayReq where
  "zero_replayReq = \<lparr>p_Source = '''', p_Epoch = 0, p_FromOffset = 0, p_SinceUnixMS = 0\<rparr>"

definition replay :: "manager \<Rightarrow> world \<Rightarrow> string \<Rightarrow> replayReq body \<Rightarrow> manager \<times> world \<times> response" where
  "replay m W name b =
     (case Get m name of
        Inl e \<Rightarrow> (m, W, fail StatusNotFound e)
      | Inr q \<Rightarrow>
          (case decode zero_replayReq b of
             Inl resp \<Rightarrow> (m, W, resp)
           | Inr req \<Rightarrow>
               if p_Source req = '''' \<or> p_Source req = ''dlq''
               then (case ReplayDLQ q (m_wal m) W of
                       (q1, w1, W1, n, Inl e) \<Rightarrow>
                         (put_queue m name q1 w1, W1, respond StatusInternalServerError (CReplayed ''dlq'' n (Some e)))
                     | (q1, w1, W1, n, Inr _) \<Rightarrow>
                         (put_queue m name q1 w1, W1, respond StatusOK (CReplayed ''dlq'' n None)))
               else if p_Source req = ''log''
               then (if p_FromOffset req < 0
                     then (m, W, fail StatusBadRequest (ErrMessage ''from_offset must not be negative''))
                     else
                       (let since = (if p_SinceUnixMS req > 0 then UnixMilli (p_SinceUnixMS req) else zero_time)
                        in (case Replay m W name \<lparr>b_Epoch = p_Epoch req, b_Offset = p_FromOffset req\<rparr> since of
                              (m1, W1, n, Inl e) \<Rightarrow>
                                (m1, W1, respond (if is_bad_bookmark e then StatusBadRequest else StatusInternalServerError)
                                          (CReplayed ''log'' n (Some e)))
                            | (m1, W1, n, Inr _) \<Rightarrow> (m1, W1, respond StatusOK (CReplayed ''log'' n None)))))
               else (m, W, fail StatusBadRequest (ErrMessage (''source must be '' @ [CHR 0x22] @ ''dlq'' @ [CHR 0x22] @ '' or '' @ [CHR 0x22] @ ''log'' @ [CHR 0x22])))))"

section \<open>Administration\<close>

definition compact :: "manager \<Rightarrow> world \<Rightarrow> manager \<times> world \<times> response" where
  "compact m W =
     (let mark0 = m_Bookmark m in
      case m_Compact m W of
        (m1, W1, Inl e) \<Rightarrow> (m1, W1, fail StatusInternalServerError e)
      | (m1, W1, Inr _) \<Rightarrow>
          (let after = m_Bookmark m1
           in (m1, W1, respond StatusOK (CCompacted (b_Offset mark0) (b_Offset after) (b_Epoch after)))))"

definition bookmark :: "manager \<Rightarrow> response" where
  "bookmark m = respond StatusOK (CBookmark (m_Bookmark m))"

definition health :: "manager \<Rightarrow> response" where
  "health m =
     (case m_Err m of
        Some e \<Rightarrow> respond StatusServiceUnavailable (CHealth (Some e))
      | None \<Rightarrow> respond StatusOK (CHealth None))"

section \<open>Routes\<close>

datatype endpoint =
    ECreate | EList | EStats string | EEnqueue string | EReceive string | EAck string | ENack string
  | EExtend string | EReplay string | ECompact | EBookmark | EHealth

text \<open>
  The patterns registered with the router, on the method and the segments of the path;
  \<^verbatim>\<open>{name}\<close> matches one non-empty segment, and a pattern for \<^verbatim>\<open>GET\<close> matches \<^verbatim>\<open>HEAD\<close> as well.
\<close>

definition is_get :: "string \<Rightarrow> bool" where
  "is_get meth = (meth = ''GET'' \<or> meth = ''HEAD'')"

definition routes :: "string \<Rightarrow> string list \<Rightarrow> endpoint option" where
  "routes meth segs =
     (case segs of
        [a] \<Rightarrow>
          if a = ''queues'' then
            (if meth = ''POST'' then Some ECreate else if is_get meth then Some EList else None)
          else if a = ''bookmark'' \<and> is_get meth then Some EBookmark
          else if a = ''healthz'' \<and> is_get meth then Some EHealth
          else None
      | [a, name] \<Rightarrow>
          if a = ''queues'' \<and> name \<noteq> '''' \<and> is_get meth then Some (EStats name)
          else if a = ''admin'' \<and> name = ''compact'' \<and> meth = ''POST'' then Some ECompact
          else None
      | [a, name, verb] \<Rightarrow>
          if a = ''queues'' \<and> name \<noteq> '''' \<and> meth = ''POST'' then
            (if verb = ''messages'' then Some (EEnqueue name)
             else if verb = ''receive'' then Some (EReceive name)
             else if verb = ''ack'' then Some (EAck name)
             else if verb = ''nack'' then Some (ENack name)
             else if verb = ''extend'' then Some (EExtend name)
             else if verb = ''replay'' then Some (EReplay name)
             else None)
          else None
      | _ \<Rightarrow> None)"

section \<open>Serving a request\<close>

text \<open>An answer of a handler, no answer because nobody is left to read it, or the router's own.\<close>

datatype reply = Answered response | HungUp | NoRoute

definition answered :: "manager \<times> world \<times> response \<Rightarrow> (manager \<times> world \<times> reply) outcome" where
  "answered x = (case x of (m, W, r) \<Rightarrow> Returned (m, W, Answered r))"

definition unless_panic :: "(manager \<times> world \<times> response) option \<Rightarrow> (manager \<times> world \<times> reply) outcome" where
  "unless_panic x = (case x of None \<Rightarrow> Panic | Some y \<Rightarrow> answered y)"

definition handle :: "decoders \<Rightarrow> circumstances \<Rightarrow> endpoint \<Rightarrow> byte list \<Rightarrow> manager \<Rightarrow> world \<Rightarrow>
    (manager \<times> world \<times> reply) outcome" where
  "handle d c ep b m W =
     (case ep of
        ECreate \<Rightarrow> answered (createQueue m W (d_config d b))
      | EList \<Rightarrow> answered (listQueues m W)
      | EStats name \<Rightarrow> answered (queueStats m W name)
      | EEnqueue name \<Rightarrow> answered (enqueue m W name (d_enqueue d b))
      | EReceive name \<Rightarrow>
          (case receive (c_sch c) (c_meanwhile c) (c_hung_up c) m W name (d_receive d b) of
             Waiting \<Rightarrow> Waiting
           | Panic \<Rightarrow> Panic
           | Returned (m1, W1, None) \<Rightarrow> Returned (m1, W1, HungUp)
           | Returned (m1, W1, Some r) \<Rightarrow> Returned (m1, W1, Answered r))
      | EAck name \<Rightarrow> unless_panic (ack m W name (d_ack d b))
      | ENack name \<Rightarrow> unless_panic (nack m W name (d_nack d b))
      | EExtend name \<Rightarrow> unless_panic (extend m W name (d_extend d b))
      | EReplay name \<Rightarrow> answered (replay m W name (d_replay d b))
      | ECompact \<Rightarrow> answered (compact m W)
      | EBookmark \<Rightarrow> answered (m, W, bookmark m)
      | EHealth \<Rightarrow> answered (m, W, health m))"

definition ServeHTTP :: "decoders \<Rightarrow> circumstances \<Rightarrow> request \<Rightarrow> manager \<Rightarrow> world \<Rightarrow>
    (manager \<times> world \<times> reply) outcome" where
  "ServeHTTP d c r m W =
     (case routes (q_method r) (q_path r) of
        None \<Rightarrow> Returned (m, W, NoRoute)
      | Some ep \<Rightarrow> handle d c ep (q_body r) m W)"

text \<open>The clock is read before and after the request; what is logged is not modelled.\<close>

definition withLogging :: "(world \<Rightarrow> (manager \<times> world \<times> reply) outcome) \<Rightarrow> world \<Rightarrow>
    (manager \<times> world \<times> reply) outcome" where
  "withLogging nxt W =
     (case time_Now W of
        (start, W1) \<Rightarrow>
          (case nxt W1 of
             Returned (m, W2, r) \<Rightarrow> (case time_Now W2 of (_, W3) \<Rightarrow> Returned (m, W3, r))
           | x \<Rightarrow> x))"

end
