(* ===== verification/FQ_Main.thy ===== *)
theory FQ_Main
  imports FQ_Api
begin

text \<open>
  The process of \<^verbatim>\<open>src/main.go\<close>: its flags, start-up with recovery, the phases of serving and
  draining, and the shutdown that closes the log last. What is printed to the log of the
  process is reduced to the values it reports; sockets and timeouts of the HTTP server are
  not modelled.
\<close>

record flags =
  f_addr :: string
  f_wal :: string
  f_fsyncEvery :: duration
  f_tick :: duration
  f_verbose :: bool

definition default_flags :: flags where
  "default_flags = \<lparr>f_addr = '':8080'', f_wal = ''data/queue.wal'', f_fsyncEvery = 0,
     f_tick = 50 * Millisecond, f_verbose = False\<rparr>"

text \<open>What start-up reports: the size of the log, the number of queues, the group commit warning.\<close>

record startup =
  u_mgr :: manager
  u_bytes :: int
  u_queues :: nat
  u_warned :: bool

definition start :: "flags \<Rightarrow> world \<Rightarrow> world \<times> startup result" where
  "start fl W =
     (case time_Now W of
        (t0, W1) \<Rightarrow>
          (case Open (f_wal fl) (f_fsyncEvery fl) (f_tick fl) W1 of
             (W2, Inl e) \<Rightarrow> (W2, Inl e)
           | (W2, Inr mgr) \<Rightarrow>
               (case List_of mgr W2 of
                  (ss, W3) \<Rightarrow>
                    (case time_Now W3 of
                       (_, W4) \<Rightarrow>
                         (W4, Inr \<lparr>u_mgr = mgr, u_bytes = b_Offset (m_Bookmark mgr), u_queues = length ss,
                                   u_warned = (f_fsyncEvery fl > 0)\<rparr>)))))"

text \<open>
  The phases of the process. A signal starts draining; requests that are being served go on
  until they end, by themselves or because their connections are closed; only then is the
  log closed and the process exits, with status 1 when closing failed.
\<close>

datatype phase = Listening | Draining | Exited nat

definition serving :: "phase \<Rightarrow> bool" where
  "serving ph \<longleftrightarrow> ph = Listening \<or> ph = Draining"

definition shutdown :: "manager \<Rightarrow> world \<Rightarrow> manager \<times> world \<times> phase" where
  "shutdown m W =
     (case m_Close m W of
        (m1, W1, Inl e) \<Rightarrow> (m1, W1, Exited 1)
      | (m1, W1, Inr _) \<Rightarrow> (m1, W1, Exited 0))"

text \<open>
  One step of the running process: a request with its logging, one attempt of a receiver
  that is parked, the pump, the group commit, a reading of the clock by a parked receiver,
  the failure of the HTTP server (which ends the process without closing anything), the
  signal, and the end. A handler that outlives the forced closing of its connection finds the
  log closed and cannot write to it any more, so nothing is served once the log is closed.
\<close>

inductive pstep :: "decoders \<Rightarrow> phase \<times> manager \<times> world \<Rightarrow> phase \<times> manager \<times> world \<Rightarrow> bool" for d where
  served: "serving ph \<Longrightarrow> c_sch c = [] \<Longrightarrow> c_meanwhile c = id \<Longrightarrow>
    withLogging (ServeHTTP d c r m) W = Returned (m', W', rep) \<Longrightarrow> pstep d (ph, m, W) (ph, m', W')"
| polled: "serving ph \<Longrightarrow> Get m name = Inr q \<Longrightarrow>
    tryReceive q (m_wal m) W limit visibility = Some (q', w', W', wake, res) \<Longrightarrow>
    pstep d (ph, m, W) (ph, put_queue m name q' w', W')"
| parked: "serving ph \<Longrightarrow> pstep d (ph, m, W) (ph, m, snd (time_Now W))"
| pumped: "serving ph \<Longrightarrow> pump_tick m W = Some (m', W') \<Longrightarrow> pstep d (ph, m, W) (ph, m', W')"
| flushed: "serving ph \<Longrightarrow> flusher_tick (m_wal m) W = (w', W') \<Longrightarrow> pstep d (ph, m, W) (ph, m\<lparr>m_wal := w'\<rparr>, W')"
| failed: "pstep d (Listening, m, W) (Exited 1, m, W)"
| signalled: "pstep d (Listening, m, W) (Draining, m, W)"
| stopped: "shutdown m W = (m', W', ph) \<Longrightarrow> pstep d (Draining, m, W) (ph, m', W')"

inductive_cases pstep_cases: "pstep d s s'"

end
