(* ===== verification/FQ_Program.thy ===== *)
theory FQ_Program
  imports FQ_Durability FQ_Main
begin

text \<open>
  The running program: every handler keeps the system invariant and does not panic, so do the
  steps of the process, and so does a restart.
\<close>

section \<open>Handlers\<close>

definition mstep :: "manager \<Rightarrow> world \<Rightarrow> manager \<Rightarrow> world \<Rightarrow> bool" where
  "mstep m W m' W' \<longleftrightarrow> sinv (m_queues m') (m_wal m') W' \<and> onward (m_wal m, W) (m_wal m', W') \<and> m_closed m' = m_closed m"

lemma mstep_trans: "mstep m W m1 W1 \<Longrightarrow> mstep m1 W1 m2 W2 \<Longrightarrow> mstep m W m2 W2"
  unfolding mstep_def using onward_trans by fastforce

lemma mstep_refl: "sinv (m_queues m) (m_wal m) W \<Longrightarrow> mstep m W m W"
  by (simp add: mstep_def)

lemma mstep_clock:
  assumes "sinv (m_queues m) (m_wal m) W" shows "mstep m W m (W\<lparr>now_i := now_i W + n\<rparr>)"
proof -
  let ?W = "W\<lparr>now_i := now_i W + n\<rparr>"
  have "grew (m_wal m, W) [] (m_wal m, ?W)" by (rule grew_env) (simp_all add: same_env_def)
  then show ?thesis using sinv_env [OF assms] grew_onward by (auto simp: mstep_def)
qed

lemma mstep_put:
  assumes inv: "sinv (m_queues m) (m_wal m) W" and g: "Get m name = Inr q" and st: "qstep q (m_wal m) W q' w' W'"
  shows "mstep m W (put_queue m name q' w') W'"
proof -
  have "map_of (m_queues m) name = Some q" using g by (simp add: Get_def split: option.splits)
  then show ?thesis using qstep_sinv [OF inv _ st] qstep_onward [OF st] by (simp add: mstep_def put_queue_def)
qed

lemma Get_qinv: "sinv (m_queues m) w W \<Longrightarrow> Get m name = Inr q \<Longrightarrow> qinv q"
  by (auto simp: Get_def sinv_def queues_ok_def split: option.splits)

lemma Create_mstep:
  assumes "sinv (m_queues m) (m_wal m) W" and "Create m W cfg = (m', W', r)" shows "mstep m W m' W'"
proof -
  have i: "(if b then (m, x) else y) = (m', z) \<Longrightarrow> (y = (m', z) \<Longrightarrow> m_closed m' = m_closed m) \<Longrightarrow> m_closed m' = m_closed m"
    for b :: bool and x y z by (auto split: if_splits)
  have "m_closed m' = m_closed m"
    using assms(2) unfolding Create_def Let_def
    by (elim i) (auto split: option.splits prod.splits sum.splits)
  then show ?thesis using Create_sinv [OF assms] by (simp add: mstep_def)
qed

lemma createQueue_mstep:
  "sinv (m_queues m) (m_wal m) W \<Longrightarrow> createQueue m W b = (m', W', r) \<Longrightarrow> mstep m W m' W'"
  using Create_mstep [of m W] mstep_refl [of m W]
  by (auto simp: createQueue_def Let_def split: sum.splits if_splits prod.splits)

lemma Stats_clock:
  assumes "Stats_of q W = (W', s)" shows "\<exists>n. W' = W\<lparr>now_i := now_i W + n\<rparr>"
proof -
  have "W' = W\<lparr>now_i := now_i W + 0\<rparr> \<or> W' = W\<lparr>now_i := now_i W + 1\<rparr>"
    using assms by (auto simp: Stats_of_def time_Now_def Let_def split: prod.splits if_splits)
  then show ?thesis by blast
qed

lemma all_stats_clock: "all_stats qs W = (ss, W') \<Longrightarrow> \<exists>n. W' = W\<lparr>now_i := now_i W + n\<rparr> \<and> length ss = length qs"
proof (induction qs arbitrary: W ss)
  case Nil
  then show ?case by (auto intro: exI [of _ 0])
next
  case (Cons q qs)
  then obtain W1 s ss1 where s: "Stats_of q W = (W1, s)" "all_stats qs W1 = (ss1, W')" "ss = s # ss1"
    by (auto split: prod.splits)
  from Cons.IH [OF s(2)] obtain n where "W' = W1\<lparr>now_i := now_i W1 + n\<rparr>" "length ss1 = length qs" by blast
  moreover obtain k where "W1 = W\<lparr>now_i := now_i W + k\<rparr>" using Stats_clock [OF s(1)] by blast
  ultimately show ?case using s(3) by (auto intro!: exI [of _ "k + n"])
qed

lemma List_clock: "List_of m W = (ss, W') \<Longrightarrow> \<exists>n. W' = W\<lparr>now_i := now_i W + n\<rparr> \<and> length ss = length (m_queues m)"
  using all_stats_clock [of "map snd (m_queues m)" W] by (auto simp: List_of_def split: prod.splits)

lemma stats_mstep:
  assumes "sinv (m_queues m) (m_wal m) W"
  shows "listQueues m W = (m', W', r) \<Longrightarrow> mstep m W m' W'" and "queueStats m W name = (m', W', r) \<Longrightarrow> mstep m W m' W'"
  using assms mstep_refl [of m W] mstep_clock [OF assms] List_clock [of m W] Stats_clock [of _ W]
  by (fastforce simp: listQueues_def queueStats_def split: prod.splits sum.splits)+

lemma enqueue_mstep:
  assumes inv: "sinv (m_queues m) (m_wal m) W" and e: "enqueue m W name b = (m', W', r)" shows "mstep m W m' W'"
  using e mstep_refl [OF inv] mstep_put [OF inv _ Enqueue_qstep [OF Get_qinv [OF inv]]]
  by (fastforce simp: enqueue_def split: sum.splits if_splits prod.splits)

lemma grew_clock: "grew (w, W) [] (w, W\<lparr>now_i := now_i W + n\<rparr>)"
  by (rule grew_env) (simp_all add: same_env_def)

lemma qstep_clock:
  assumes "qstep q w (W\<lparr>now_i := now_i W + a\<rparr>) q' w' W'"
  shows "qstep q w W q' w' (W'\<lparr>now_i := now_i W' + b\<rparr>)"
proof -
  have g: "grew (w, W) recs (w', W'\<lparr>now_i := now_i W' + b\<rparr>)" if "grew (w, W\<lparr>now_i := now_i W + a\<rparr>) recs (w', W')" for recs
    using grew_trans [OF grew_clock grew_trans [OF that grew_clock]] by simp
  show ?thesis using assms g unfolding qstep_def by (fastforce simp: minted_def)
qed

lemma Receive_now:
  assumes inv: "qinv q"
  shows "Receive [] (q, w, W) limit visibility wait \<noteq> Panic"
    and "Receive [] (q, w, W) limit visibility wait = Returned ((q', w', W'), res) \<Longrightarrow> qstep q w W q' w' W'"
proof -
  let ?l = "if limit \<le> 0 then 1 else limit" and ?v = "if visibility \<le> 0 then Visibility (q_cfg q) else visibility"
  let ?W = "W\<lparr>now_i := now_i W + 1\<rparr>"
  obtain q1 w1 W1 wake r1 where t: "tryReceive q w ?W ?l ?v = Some (q1, w1, W1, wake, r1)"
    using tryReceive_spec [OF inv, of w ?W ?l ?v] by blast
  have st: "qstep q w W q1 w1 (W1\<lparr>now_i := now_i W1 + b\<rparr>)" for b
    by (rule qstep_clock [OF tryReceive_qstep [OF inv t]])
  show "Receive [] (q, w, W) limit visibility wait \<noteq> Panic"
    using t by (auto simp: Receive_def Receive_loop.simps Let_def time_Now_def split: sum.splits)
  show "Receive [] (q, w, W) limit visibility wait = Returned ((q', w', W'), res) \<Longrightarrow> qstep q w W q' w' W'"
    using t st [of 0] st [of 1] by (auto simp: Receive_def Receive_loop.simps Let_def time_Now_def split: sum.splits if_splits)
qed

lemma receive_mstep:
  assumes inv: "sinv (m_queues m) (m_wal m) W"
  shows "receive [] id h m W name b \<noteq> Panic" and "receive [] id h m W name b = Returned (m', W', r) \<Longrightarrow> mstep m W m' W'"
proof -
  have st: "mstep m W (put_queue m name q1 w1) W1"
    if "Get m name = Inr q" "Receive [] (q, m_wal m, W) l v t = Returned ((q1, w1, W1), res)" for q q1 w1 W1 l v t res
    by (rule mstep_put [OF inv that(1) Receive_now(2) [OF Get_qinv [OF inv that(1)] that(2)]])
  show "receive [] id h m W name b \<noteq> Panic"
    using Receive_now(1) [OF Get_qinv [OF inv]]
    by (auto simp: receive_def split: sum.splits outcome.splits)
  show "receive [] id h m W name b = Returned (m', W', r) \<Longrightarrow> mstep m W m' W'"
    using mstep_refl [OF inv] st
    by (auto simp: receive_def split: sum.splits outcome.splits if_splits)
qed

lemma settle_mstep:
  assumes inv: "sinv (m_queues m) (m_wal m) W"
  shows "ack m W name ba = Some (m', W', r) \<Longrightarrow> mstep m W m' W'" and "nack m W name bn = Some (m', W', r) \<Longrightarrow> mstep m W m' W'"
    and "FQ_Api.extend m W name bx = Some (m', W', r) \<Longrightarrow> mstep m W m' W'"
proof -
  note put = mstep_put [OF inv] and qi = Get_qinv [OF inv]
  show "ack m W name ba = Some (m', W', r) \<Longrightarrow> mstep m W m' W'"
    using mstep_refl [OF inv] put [OF _ Ack_qstep [OF qi]]
    by (auto simp: ack_def split: sum.splits option.splits)
  show "nack m W name bn = Some (m', W', r) \<Longrightarrow> mstep m W m' W'"
    using mstep_refl [OF inv] put [OF _ Nack_qstep [OF qi]]
    by (auto simp: nack_def split: sum.splits option.splits)
  show "FQ_Api.extend m W name bx = Some (m', W', r) \<Longrightarrow> mstep m W m' W'"
    using mstep_refl [OF inv] put [OF _ Extend_qstep [OF qi]]
    by (auto simp: FQ_Api.extend_def split: sum.splits option.splits)
qed

lemma settle_returns:
  assumes inv: "sinv (m_queues m) (m_wal m) W"
  shows "ack m W name ba \<noteq> None" "nack m W name bn \<noteq> None" "FQ_Api.extend m W name bx \<noteq> None"
proof -
  have p: "perform oper (q, m_wal m, W) \<noteq> None" if "Get m name = Inr q" for q oper
    using perform_step [OF Get_qinv [OF inv that], of oper "m_wal m" W] by auto
  have "Ack q (m_wal m) W t \<noteq> None" "Nack q (m_wal m) W t dl \<noteq> None" "Extend q W t dl \<noteq> None"
    if "Get m name = Inr q" for q t dl
    using p [OF that, of "DoAck t"] p [OF that, of "DoNack t dl"] p [OF that, of "DoExtend t dl"]
    by (auto simp: perform_def)
  note n = this
  show "ack m W name ba \<noteq> None"
    using n(1) by (cases "Get m name") (auto simp: ack_def simp del: not_None_eq split: sum.split option.split)
  show "nack m W name bn \<noteq> None"
    using n(2) by (cases "Get m name") (auto simp: nack_def simp del: not_None_eq split: sum.split option.split)
  show "FQ_Api.extend m W name bx \<noteq> None"
    using n(3) by (cases "Get m name") (auto simp: FQ_Api.extend_def simp del: not_None_eq split: sum.split option.split)
qed

lemma Replay_mstep:
  assumes "sinv (m_queues m) (m_wal m) W" and "Replay m W name bm since = (m', W', n, r)" shows "mstep m W m' W'"
proof -
  have "m_closed m' = m_closed m"
    using assms(2) by (auto simp: Replay_def Let_def split: if_splits prod.splits sum.splits)
  then show ?thesis using Replay_sinv [OF assms] by (simp add: mstep_def)
qed

lemma replay_mstep:
  assumes inv: "sinv (m_queues m) (m_wal m) W" and e: "replay m W name b = (m', W', r)" shows "mstep m W m' W'"
  using e mstep_refl [OF inv] mstep_put [OF inv _ ReplayDLQ_qstep [OF Get_qinv [OF inv]]] Replay_mstep [OF inv]
  by (auto simp: replay_def Let_def split: sum.splits if_splits prod.splits)

lemma compact_mstep:
  assumes inv: "sinv (m_queues m) (m_wal m) W" and e: "compact m W = (m', W', r)" shows "mstep m W m' W'"
proof -
  have "\<exists>r. m_Compact m W = (m', W', r)" using e by (auto simp: compact_def Let_def split: sum.splits prod.splits)
  moreover have "m_Compact m W = (m', W', r) \<Longrightarrow> m_closed m' = m_closed m" for r
    by (auto simp: m_Compact_def Let_def split: prod.splits)
  ultimately show ?thesis using m_Compact_sinv [OF inv] by (fastforce simp: mstep_def)
qed

section \<open>Requests\<close>

lemma answered_simps [simp]:
  "answered x \<noteq> Panic" "unless_panic y = Panic \<longleftrightarrow> y = None"
  "answered x = Returned (m, W, rep) \<longleftrightarrow> (\<exists>r. x = (m, W, r) \<and> rep = Answered r)"
  "unless_panic y = Returned (m, W, rep) \<longleftrightarrow> (\<exists>r. y = Some (m, W, r) \<and> rep = Answered r)"
  by (auto simp: answered_def unless_panic_def split: prod.splits option.splits)

lemma handle_mstep:
  assumes inv: "sinv (m_queues m) (m_wal m) W" and c: "c_sch c = []" "c_meanwhile c = id"
  shows "handle d c ep b m W \<noteq> Panic" and "handle d c ep b m W = Returned (m', W', rep) \<Longrightarrow> mstep m W m' W'"
proof -
  show "handle d c ep b m W \<noteq> Panic"
    using settle_returns [OF inv] receive_mstep(1) [OF inv]
    by (auto simp: handle_def c simp del: not_None_eq split: endpoint.split option.split outcome.split)
  note r = createQueue_mstep [OF inv] stats_mstep [OF inv] enqueue_mstep [OF inv] receive_mstep(2) [OF inv] settle_mstep [OF inv]
    replay_mstep [OF inv] compact_mstep [OF inv] mstep_refl [OF inv]
  show "handle d c ep b m W = Returned (m', W', rep) \<Longrightarrow> mstep m W m' W'"
    using r by (cases ep)
      (auto simp: handle_def c split: option.splits outcome.splits)
qed

lemma request_mstep:
  assumes inv: "sinv (m_queues m) (m_wal m) W" and c: "c_sch c = []" "c_meanwhile c = id"
  shows "withLogging (ServeHTTP d c r m) W \<noteq> Panic"
    and "withLogging (ServeHTTP d c r m) W = Returned (m', W', rep) \<Longrightarrow> mstep m W m' W'"
proof -
  let ?W = "W\<lparr>now_i := Suc (now_i W)\<rparr>"
  have k: "mstep m W m ?W" using mstep_clock [OF inv, of 1] by simp
  then have i: "sinv (m_queues m) (m_wal m) ?W" by (simp add: mstep_def)
  show "withLogging (ServeHTTP d c r m) W \<noteq> Panic"
    using handle_mstep(1) [OF i c]
    by (auto simp: withLogging_def ServeHTTP_def time_Now_def split: option.split outcome.split)
  assume "withLogging (ServeHTTP d c r m) W = Returned (m', W', rep)"
  then obtain W2 where r: "ServeHTTP d c r m ?W = Returned (m', W2, rep)" "W' = W2\<lparr>now_i := Suc (now_i W2)\<rparr>"
    by (auto simp: withLogging_def time_Now_def split: outcome.splits)
  then have "mstep m ?W m' W2"
    using handle_mstep(2) [OF i c] mstep_refl [OF i] by (auto simp: ServeHTTP_def split: option.splits)
  then have "mstep m W m' W2" using k mstep_trans by blast
  moreover from this have "mstep m' W2 m' W'" using mstep_clock [of m' W2 1] r(2) by (simp add: mstep_def)
  ultimately show "mstep m W m' W'" by (rule mstep_trans)
qed

section \<open>The process\<close>

text \<open>The world with the log's file open, whatever became of the handles of an earlier process.\<close>

definition reopened :: "wal \<Rightarrow> world \<Rightarrow> world" where
  "reopened w W = W\<lparr>opened := (opened W)(w_f w := True)\<rparr>"

definition pinv :: "flags \<Rightarrow> phase \<times> manager \<times> world \<Rightarrow> bool" where
  "pinv fl s \<longleftrightarrow>
     (case s of (ph, m, W) \<Rightarrow>
        sinv (m_queues m) (m_wal m) (reopened (m_wal m) W) \<and> w_path (m_wal m) = f_wal fl \<and>
        (serving ph \<longrightarrow> opened W (w_f (m_wal m)) \<and> \<not> m_closed m \<and> \<not> w_closed (m_wal m)))"

lemma reopened_open: "opened W (w_f w) \<Longrightarrow> reopened w W = W"
  by (simp add: reopened_def fun_upd_idem)

lemma sinv_opened: "sinv qs w W \<Longrightarrow> opened W (w_f w)"
  by (simp add: sinv_def wal_ok_def handle_ok_def fs_ok_def)

lemma pinv_serving:
  assumes "serving ph"
  shows "pinv fl (ph, m, W) \<longleftrightarrow> sinv (m_queues m) (m_wal m) W \<and> w_path (m_wal m) = f_wal fl \<and> \<not> m_closed m \<and> \<not> w_closed (m_wal m)"
  using assms reopened_open sinv_opened by (fastforce simp: pinv_def)

lemma mstep_pinv:
  assumes "serving ph" and "pinv fl (ph, m, W)" and "mstep m W m' W'"
  shows "pinv fl (ph, m', W')"
  using assms by (simp add: pinv_serving mstep_def onward_def same_log_def)

lemma pump_mstep:
  assumes "sinv (m_queues m) (m_wal m) W" shows "\<exists>m' W'. pump_tick m W = Some (m', W') \<and> mstep m W m' W'"
proof -
  obtain m' W' where p: "pump_tick m W = Some (m', W')" "sinv (m_queues m') (m_wal m') W'" "onward (m_wal m, W) (m_wal m', W')"
    using pump_tick_sinv [OF assms] by blast
  then have "m_closed m' = m_closed m" by (auto simp: pump_tick_def time_Now_def split: if_splits)
  then show ?thesis using p by (simp add: mstep_def)
qed

lemma close_all_disk: "files (close_all is W) = files W \<and> dir (close_all is W) = dir W \<and> next_ino (close_all is W) = next_ino W \<and>
    same_env W (close_all is W)"
proof (induction "is" arbitrary: W)
  case (Cons i "is")
  have "files (fst (os_Close i W)) = files W \<and> dir (fst (os_Close i W)) = dir W \<and> next_ino (fst (os_Close i W)) = next_ino W \<and>
      same_env W (fst (os_Close i W))"
    by (simp add: os_Close_def draw_def same_env_def split: io.split)
  then show ?case using Cons [of "fst (os_Close i W)"] same_env_trans by auto
qed simp

text \<open>Closing leaves the contents of every file alone.\<close>

lemma m_Close_disk:
  assumes "m_Close m W = (m', W', r)"
  shows "files W' = files W \<and> dir W' = dir W \<and> next_ino W' = next_ino W \<and> same_env W W' \<and> m_queues m' = m_queues m \<and>
    w_f (m_wal m') = w_f (m_wal m) \<and> w_size (m_wal m') = w_size (m_wal m) \<and> w_path (m_wal m') = w_path (m_wal m) \<and>
    w_failed (m_wal m') = w_failed (m_wal m)"
proof -
  let ?V = "close_all (w_retired (m_wal m)) W"
  have "files W' = files ?V \<and> dir W' = dir ?V \<and> next_ino W' = next_ino ?V \<and> same_env ?V W' \<or> W' = W"
    using assms by (auto simp: m_Close_def wal_Close_def os_Sync_def os_Close_def draw_def same_env_def Let_def
      split: if_splits prod.splits io.splits sum.splits)
  moreover have "m_queues m' = m_queues m \<and> w_f (m_wal m') = w_f (m_wal m) \<and> w_size (m_wal m') = w_size (m_wal m) \<and>
      w_path (m_wal m') = w_path (m_wal m) \<and> w_failed (m_wal m') = w_failed (m_wal m)"
    using assms by (auto simp: m_Close_def wal_Close_def Let_def split: if_splits prod.splits sum.splits)
  ultimately show ?thesis using close_all_disk [of "w_retired (m_wal m)" W] same_env_trans by auto
qed

lemma sinv_disk:
  assumes inv: "sinv qs w (reopened w W)" and s: "files W' (w_f w) = files W (w_f w)" "dir W' = dir W" "next_ino W' = next_ino W" "same_env W W'"
    and w: "w_f w' = w_f w" "w_size w' = w_size w" "w_path w' = w_path w" "w_failed w' = w_failed w"
  shows "sinv qs w' (reopened w' W')"
proof -
  let ?V = "reopened w W" and ?V' = "reopened w' W'"
  have e: "same_env ?V ?V'" "json ?V' = json ?V" using s(4) by (simp_all add: same_env_def reopened_def)
  have "wal_ok w' ?V' \<and> history w' ?V' = history w ?V"
  proof -
    have o: "fs_ok (w_f w) (w_path w) ?V" using inv by (simp add: sinv_def wal_ok_def handle_ok_def)
    have sel: "dir ?V' = dir ?V" "next_ino ?V' = next_ino ?V" "opened ?V' (w_f w)" "files ?V' (w_f w) = files ?V (w_f w)"
      using s w by (simp_all add: reopened_def)
    have "fs_ok (w_f w) (w_path w) ?V'" using o sel(3) unfolding fs_ok_def sel(1,2) by blast
    then show ?thesis using inv sel e(2) w by (auto simp: sinv_def wal_ok_def handle_ok_def history_def logbytes_def)
  qed
  then show ?thesis using inv e w(4) tracked_env [OF _ e(1)] unrepeated_env [OF e(1)] by (auto simp: sinv_def)
qed

lemma pstep_pinv:
  assumes "pstep d s s'" and "pinv fl s"
  shows "pinv fl s'"
  using assms
proof (induction rule: pstep.induct)
  case (served ph c r m W m' W' rep)
  have "sinv (m_queues m) (m_wal m) W" using served(5) pinv_serving [OF served(1)] by blast
  from request_mstep(2) [OF this served(2,3,4)] show ?case by (rule mstep_pinv [OF served(1,5)])
next
  case (polled ph m name q W limit visibility q' w' W' wake res)
  then have inv: "sinv (m_queues m) (m_wal m) W" by (simp add: pinv_serving)
  have "mstep m W (put_queue m name q' w') W'"
    by (rule mstep_put [OF inv polled(2) tryReceive_qstep [OF Get_qinv [OF inv polled(2)] polled(3)]])
  then show ?case using polled mstep_pinv by blast
next
  case (parked ph m W)
  then have "mstep m W m (snd (time_Now W))" using mstep_clock [of m W 1] by (simp add: pinv_serving time_Now_def)
  then show ?case using parked mstep_pinv by blast
next
  case (pumped ph m W m' W')
  then show ?case using pump_mstep [of m W] mstep_pinv [of ph fl m W m' W'] by (auto simp: pinv_serving)
next
  case (flushed ph m W w' W')
  then have "mstep m W (m\<lparr>m_wal := w'\<rparr>) W'" using flusher_sinv [of "m_queues m" "m_wal m" W w' W'] by (simp add: pinv_serving mstep_def)
  then show ?case using flushed mstep_pinv by blast
next
  case (failed m W)
  then show ?case by (simp add: pinv_def serving_def)
next
  case (signalled m W)
  then show ?case by (simp add: pinv_serving serving_def)
next
  case (stopped m W m' W' ph)
  then obtain r where c: "m_Close m W = (m', W', r)" "\<not> serving ph"
    by (auto simp: shutdown_def serving_def split: prod.splits sum.splits)
  have i: "sinv (m_queues m) (m_wal m) (reopened (m_wal m) W)" "w_path (m_wal m) = f_wal fl" using stopped(2) by (simp_all add: pinv_def)
  note k = m_Close_disk [OF c(1)]
  have "sinv (m_queues m) (m_wal m') (reopened (m_wal m') W')" by (rule sinv_disk [OF i(1)]) (use k in simp_all)
  then show ?case using k i(2) c(2) by (simp add: pinv_def)
qed

section \<open>Restarting\<close>

lemma OpenWAL_opened:
  assumes "dir W path = Some i" and "calm 6 W"
  shows "OpenWAL path syncEvery (W\<lparr>opened := (opened W)(i := True)\<rparr>) = OpenWAL path syncEvery W"
proof -
  let ?W = "W\<lparr>io_i := Suc (Suc (Suc (io_i W)))\<rparr>"
  note io = calm_6 [OF assms(2), of ?W]
  show ?thesis using assms(1) io
    by (simp add: OpenWAL_def os_MkdirAll_def os_OpenFile_def os_Stat_def draw_def fun_upd_idem)
qed

text \<open>
  A process that has ended, in whatever way, as the next one finds it: its handles are gone
  but the contents of the log's file are still there.
\<close>

definition left_behind :: "manager \<Rightarrow> world \<Rightarrow> world \<Rightarrow> bool" where
  "left_behind m W W' \<longleftrightarrow> files W' (w_f (m_wal m)) = files W (w_f (m_wal m)) \<and> dir W' = dir W \<and> next_ino W' = next_ino W \<and> same_env W W'"

lemma start_again:
  assumes inv: "pinv fl (ph, m, W)" and un: "w_failed (m_wal m) = None" "unrepeated W"
    and cl: "clean_tail (m_wal m) W" and lb: "left_behind m W W1" "rnd_i W1 = rnd_i W" and rl: "calm 6 W1"
  shows "\<exists>W' u. start fl W1 = (W', Inr u) \<and> pinv fl (Listening, u_mgr u, W') \<and> recovered_from (m_queues m) (history (m_wal m) W) (m_queues (u_mgr u)) \<and>
    w_failed (m_wal (u_mgr u)) = None \<and> u_queues u = length (m_queues (u_mgr u)) \<and> u_bytes u = int (w_size (m_wal (u_mgr u)))"
proof -
  let ?w = "m_wal m" and ?W2 = "W1\<lparr>now_i := Suc (now_i W1)\<rparr>"
  let ?V = "reopened ?w ?W2"
  have i: "sinv (m_queues m) ?w (reopened ?w W)" "w_path ?w = f_wal fl" using inv by (simp_all add: pinv_def)
  have e: "same_env W W1" "same_env W ?W2" using lb(1) by (auto simp: left_behind_def same_env_def)
  have v: "sinv (m_queues m) ?w ?V"
    by (rule sinv_disk [OF i(1)]) (use lb e in \<open>simp_all add: left_behind_def\<close>)
  have "unrepeated ?V" "clean_tail ?w ?V" "calm 6 ?V" "calm 6 ?W2"
    using un(2) cl rl lb e by (simp_all add: unrepeated_def minted_def [abs_def] clean_tail_def calm_def reopened_def left_behind_def same_env_def)
  note k = this
  have hv: "history ?w ?V = history ?w W"
    using lb e by (simp add: history_def logbytes_def reopened_def left_behind_def same_env_def)
  have d: "dir ?W2 (f_wal fl) = Some (w_f ?w)"
    using v un(1) i(2) by (simp add: sinv_def wal_ok_def handle_ok_def reopened_def)
  have "Open (f_wal fl) s t ?V = Open (f_wal fl) s t ?W2" for s t
    using OpenWAL_opened [OF d k(4)] by (simp add: Open_def reopened_def)
  then obtain m' W3 where o: "Open (f_wal fl) (f_fsyncEvery fl) (f_tick fl) ?W2 = (W3, Inr m')" "sinv (m_queues m') (m_wal m') W3"
    "w_failed (m_wal m') = None" "w_path (m_wal m') = f_wal fl" "\<not> w_closed (m_wal m')" "\<not> m_closed m'" "recovered_from (m_queues m) (history ?w W) (m_queues m')"
    using Open_again [OF v un(1) k(1-3), of "f_fsyncEvery fl" "f_tick fl"] i(2) hv by auto
  obtain ss n where l: "List_of m' W3 = (ss, W3\<lparr>now_i := now_i W3 + n\<rparr>)" "length ss = length (m_queues m')"
    using List_clock [of m' W3] by (metis prod.collapse)
  let ?u = "\<lparr>u_mgr = m', u_bytes = b_Offset (m_Bookmark m'), u_queues = length ss, u_warned = (f_fsyncEvery fl > 0)\<rparr>"
  have s: "start fl W1 = (W3\<lparr>now_i := now_i W3 + Suc n\<rparr>, Inr ?u)"
    using o(1) l(1) by (simp add: start_def time_Now_def)
  have "pinv fl (Listening, m', W3\<lparr>now_i := now_i W3 + Suc n\<rparr>)"
    using mstep_clock [OF o(2), of "Suc n"] o(4-6) by (simp add: pinv_serving serving_def mstep_def)
  then show ?thesis using s o l(2) by (simp add: m_Bookmark_def wal_Bookmark_def)
qed

lemma start_first:
  assumes b: "blank (f_wal fl) W" and rl: "calm 6 W" and s: "start fl W = (W', Inr u)"
  shows "pinv fl (Listening, u_mgr u, W')"
proof -
  let ?W = "W\<lparr>now_i := Suc (now_i W)\<rparr>"
  have "blank (f_wal fl) ?W" "calm 6 ?W" using b rl by (simp_all add: blank_def calm_def)
  then obtain m' W3 where o: "Open (f_wal fl) (f_fsyncEvery fl) (f_tick fl) ?W = (W3, Inr m')" "sinv (m_queues m') (m_wal m') W3"
    "w_path (m_wal m') = f_wal fl" "\<not> w_closed (m_wal m')" "\<not> m_closed m'"
    using Open_first [of "f_wal fl" ?W "f_fsyncEvery fl" "f_tick fl"] by blast
  obtain ss n where l: "List_of m' W3 = (ss, W3\<lparr>now_i := now_i W3 + n\<rparr>)"
    using List_clock [of m' W3] by (metis prod.collapse)
  have "W' = W3\<lparr>now_i := now_i W3 + Suc n\<rparr>" "u_mgr u = m'" using s o(1) l by (auto simp: start_def time_Now_def)
  then show ?thesis using mstep_clock [OF o(2), of "Suc n"] o(3-5) by (simp add: pinv_serving serving_def mstep_def)
qed

text \<open>
  The states of the program: from the first start through the steps of the process and any
  number of restarts, each of a log that had not failed, behind whose end no failed write
  left what reads as a record.
\<close>

inductive preach :: "flags \<Rightarrow> decoders \<Rightarrow> phase \<times> manager \<times> world \<Rightarrow> bool" for fl d where
  first: "blank (f_wal fl) W \<Longrightarrow> calm 6 W \<Longrightarrow> start fl W = (W', Inr u) \<Longrightarrow> preach fl d (Listening, u_mgr u, W')"
| step: "preach fl d s \<Longrightarrow> pstep d s s' \<Longrightarrow> preach fl d s'"
| again: "preach fl d (ph, m, W) \<Longrightarrow> w_failed (m_wal m) = None \<Longrightarrow> unrepeated W \<Longrightarrow> clean_tail (m_wal m) W \<Longrightarrow>
    left_behind m W W1 \<Longrightarrow> rnd_i W1 = rnd_i W \<Longrightarrow> calm 6 W1 \<Longrightarrow> start fl W1 = (W', Inr u) \<Longrightarrow>
    preach fl d (Listening, u_mgr u, W')"

lemma preach_pinv: "preach fl d s \<Longrightarrow> pinv fl s"
proof (induction rule: preach.induct)
  case (first W W' u)
  then show ?case by (rule start_first)
next
  case (step s s')
  then show ?case using pstep_pinv by blast
next
  case (again ph m W W1 W' u)
  from start_again [OF again(9) again(2-7)] again(8) show ?case by auto
qed

lemma preach_sinv:
  assumes "preach fl d (ph, m, W)" and "serving ph"
  shows "sinv (m_queues m) (m_wal m) W"
  using preach_pinv [OF assms(1)] pinv_serving [OF assms(2)] by blast

end
