(* ===== verification/FQ_Session.thy ===== *)
theory FQ_Session
  imports FQ_Program FQ_Examples
begin

text \<open>
  A short session of the program for the witnesses: a first start on an empty disk, a request
  that creates a queue, one that enqueues a message, a delivery, and its acknowledgement.
\<close>

definition ex_time :: gotime where
  "ex_time = 1000"

text \<open>The world of the session after \<open>n\<close> readings of the clock, \<open>r\<close> draws and \<open>k\<close> system calls.\<close>

definition ex_at :: "codec \<Rightarrow> nat \<Rightarrow> nat \<Rightarrow> nat \<Rightarrow> byte list \<Rightarrow> byte list \<Rightarrow> world" where
  "ex_at c n r k bs st = \<lparr>json = c, nows = (\<lambda>_. ex_time), now_i = n, rnds = (\<lambda>n i. of_nat n), rnd_i = r,
     ios = (\<lambda>_. IOok), io_i = k, files = (\<lambda>_. [])(0 := bs), stable = (\<lambda>_. [])(0 := st), opened = (\<lambda>i. False)(0 := True),
     dir = [''data/queue.wal'' \<mapsto> 0], next_ino = 1\<rparr>"

definition ex_disk :: "codec \<Rightarrow> world" where
  "ex_disk c = (ex_at c 0 0 0 [] [])\<lparr>opened := (\<lambda>i. False), dir := (\<lambda>_. None), next_ino := 0\<rparr>"

definition ex_log :: "byte list \<Rightarrow> wal" where
  "ex_log bs = \<lparr>w_f = 0, w_path = ''data/queue.wal'', w_size = length bs, w_epoch = 0, w_retired = [], w_failed = None,
     w_syncEvery = 0, w_dirty = False, w_stop = False, w_closed = False\<rparr>"

definition ex_manager :: "(string \<times> queue) list \<Rightarrow> byte list \<Rightarrow> manager" where
  "ex_manager qs bs = \<lparr>m_queues = qs, m_wal = ex_log bs, m_tick = 50 * Millisecond, m_stop = False, m_closed = False\<rparr>"

lemma ex_at_now [simp]: "time_Now (ex_at c n r k bs st) = (ex_time, ex_at c (Suc n) r k bs st)"
  by (simp add: time_Now_def ex_at_def)

lemma ex_at_json [simp]: "json (ex_at c n r k bs st) = c"
  by (simp add: ex_at_def)

lemma ex_append:
  assumes "encode c (rec\<lparr>rAt := UnixNano ex_time\<rparr>) = Inr buf" and "rAt rec = 0"
  shows "AppendSync (ex_log bs) (ex_at c n r k bs st) rec = (ex_log (bs @ buf), ex_at c (Suc n) r (k + 2) (bs @ buf) (bs @ buf), Inr ())"
    and "Append (ex_log bs) (ex_at c n r k bs st) rec = (ex_log (bs @ buf), ex_at c (Suc n) r (k + 1) (bs @ buf) st, Inr ())"
  using assms
  by (simp_all add: AppendSync_def Append_def wal_write_def stamp_def Let_def)
     (simp_all add: ex_log_def ex_at_def os_WriteAt_def os_Sync_def draw_def)

lemma ex_start: "start default_flags (ex_disk c) =
    (ex_at c 2 0 3 [] [], Inr \<lparr>u_mgr = ex_manager [] [], u_bytes = 0, u_queues = 0, u_warned = False\<rparr>)"
  by (simp add: start_def ex_disk_def ex_at_def ex_manager_def ex_log_def default_flags_def Open_def OpenWAL_def os_MkdirAll_def
      os_OpenFile_def os_Stat_def draw_def time_Now_def Let_def recover_def Recover_def scan_def List_of_def m_Bookmark_def
      wal_Bookmark_def Millisecond_def)

lemma ex_blank: "codec_ok c \<Longrightarrow> blank (f_wal default_flags) (ex_disk c)" "calm k (ex_disk c)"
  by (simp_all add: blank_def ex_disk_def calm_def ex_at_def)

section \<open>The records of the session\<close>

definition ex_id :: "nat \<Rightarrow> string" where
  "ex_id n = EncodeToString (replicate 16 (of_nat n))"

lemma ex_at_id [simp]: "newID (ex_at c n r k bs st) = (ex_id r, ex_at c n (Suc r) k bs st)"
proof -
  have "map (\<lambda>i. of_nat r :: byte) [0..<16] = replicate 16 (of_nat r)" by (simp add: map_replicate_const)
  then show ?thesis by (simp add: newID_def ex_at_def ex_id_def)
qed

definition ex_job :: msg where
  "ex_job = zero_msg\<lparr>ID := ex_id 0, Body := ''work'', Priority := 0, Seq := 1, VisibleAt := ex_time, EnqueuedAt := ex_time\<rparr>"

definition ex_out :: msg where
  "ex_out = ex_job\<lparr>Attempts := 1, Receipt := ex_id 1, LeaseExpiry := ex_time + Visibility ex_cfg\<rparr>"

definition ex_recs :: "wal_record list" where
  "ex_recs = map (\<lambda>r. wire (r\<lparr>rAt := UnixNano ex_time\<rparr>))
     [zero_record\<lparr>rOp := OpCreateQueue, rQueue := ''jobs'', rConfig := Some ex_cfg\<rparr>,
      enq_rec ''jobs'' ex_job, lease_rec ''jobs'' ex_out, id_rec OpAck ''jobs'' (ex_id 0),
      epoch_record 1, zero_record\<lparr>rOp := OpCreateQueue, rQueue := ''jobs'', rConfig := Some ex_cfg, rSeq := 1\<rparr>]"

definition ex_codec :: codec where
  "ex_codec = table ex_recs"

lemma ex_codec_ok: "codec_ok ex_codec"
  unfolding ex_codec_def by (rule table_ok) (simp add: ex_recs_def)

lemma ses_encode:
  "encode ex_codec (zero_record\<lparr>rOp := OpCreateQueue, rQueue := ''jobs'', rConfig := Some ex_cfg, rAt := UnixNano ex_time\<rparr>) = Inr (frame [1])"
  "encode ex_codec ((enq_rec ''jobs'' ex_job)\<lparr>rAt := UnixNano ex_time\<rparr>) = Inr (frame [2])"
  "encode ex_codec ((lease_rec ''jobs'' (ex_out\<lparr>index := i\<rparr>))\<lparr>rAt := UnixNano ex_time\<rparr>) = Inr (frame [3])"
  "encode ex_codec ((id_rec OpAck ''jobs'' (ex_id 0))\<lparr>rAt := UnixNano ex_time\<rparr>) = Inr (frame [4])"
  "encode ex_codec ((epoch_record 1)\<lparr>rAt := UnixNano ex_time\<rparr>) = Inr (frame [5])"
  "encode ex_codec (zero_record\<lparr>rOp := OpCreateQueue, rQueue := ''jobs'', rConfig := Some ex_cfg, rSeq := 1, rAt := UnixNano ex_time\<rparr>) = Inr (frame [6])"
  by (simp_all add: encode_def ex_codec_def table_def epoch_record_def ex_recs_def maxRecord_def wire_def enq_rec_def lease_rec_def id_rec_def zero_record_def)

section \<open>The steps\<close>

definition ex_dec :: decoders where
  "ex_dec = \<lparr>d_config = (\<lambda>b. Decoded ex_cfg), d_enqueue = (\<lambda>b. Decoded \<lparr>e_Body = ''work'', e_Priority = 0, e_DelayMS = 0\<rparr>),
     d_receive = (\<lambda>b. Absent), d_ack = (\<lambda>b. Decoded \<lparr>a_Receipt = ex_id 1\<rparr>),
     d_nack = (\<lambda>_. Absent), d_extend = (\<lambda>_. Absent), d_replay = (\<lambda>_. Absent)\<rparr>"

definition ex_calmly :: circumstances where
  "ex_calmly = \<lparr>c_sch = [], c_meanwhile = id, c_hung_up = False\<rparr>"

definition ex_post :: "string list \<Rightarrow> request" where
  "ex_post path = \<lparr>q_method = ''POST'', q_path = path, q_body = []\<rparr>"

lemma ex_new_cfg [simp]: "q_cfg (New ex_cfg) = ex_cfg"
  by (simp add: New_def ex_cfg_def FIFO_def)

lemma ex_vis: "\<not> wrap64 (VisibilityTimeoutMS ex_cfg * Millisecond) > maxVisibility" "\<not> VisibilityTimeoutMS ex_cfg < 0"
  by (simp_all add: ex_cfg_def wrap64_def Millisecond_def maxVisibility_def Hour_def Second_def)

lemma ex_names: "Name ex_cfg = ''jobs''" "Mode_of ex_cfg = FIFO" "Mode_of ex_cfg \<noteq> ''''"
  by (simp_all add: ex_cfg_def FIFO_def)

lemma ex_create:
  "withLogging (ServeHTTP ex_dec ex_calmly (ex_post [''queues'']) (ex_manager [] [])) (ex_at ex_codec 2 0 3 [] []) =
     Returned (ex_manager [(''jobs'', New ex_cfg)] (frame [1]), ex_at ex_codec 5 0 5 (frame [1]) (frame [1]),
       Answered (respond StatusCreated (CConfig ex_cfg)))"
proof -
  have a: "AppendSync (ex_log []) (ex_at ex_codec 3 0 3 [] [])
      (zero_record\<lparr>rOp := OpCreateQueue, rQueue := ''jobs'', rConfig := Some ex_cfg\<rparr>) =
      (ex_log (frame [1]), ex_at ex_codec 4 0 5 (frame [1]) (frame [1]), Inr ())"
    using ex_append(1) [of ex_codec _ "frame [1]" "[]" 3 0 3 "[]"] ses_encode by (simp add: zero_record_def)
  have "Create (ex_manager [] []) (ex_at ex_codec 3 0 3 [] []) ex_cfg =
      (ex_manager [(''jobs'', New ex_cfg)] (frame [1]), ex_at ex_codec 4 0 5 (frame [1]) (frame [1]), Inr (New ex_cfg))"
    by (simp add: Create_def ex_manager_def ex_names a Let_def)
  then show ?thesis
    using ex_vis by (simp add: withLogging_def ServeHTTP_def routes_def ex_post_def handle_def createQueue_def decode_def ex_dec_def answered_def ex_names FIFO_def)
qed

definition ex_q1 :: queue where
  "ex_q1 = (New ex_cfg)\<lparr>q_seq := 1, q_mem := (q_mem (New ex_cfg))(0 := ex_job\<lparr>index := 0\<rparr>), q_next := 1,
     q_ready := \<lparr>items = [0], less = orderBy FIFO\<rparr>, q_enqueued := 1, q_wake := 1\<rparr>"

lemma ex_enqueue_step:
  "Enqueue (New ex_cfg) (ex_log (frame [1])) (ex_at ex_codec 6 0 5 (frame [1]) (frame [1])) ''work'' 0 0 =
     (ex_q1, ex_log (frame [1] @ frame [2]), ex_at ex_codec 8 1 7 (frame [1] @ frame [2]) (frame [1] @ frame [2]), Inr (ex_job\<lparr>index := 0\<rparr>))"
proof -
  have n: "New ex_cfg = \<lparr>q_cfg = ex_cfg, q_mem = (\<lambda>_. zero_msg), q_next = 0, q_seq = 0,
      q_ready = \<lparr>items = [], less = orderBy FIFO\<rparr>, q_delayed = \<lparr>items = [], less = byVisibleAt\<rparr>,
      q_inflight = \<lparr>items = [], less = byLeaseExpiry\<rparr>, q_leases = (\<lambda>_. None), q_dlq = [],
      q_enqueued = 0, q_delivered = 0, q_acked = 0, q_nacked = 0, q_expired = 0, q_walErr = None, q_wake = 0\<rparr>"
    by (simp add: New_def ex_cfg_def FIFO_def newMsgHeap_def)
  have r: "(q_record q OpEnqueue)\<lparr>rMsg := Some m\<rparr> = enq_rec (Name (q_cfg q)) m" for q m
    by (simp add: q_record_def enq_rec_def)
  have a: "AppendSync (ex_log (frame [1])) (ex_at ex_codec 7 1 5 (frame [1]) (frame [1])) (enq_rec ''jobs'' ex_job) =
      (ex_log (frame [1] @ frame [2]), ex_at ex_codec 8 1 7 (frame [1] @ frame [2]) (frame [1] @ frame [2]), Inr ())"
    using ex_append(1) [of ex_codec "enq_rec ''jobs'' ex_job" "frame [2]" "frame [1]" 7 1 5] ses_encode(2) by (simp add: enq_rec_def zero_record_def)
  show ?thesis
    unfolding Enqueue_def r
    by (simp add: n a [unfolded One_nat_def ex_job_def] ex_names Let_def placeLocked_def Ready_def push_ready_def heap_Push_def Push_def Len_def up.simps Less_def signalLocked_def ex_q1_def)
       (simp add: ex_job_def)
qed

lemma ex_enqueue_request:
  "withLogging (ServeHTTP ex_dec ex_calmly (ex_post [''queues'', ''jobs'', ''messages'']) (ex_manager [(''jobs'', New ex_cfg)] (frame [1])))
      (ex_at ex_codec 5 0 5 (frame [1]) (frame [1])) =
     Returned (ex_manager [(''jobs'', ex_q1)] (frame [1] @ frame [2]), ex_at ex_codec 9 1 7 (frame [1] @ frame [2]) (frame [1] @ frame [2]),
       Answered (respond StatusCreated (CMsg (ex_job\<lparr>index := 0\<rparr>))))"
  using ex_enqueue_step
  by (simp add: withLogging_def ServeHTTP_def routes_def ex_post_def handle_def enqueue_def decode_def ex_dec_def answered_def
      Get_def ex_manager_def boundedMS_def maxDelay_def Millisecond_def Second_def Hour_def Let_def wrap64_def put_queue_def)

definition ex_q2 :: queue where
  "ex_q2 = ex_q1\<lparr>q_mem := (\<lambda>_. zero_msg)(0 := ex_out\<lparr>index := 0\<rparr>), q_ready := \<lparr>items = [], less = orderBy FIFO\<rparr>,
     q_inflight := \<lparr>items = [0], less = byLeaseExpiry\<rparr>, q_leases := [ex_id 1 \<mapsto> 0], q_delivered := 1\<rparr>"

lemma ex_q1_sel [simp]:
  "q_mem ex_q1 = (\<lambda>_. zero_msg)(0 := ex_job\<lparr>index := 0\<rparr>)" "q_next ex_q1 = 1" "q_seq ex_q1 = 1"
  "q_ready ex_q1 = \<lparr>items = [0], less = orderBy FIFO\<rparr>" "q_delayed ex_q1 = \<lparr>items = [], less = byVisibleAt\<rparr>"
  "q_inflight ex_q1 = \<lparr>items = [], less = byLeaseExpiry\<rparr>" "q_dlq ex_q1 = []"
  "q_leases ex_q1 = (\<lambda>_. None)" "q_cfg ex_q1 = ex_cfg" "q_walErr ex_q1 = None" "q_wake ex_q1 = 1" "q_delivered ex_q1 = 0"
  by (simp_all add: ex_q1_def New_def ex_cfg_def FIFO_def newMsgHeap_def)

lemma ex_receive_step:
  "\<exists>res. tryReceive ex_q1 (ex_log (frame [1] @ frame [2])) (ex_at ex_codec 9 1 7 (frame [1] @ frame [2]) (frame [1] @ frame [2])) 1 (Visibility ex_cfg) =
     Some (ex_q2, ex_log (frame [1] @ frame [2] @ frame [3]), ex_at ex_codec 11 2 8 (frame [1] @ frame [2] @ frame [3]) (frame [1] @ frame [2]), 1, res)"
proof -
  let ?q = "ex_q1\<lparr>q_mem := (\<lambda>_. zero_msg)(0 := ex_job\<lparr>index := -1\<rparr>), q_ready := \<lparr>items = [], less = orderBy FIFO\<rparr>\<rparr>"
  let ?out = "ex_out\<lparr>index := -1\<rparr>"
  have adv: "advanceLocked ex_q1 w W now = Some (ex_q1, w, W)" for w W now
    by (simp add: advanceLocked_def promote.simps reclaim.simps peek_def)
  have pick: "pick 1 ex_q1 = Some (?q, [0])"
    by (simp add: peek_def pop_ready_def heap_Pop_def Swap_def down.simps Pop_def Len_def Let_def)
  have r: "(q_record q OpLease)\<lparr>rMsg := Some m\<rparr> = lease_rec (Name (q_cfg q)) m" for q m
    by (simp add: q_record_def lease_rec_def)
  have a: "Append (ex_log bs) (ex_at ex_codec 10 2 7 bs st) (lease_rec ''jobs'' ?out) =
      (ex_log (bs @ frame [3]), ex_at ex_codec 11 2 8 (bs @ frame [3]) st, Inr ())" for bs st
    using ex_append(2) [of ex_codec "lease_rec ''jobs'' ?out" "frame [3]" bs 10 2 7] ses_encode(3) by (simp add: lease_rec_def zero_record_def)
  have o: "ex_job\<lparr>index := -1, Attempts := wrap64 (Attempts ex_job + 1), Receipt := ex_id 1, LeaseExpiry := ex_time + Visibility ex_cfg\<rparr> = ?out"
    by (simp add: ex_out_def ex_job_def zero_msg_def wrap64_def)
  show ?thesis
    using pick
    by (simp add: tryReceive_def adv Let_def r a [unfolded numeral_2_eq_2] numeral_2_eq_2 o [simplified] ex_names push_inflight_def heap_Push_def Push_def Len_def up.simps Less_def set_msg_def ex_q2_def)
qed

definition ex_q3 :: queue where
  "ex_q3 = ex_q2\<lparr>q_mem := (\<lambda>_. zero_msg)(0 := ex_out\<lparr>index := -1\<rparr>),
     q_inflight := \<lparr>items = [], less = byLeaseExpiry\<rparr>, q_leases := (\<lambda>_. None), q_acked := 1\<rparr>"

lemma ex_q2_sel [simp]:
  "q_mem ex_q2 = (\<lambda>_. zero_msg)(0 := ex_out\<lparr>index := 0\<rparr>)" "q_cfg ex_q2 = ex_cfg"
  "q_inflight ex_q2 = \<lparr>items = [0], less = byLeaseExpiry\<rparr>" "q_leases ex_q2 = [ex_id 1 \<mapsto> 0]" "q_acked ex_q2 = 0"
  by (simp_all add: ex_q2_def) (simp add: ex_q1_def New_def)

lemma ex_ack_request:
  "withLogging (ServeHTTP ex_dec ex_calmly (ex_post [''queues'', ''jobs'', ''ack'']) (ex_manager [(''jobs'', ex_q2)] bs)) (ex_at ex_codec 11 2 8 bs st) =
     Returned (ex_manager [(''jobs'', ex_q3)] (bs @ frame [4]), ex_at ex_codec 14 2 10 (bs @ frame [4]) (bs @ frame [4]), Answered (respond StatusOK CAcked))"
proof -
  have a: "AppendSync (ex_log bs) (ex_at ex_codec 12 2 8 bs st) ((q_record ex_q2 OpAck)\<lparr>rID := ex_id 0\<rparr>) =
      (ex_log (bs @ frame [4]), ex_at ex_codec 13 2 10 (bs @ frame [4]) (bs @ frame [4]), Inr ())"
    using ex_append(1) [of ex_codec "id_rec OpAck ''jobs'' (ex_id 0)" "frame [4]" bs 12 2 8] ses_encode(4)
    by (simp add: q_record_def id_rec_def zero_record_def ex_names)
  have i: "ID ex_out = ex_id 0" by (simp add: ex_out_def ex_job_def)
  have "Ack ex_q2 (ex_log bs) (ex_at ex_codec 12 2 8 bs st) (ex_id 1) =
      Some (ex_q3, ex_log (bs @ frame [4]), ex_at ex_codec 13 2 10 (bs @ frame [4]) (bs @ frame [4]), Inr ())"
    using a by (simp add: Ack_def i remove_inflight_def heap_Remove_def Swap_def down.simps up.simps Pop_def Len_def Let_def ex_q3_def)
  then show ?thesis
    by (simp add: withLogging_def ServeHTTP_def routes_def ex_post_def handle_def ack_def decode_def ex_dec_def unless_panic_def answered_def
        Get_def ex_manager_def put_queue_def)
qed

section \<open>The states of the session\<close>

lemma ex_circumstances [simp]: "c_sch ex_calmly = []" "c_meanwhile ex_calmly = id" "serving Listening"
  by (simp_all add: ex_calmly_def serving_def)

lemma ex_created: "preach default_flags ex_dec
    (Listening, ex_manager [(''jobs'', New ex_cfg)] (frame [1]), ex_at ex_codec 5 0 5 (frame [1]) (frame [1]))"
proof -
  have "preach default_flags ex_dec (Listening, ex_manager [] [], ex_at ex_codec 2 0 3 [] [])"
    using preach.first [OF ex_blank(1) [OF ex_codec_ok] ex_blank(2) ex_start, of ex_dec] by simp
  then show ?thesis
    by (rule preach.step) (rule pstep.served [OF _ _ _ ex_create], simp_all)
qed

lemma ex_running: "preach default_flags ex_dec
    (Listening, ex_manager [(''jobs'', ex_q1)] (frame [1] @ frame [2]), ex_at ex_codec 9 1 7 (frame [1] @ frame [2]) (frame [1] @ frame [2]))"
  by (rule preach.step [OF ex_created]) (rule pstep.served [OF _ _ _ ex_enqueue_request], simp_all)

definition ex_bytes :: "byte list" where
  "ex_bytes = frame [1] @ frame [2] @ frame [3] @ frame [4]"

lemma ex_settled: "preach default_flags ex_dec (Listening, ex_manager [(''jobs'', ex_q3)] ex_bytes, ex_at ex_codec 14 2 10 ex_bytes ex_bytes)"
proof -
  let ?bs = "frame [1] @ frame [2] @ frame [3]"
  have p: "put_queue (ex_manager [(''jobs'', ex_q1)] bs) ''jobs'' ex_q2 (ex_log bs') = ex_manager [(''jobs'', ex_q2)] bs'"
    "Get (ex_manager [(''jobs'', ex_q1)] bs) ''jobs'' = Inr ex_q1" "m_wal (ex_manager [(''jobs'', ex_q1)] bs) = ex_log bs" for bs bs'
    by (simp_all add: put_queue_def ex_manager_def Get_def)
  obtain res where r: "tryReceive ex_q1 (m_wal (ex_manager [(''jobs'', ex_q1)] (frame [1] @ frame [2])))
      (ex_at ex_codec 9 1 7 (frame [1] @ frame [2]) (frame [1] @ frame [2])) 1 (Visibility ex_cfg) =
      Some (ex_q2, ex_log ?bs, ex_at ex_codec 11 2 8 ?bs (frame [1] @ frame [2]), 1, res)"
    using ex_receive_step unfolding p(3) by blast
  have "preach default_flags ex_dec (Listening, ex_manager [(''jobs'', ex_q2)] ?bs, ex_at ex_codec 11 2 8 ?bs (frame [1] @ frame [2]))"
    using preach.step [OF ex_running pstep.polled [OF _ p(2) r]] unfolding p(1) by simp
  from preach.step [OF this pstep.served [OF _ _ _ ex_ack_request]] show ?thesis by (simp add: ex_bytes_def)
qed

lemma ex_healthy:
  "w_failed (ex_log bs) = None" "r \<le> 256 \<Longrightarrow> unrepeated (ex_at c n r k bs st)" "clean_tail (ex_log bs) (ex_at c n r k bs st)"
  "calm j (ex_at c n r k bs st)" "m_wal (ex_manager qs bs) = ex_log bs"
proof -
  have "minted (ex_at c n r k bs st) i = EncodeToString (replicate 16 (of_nat i))" for i
    using ex_at_id [of c n i k bs st] by (simp add: minted_def newID_def ex_at_def ex_id_def)
  then have "i = j" if "minted (ex_at c n r k bs st) i = minted (ex_at c n r k bs st) j" "i < 256" "j < 256" for i j
    using EncodeToString_inj [of "replicate 16 (of_nat i)" "replicate 16 (of_nat j)"] that
    by (simp add: word_of_nat_eq_iff take_bit_nat_eq_self)
  then show "r \<le> 256 \<Longrightarrow> unrepeated (ex_at c n r k bs st)"
    unfolding unrepeated_def by (intro inj_onI) (auto simp: ex_at_def)
qed (simp_all add: ex_log_def clean_tail_def calm_def ex_at_def ex_manager_def)

lemma ex_left_behind: "left_behind m W (W\<lparr>opened := o'\<rparr>)"
  by (simp add: left_behind_def same_env_def)

lemma ex_q3_records: "liveRecordsLocked ex_q3 = [zero_record\<lparr>rOp := OpCreateQueue, rQueue := ''jobs'', rConfig := Some ex_cfg, rSeq := 1\<rparr>]"
  by (simp add: liveRecordsLocked_def ex_q3_def ex_q2_def q_record_def ex_names zero_record_def)

lemma ses_compact:
  "\<exists>m' W'. m_Compact (ex_manager [(''jobs'', ex_q3)] bs) (ex_at ex_codec 14 2 10 bs st) = (m', W', Inr ()) \<and>
     rnds W' = rnds (ex_at ex_codec 14 2 10 bs st) \<and> rnd_i W' = 2 \<and> ios W' = (\<lambda>_. IOok)"
proof -
  note e = ses_encode(5,6) [unfolded epoch_record_def zero_record_def]
  show ?thesis
    by (simp add: m_Compact_def ex_manager_def ex_q3_records wal_Compact_def ex_log_def stamp_def os_OpenFile_def os_WriteAt_def os_Sync_def os_Close_def
        os_Rename_def os_sync_dir_def draw_def time_Now_def ex_at_def Let_def e [simplified] epoch_record_def zero_record_def)
qed

lemma ex_history:
  "history (ex_log ex_bytes) (ex_at ex_codec n r k ex_bytes st) =
     map norm [zero_record\<lparr>rOp := OpCreateQueue, rQueue := ''jobs'', rConfig := Some ex_cfg\<rparr>,
       enq_rec ''jobs'' ex_job, lease_rec ''jobs'' ex_out] @ [norm (id_rec OpAck ''jobs'' (ex_id 0))]"
proof -
  have na: "norm (r\<lparr>rAt := t\<rparr>) = norm r" for r t by (simp add: norm_def wire_def)
  have b: "body_ok (unmarshal ex_codec) [of_nat (Suc i)] (ex_recs ! i)" if "i < 6" for i
    using that by (simp add: body_ok_def maxRecord_def ex_codec_def table_def ex_recs_def unsigned_of_nat take_bit_nat_eq_self del: of_nat_Suc)
  have "parse (unmarshal ex_codec) ex_bytes = ([ex_recs ! 0, ex_recs ! 1, ex_recs ! 2, ex_recs ! 3], [])"
    using parse_frame [OF b [of 0]] parse_frame [OF b [of 1]] parse_frame [OF b [of 2]] parse_frame [OF b [of 3], of "[]"]
    by (simp add: ex_bytes_def)
  then show ?thesis
    by (simp add: history_def logbytes_def ex_log_def) (simp add: ex_at_def ex_recs_def na)
qed

end
