(* ===== verification/FQ_Api_Props.thy ===== *)
theory FQ_Api_Props
  imports FQ_Session FQ_Poll_Props
begin

text \<open>
  Properties of the HTTP surface: how durations are bounded, what an answer promises, what a
  failed log means for the clients, and what a replay from the log publishes.
\<close>

section \<open>Durations\<close>

text \<open>
  C12: \<^verbatim>\<open>boundedMS\<close> is exact. For a ceiling that is a whole number of milliseconds and any
  64-bit input it accepts exactly the numbers of milliseconds from zero up to the ceiling, and
  what it returns is that many milliseconds: the multiplication does not overflow.
\<close>

theorem boundedMS_exact:
  assumes "0 \<le> ceiling" and "int64_range ceiling" and "Millisecond dvd ceiling" and "int64_range n"
  shows "(0 \<le> n \<and> n * Millisecond \<le> ceiling \<longrightarrow> boundedMS n ceiling field = Inr (n * Millisecond)) \<and>
    (\<not> (0 \<le> n \<and> n * Millisecond \<le> ceiling) \<longrightarrow> isl (boundedMS n ceiling field))"
proof -
  have "n * Millisecond \<le> ceiling \<longleftrightarrow> n \<le> ceiling div Millisecond"
    using assms(3) by (auto simp: Millisecond_def)
  moreover have "wrap64 (n * Millisecond) = n * Millisecond" if "0 \<le> n" "n * Millisecond \<le> ceiling"
    using that assms(2) by (simp add: wrap64_def int64_range_def Millisecond_def)
  ultimately show ?thesis by (auto simp: boundedMS_def Let_def)
qed

theorem boundedMS_exact_witness:
  "boundedMS 60000 maxWait ''wait_ms'' = Inr (60 * Second) \<and> isl (boundedMS 60001 maxWait ''wait_ms'') \<and>
   isl (boundedMS (2 ^ 62) maxDelay ''delay_ms'')"
proof -
  have "0 \<le> maxWait" "int64_range maxWait" "Millisecond dvd maxWait" "0 \<le> maxDelay" "int64_range maxDelay" "Millisecond dvd maxDelay"
    "int64_range 60000" "int64_range 60001" "int64_range (2 ^ 62)"
    by (simp_all add: maxWait_def maxDelay_def int64_range_def Millisecond_def Second_def Hour_def)
  then show ?thesis
    using boundedMS_exact [of maxWait 60000 "''wait_ms''"] boundedMS_exact [of maxWait 60001 "''wait_ms''"]
      boundedMS_exact [of maxDelay "2 ^ 62" "''delay_ms''"]
    by (simp add: maxWait_def maxDelay_def Millisecond_def Second_def Hour_def)
qed

text \<open>
  C40: the check of \<^verbatim>\<open>visibility_timeout_ms\<close> overflows. A timeout of 9223372036855 milliseconds,
  almost three hundred years, is accepted although the limit is twelve hours, because the
  product wraps around before it is compared, and the queue that is created has a negative
  visibility timeout: its leases have expired before they begin.
\<close>

theorem visibility_check_overflows:
  "\<exists>m' W'. createQueue (ex_manager [] []) (ex_at any_codec 3 0 3 [] []) (Decoded (ex_cfg\<lparr>VisibilityTimeoutMS := 9223372036855\<rparr>)) =
      (m', W', respond StatusCreated (CConfig (ex_cfg\<lparr>VisibilityTimeoutMS := 9223372036855\<rparr>))) \<and>
    maxVisibility < 9223372036855 * Millisecond \<and> Visibility (ex_cfg\<lparr>VisibilityTimeoutMS := 9223372036855\<rparr>) < 0"
proof -
  let ?cfg = "ex_cfg\<lparr>VisibilityTimeoutMS := 9223372036855\<rparr>"
  have w: "wrap64 (9223372036855 * Millisecond) < 0" "\<not> maxVisibility < wrap64 (9223372036855 * Millisecond)"
    by (simp_all add: wrap64_def Millisecond_def maxVisibility_def Hour_def Second_def)
  have n: "q_cfg (New ?cfg) = ?cfg" by (simp add: New_def ex_cfg_def FIFO_def)
  have "encode any_codec r = Inr (frame [1])" for r by (simp add: encode_def any_codec_def maxRecord_def)
  then obtain w1 W1 where a: "AppendSync (ex_log []) (ex_at any_codec 3 0 3 [] [])
      (zero_record\<lparr>rOp := OpCreateQueue, rQueue := ''jobs'', rConfig := Some ?cfg\<rparr>) = (w1, W1, Inr ())"
    using ex_append(1) [of any_codec "zero_record\<lparr>rOp := OpCreateQueue, rQueue := ''jobs'', rConfig := Some ?cfg\<rparr>" _ "[]" 3 0 3 "[]"]
    by (simp add: zero_record_def)
  have "createQueue (ex_manager [] []) (ex_at any_codec 3 0 3 [] []) (Decoded ?cfg) =
      ((ex_manager [(''jobs'', New ?cfg)] [])\<lparr>m_wal := w1\<rparr>, W1, respond StatusCreated (CConfig ?cfg))"
    using w a by (simp add: createQueue_def decode_def Create_def ex_names n FIFO_def ex_manager_def Let_def)
  then show ?thesis using w by (simp add: Visibility_def maxVisibility_def Hour_def Second_def Millisecond_def)
qed

section \<open>What an answer promises\<close>

lemma put_same: "Get m name = Inr q \<Longrightarrow> put_queue m name q (m_wal m) = m"
  using update_same [of "m_queues m" name q] by (auto simp: put_queue_def Get_def split: option.splits)

lemma Get_put [simp]: "Get (put_queue m name q w) k = (if k = name then Inr q else Get m k)"
  by (simp add: Get_def put_queue_def update_conv')

lemma allm_gate: "allm (gate now m A) = add_mset m (allm A)"
  by (simp add: allm_def gate_def)

lemma Enqueue_outcome:
  assumes inv: "qinv q" and ok: "wal_ok w W" "codec_ok (json W)" and e: "Enqueue q w W body priority delay = (q', w', W', res)"
  shows "case res of Inl e \<Rightarrow> abs q' = abs q
    | Inr x \<Rightarrow> history w' W' = history w W @ [norm (enq_rec (Name (q_cfg q)) x)] \<and> w_failed w' = None \<and>
        Body x = body \<and> Priority x = priority \<and> allm (abs q') = add_mset (strip x) (allm (abs q))"
proof (cases "priority = 0 \<or> Priority_on (q_cfg q)")
  case True
  note sp = Enqueue_spec [OF inv True e]
  show ?thesis
  proof (cases res)
    case (Inr x)
    then have x: "strip x = fresh_msg q W body priority delay" using sp(5) by simp
    have nf: "w_failed w' = None" using Enqueue_logged e Inr by blast
    then have "history w' W' = history w W @ [norm (enq_rec (Name (q_cfg q)) (fresh_msg q W body priority delay))]"
      using sp(6) ok Inr by (simp add: grew_def logged_def)
    moreover have "Body x = body" "Priority x = priority"
      using arg_cong [OF x, of Body] arg_cong [OF x, of Priority] by (simp_all add: fresh_msg_def)
    ultimately show ?thesis using sp(5) Inr nf norm_enq_rec [of _ x] x by (simp add: allm_gate)
  qed (use sp in simp)
next
  case False
  then show ?thesis using Enqueue_refused [of priority q] e by auto
qed

lemma Enqueue_failed_history:
  assumes inv: "qinv q" and ok: "wal_ok w W" "codec_ok (json W)" and e: "Enqueue q w W body priority delay = (q', w', W', Inl err)"
  shows "w_failed w' = None \<longrightarrow> history w' W' = history w W"
proof (cases "priority = 0 \<or> Priority_on (q_cfg q)")
  case True
  then show ?thesis using Enqueue_spec(6) [OF inv True e] ok by (simp add: grew_def logged_def)
next
  case False
  then show ?thesis using Enqueue_refused [of priority q] e by simp
qed

lemma enqueue_created:
  assumes "preach fl d (ph, m, W)" and "serving ph" and "enqueue m W name b = (m', W', resp)"
  shows "(fst resp = StatusCreated \<longrightarrow>
      (\<exists>q q' req x. Get m name = Inr q \<and> Get m' name = Inr q' \<and> decode zero_enqueueReq b = Inr req \<and> snd resp = CMsg x \<and>
         Body x = e_Body req \<and> Priority x = e_Priority req \<and>
         history (m_wal m') W' = history (m_wal m) W @ [norm (enq_rec name x)] \<and>
         allm (abs q') = add_mset (strip x) (allm (abs q)))) \<and>
    (fst resp \<noteq> StatusCreated \<longrightarrow> (\<forall>k. map_sum id abs (Get m' k) = map_sum id abs (Get m k)))"
proof -
  note inv = preach_sinv [OF assms(1,2)]
  have ok: "wal_ok (m_wal m) W" "codec_ok (json W)" using inv by (simp_all add: sinv_def)
  note st = StatusCreated_def StatusNotFound_def StatusBadRequest_def StatusInternalServerError_def
  show ?thesis
  proof (cases "\<exists>q req delay. Get m name = Inr q \<and> decode zero_enqueueReq b = Inr req \<and> e_Body req \<noteq> '''' \<and>
      boundedMS (e_DelayMS req) maxDelay ''delay_ms'' = Inr delay")
    case False
    then have "m' = m \<and> fst resp \<noteq> StatusCreated"
      using assms(3) by (auto simp: enqueue_def decode_def fail_def respond_def st split: sum.splits if_splits body.splits)
    then show ?thesis by simp
  next
    case True
    then obtain q req delay where t: "Get m name = Inr q" "decode zero_enqueueReq b = Inr req" "e_Body req \<noteq> ''''"
      "boundedMS (e_DelayMS req) maxDelay ''delay_ms'' = Inr delay" by blast
    obtain q1 w1 W1 res where e: "Enqueue q (m_wal m) W (e_Body req) (e_Priority req) delay = (q1, w1, W1, res)" by (metis prod_cases4)
    have nm: "Name (q_cfg q) = name" using inv t(1) by (auto simp: sinv_def queues_ok_def Get_def split: option.splits)
    have m': "m' = put_queue m name q1 w1" "W' = W1" "fst resp = StatusCreated \<longleftrightarrow> \<not> isl res" "\<And>x. res = Inr x \<Longrightarrow> snd resp = CMsg x"
      using assms(3) t e by (auto simp: enqueue_def fail_def respond_def st split: sum.splits if_splits)
    have wl: "m_wal m' = w1" by (simp add: m'(1) put_queue_def)
    show ?thesis
      using Enqueue_outcome [OF Get_qinv [OF inv t(1)] ok e] t(1,2) m' wl nm by (cases res) auto
  qed
qed

text \<open>
  C14: a 201 is a promise. When the handler answers 201 to an enqueue, exactly the record of the
  message it returns, with the body and priority of the request, has been appended to the
  log, and the queue holds that message and what it held before. With any other answer no
  queue has changed its contents.
\<close>

theorem created_means_logged:
  assumes "preach fl d (ph, m, W)" and "serving ph" and "enqueue m W name b = (m', W', resp)"
  shows "(fst resp = StatusCreated \<longrightarrow>
      (\<exists>q q' req x. Get m name = Inr q \<and> Get m' name = Inr q' \<and> decode zero_enqueueReq b = Inr req \<and> snd resp = CMsg x \<and>
         Body x = e_Body req \<and> Priority x = e_Priority req \<and>
         history (m_wal m') W' = history (m_wal m) W @ [norm (enq_rec name x)] \<and>
         allm (abs q') = add_mset (strip x) (allm (abs q)))) \<and>
    (fst resp \<noteq> StatusCreated \<longrightarrow> (\<forall>k. map_sum id abs (Get m' k) = map_sum id abs (Get m k)))"
  using assms by (rule enqueue_created)

theorem created_means_logged_witness:
  "\<exists>m' W' q' x. enqueue (ex_manager [(''jobs'', New ex_cfg)] (frame [1])) (ex_at ex_codec 6 0 5 (frame [1]) (frame [1]))
       ''jobs'' (Decoded \<lparr>e_Body = ''work'', e_Priority = 0, e_DelayMS = 0\<rparr>) = (m', W', respond StatusCreated (CMsg x)) \<and>
     Get m' ''jobs'' = Inr q' \<and> strip x \<in># allm (abs q') \<and> norm (enq_rec ''jobs'' x) \<in> set (history (m_wal m') W')"
proof -
  let ?m = "ex_manager [(''jobs'', New ex_cfg)] (frame [1])" and ?W = "ex_at ex_codec 6 0 5 (frame [1]) (frame [1])"
  let ?b = "Decoded \<lparr>e_Body = ''work'', e_Priority = 0, e_DelayMS = 0\<rparr>" and ?x = "ex_job\<lparr>index := 0\<rparr>"
  obtain m' W' where e: "enqueue ?m ?W ''jobs'' ?b = (m', W', respond StatusCreated (CMsg ?x))"
    using ex_enqueue_step
    by (simp add: enqueue_def decode_def Get_def ex_manager_def boundedMS_def maxDelay_def Millisecond_def Second_def Hour_def Let_def wrap64_def)
  have p: "preach default_flags ex_dec (Listening, ?m, ?W)"
    using preach.step [OF ex_created pstep.parked] by simp
  from created_means_logged [OF p _ e] e show ?thesis by (auto simp: respond_def)
qed

section \<open>A failed log\<close>

lemma AppendSync_refused: "w_failed w = Some e \<Longrightarrow> AppendSync w W r = (w', W', Inr u) \<Longrightarrow> False"
  using wal_write_refused [of w e W r True] by (auto simp: AppendSync_def)

lemma failed_Create: "w_failed (m_wal m) = Some e \<Longrightarrow> Create m W cfg = (m', W', Inr q) \<Longrightarrow> False"
proof -
  assume f: "w_failed (m_wal m) = Some e" and c: "Create m W cfg = (m', W', Inr q)"
  have i: "(if b then (m, W, Inl x) else y) = (m', W', Inr q) \<Longrightarrow> y = (m', W', Inr q)" for b :: bool and x and y :: "manager \<times> world \<times> queue result"
    by (auto split: if_splits)
  have "(case map_of (m_queues m) (Name cfg) of
      Some _ \<Rightarrow> (m, W, Inl ErrQueueExists)
    | None \<Rightarrow> (case AppendSync (m_wal m) W (zero_record\<lparr>rOp := OpCreateQueue, rQueue := Name cfg, rConfig := Some (q_cfg (New cfg))\<rparr>) of
         (w1, W1, Inl e) \<Rightarrow> (m\<lparr>m_wal := w1\<rparr>, W1, Inl e)
       | (w1, W1, Inr _) \<Rightarrow> (m\<lparr>m_wal := w1, m_queues := AList.update (Name cfg) (New cfg) (m_queues m)\<rparr>, W1, Inr (New cfg)))) = (m', W', Inr q)"
    using c unfolding Create_def Let_def by (elim i [THEN i [THEN i]]) 
  then show False using AppendSync_refused [OF f] by (auto split: option.splits prod.splits sum.splits)
qed

lemma failed_queue:
  assumes f: "w_failed w = Some e"
  shows "Enqueue q w W body priority delay = (q', w', W', Inr x) \<Longrightarrow> False" and "Ack q w W receipt = Some (q', w', W', Inr u) \<Longrightarrow> False"
    and "Nack q w W receipt delay = Some (q', w', W', Inr u) \<Longrightarrow> False"
  using AppendSync_refused [OF f]
  by (fastforce simp: Enqueue_def Ack_def Nack_def retryLocked_def Let_def split: if_splits prod.splits sum.splits option.splits)+

text \<open>
  C34: health tells the truth. The health check answers 200 exactly as long as the log has not
  failed; and while it answers 503 no write is accepted: no queue is created, no message
  taken, acknowledged or returned, and no compaction reported as done.
\<close>

theorem unhealthy_takes_no_writes:
  "(fst (health m) = StatusOK \<longleftrightarrow> m_Err m = None) \<and>
   (fst (health m) = StatusServiceUnavailable \<longrightarrow>
      fst (snd (snd (createQueue m W cb))) \<noteq> StatusCreated \<and> fst (snd (snd (enqueue m W name eb))) \<noteq> StatusCreated \<and>
      fst (snd (snd (compact m W))) \<noteq> StatusOK \<and>
      (\<forall>m' W' resp. ack m W name ab = Some (m', W', resp) \<or> nack m W name nb = Some (m', W', resp) \<longrightarrow> fst resp \<noteq> StatusOK))"
proof -
  note st = StatusOK_def StatusCreated_def StatusNotFound_def StatusBadRequest_def StatusInternalServerError_def
    StatusServiceUnavailable_def StatusConflict_def fail_def respond_def
  have h: "fst (health m) = StatusOK \<longleftrightarrow> m_Err m = None" "fst (health m) = StatusServiceUnavailable \<longleftrightarrow> m_Err m \<noteq> None"
    by (auto simp: health_def st split: option.splits)
  moreover have "fst (snd (snd (createQueue m W cb))) \<noteq> StatusCreated \<and> fst (snd (snd (enqueue m W name eb))) \<noteq> StatusCreated \<and>
      fst (snd (snd (compact m W))) \<noteq> StatusOK \<and>
      (\<forall>m' W' resp. ack m W name ab = Some (m', W', resp) \<or> nack m W name nb = Some (m', W', resp) \<longrightarrow> fst resp \<noteq> StatusOK)"
    if "m_Err m = Some e" for e
  proof (intro conjI allI impI)
    have f: "w_failed (m_wal m) = Some e" using that by (simp add: m_Err_def wal_Err_def)
    show "fst (snd (snd (createQueue m W cb))) \<noteq> StatusCreated"
      using failed_Create [OF f] by (auto simp: createQueue_def decode_def Let_def st split: body.split sum.split prod.split)
    show "fst (snd (snd (enqueue m W name eb))) \<noteq> StatusCreated"
      using failed_queue(1) [OF f] by (auto simp: enqueue_def decode_def st split: body.split sum.split prod.split)
    show "fst (snd (snd (compact m W))) \<noteq> StatusOK"
      using f by (simp add: compact_def m_Compact_def wal_Compact_def Let_def st)
    fix m' W' resp
    assume a: "ack m W name ab = Some (m', W', resp) \<or> nack m W name nb = Some (m', W', resp)"
    have ls: "lease_status e \<noteq> 200" for e by (simp add: lease_status_def st)
    from a show "fst resp \<noteq> StatusOK"
    proof
      assume "ack m W name ab = Some (m', W', resp)"
      then show ?thesis using failed_queue(2) [OF f] ls by (auto simp: ack_def decode_def st split: body.splits sum.splits option.splits)
    next
      assume "nack m W name nb = Some (m', W', resp)"
      then show ?thesis using failed_queue(3) [OF f] ls by (auto simp: nack_def decode_def st split: body.splits sum.splits option.splits)
    qed
  qed
  ultimately show ?thesis by blast
qed

theorem unhealthy_takes_no_writes_witness:
  "fst (snd (snd (enqueue ((ex_manager [(''jobs'', ex_q1)] [])\<lparr>m_wal := (ex_log [])\<lparr>w_failed := Some (ErrOS ''fsync'')\<rparr>\<rparr>)
     (ex_at ex_codec 9 1 7 [] []) ''jobs'' (Decoded \<lparr>e_Body = ''work'', e_Priority = 0, e_DelayMS = 0\<rparr>)))) \<noteq> StatusCreated"
  using unhealthy_takes_no_writes [of "(ex_manager [(''jobs'', ex_q1)] [])\<lparr>m_wal := (ex_log [])\<lparr>w_failed := Some (ErrOS ''fsync'')\<rparr>\<rparr>"]
  by (simp add: health_def m_Err_def wal_Err_def respond_def StatusServiceUnavailable_def)

section \<open>Replaying the log\<close>

lemma publish_outcome:
  assumes "qinv q" and "wal_ok w W" and "codec_ok (json W)" and "publish q w W its n = (q', w', W', k, r)"
  shows "\<exists>xs. k = n + length xs \<and> map (\<lambda>x. (Body x, Priority x)) xs = take (length xs) its \<and> (\<not> isl r \<longrightarrow> length xs = length its) \<and>
    allm (abs q') = allm (abs q) + mset (map strip xs) \<and>
    (w_failed w' = None \<longrightarrow> history w' W' = history w W @ map (norm \<circ> enq_rec (Name (q_cfg q))) xs)"
  using assms
proof (induction its arbitrary: q w W n)
  case Nil
  then show ?case by (auto intro: exI [of _ "[]"])
next
  case (Cons it its)
  obtain body priority where it: "it = (body, priority)" by fastforce
  obtain q1 w1 W1 res where e: "Enqueue q w W body priority 0 = (q1, w1, W1, res)" by (metis prod_cases4)
  have st: "qstep q w W q1 w1 W1" by (rule Enqueue_qstep [OF Cons.prems(1) e])
  then have i: "qinv q1" "q_cfg q1 = q_cfg q" "wal_ok w1 W1" "codec_ok (json W1)" "w_failed w1 = None \<longrightarrow> w_failed w = None"
    using Cons.prems(2,3) by (auto simp: qstep_def grew_def same_env_def)
  note o = Enqueue_outcome [OF Cons.prems(1-3) e]
  show ?case
  proof (cases res)
    case (Inl err)
    then have p: "q' = q1" "w' = w1" "W' = W1" "k = n" "r = Inl err" using Cons.prems(4) e by (simp_all add: it)
    have "w_failed w1 = None \<longrightarrow> history w1 W1 = history w W"
      using Enqueue_failed_history [OF Cons.prems(1-3) e [unfolded Inl]] by blast
    then show ?thesis using o Inl p by (auto intro!: exI [of _ "[]"])
  next
    case (Inr x)
    then have "publish q1 w1 W1 its (Suc n) = (q', w', W', k, r)" using Cons.prems(4) e by (simp add: it)
    from Cons.IH [OF i(1,3,4) this] obtain xs where xs: "k = Suc n + length xs"
      "map (\<lambda>x. (Body x, Priority x)) xs = take (length xs) its" "\<not> isl r \<longrightarrow> length xs = length its"
      "allm (abs q') = allm (abs q1) + mset (map strip xs)"
      "w_failed w' = None \<longrightarrow> history w' W' = history w1 W1 @ map (norm \<circ> enq_rec (Name (q_cfg q1))) xs"
      by (elim exE conjE) (rule that, assumption+)
    have ox: "history w1 W1 = history w W @ [norm (enq_rec (Name (q_cfg q)) x)]" "Body x = body" "Priority x = priority"
      "allm (abs q1) = add_mset (strip x) (allm (abs q))" using o Inr by simp_all
    show ?thesis by (intro exI [of _ "x # xs"] conjI) (use xs in \<open>simp_all add: it ox i(2) del: mset_map\<close>)
  qed
qed

text \<open>What a replay asks for: body and priority of the enqueues of the queue, not older than \<open>since\<close>.\<close>

definition wanted :: "string \<Rightarrow> gotime \<Rightarrow> wal_record list \<Rightarrow> (string \<times> int) list" where
  "wanted name since rs = map (\<lambda>r. (Body (the (rMsg r)), Priority (the (rMsg r)))) (filter (replay_wants name since) rs)"

lemma replay_items: "fold (replay_item name since) (data rs) found = found @ wanted name since rs"
proof (induction rs arbitrary: found)
  case (Cons r rs)
  have "replay_wants name since r \<Longrightarrow> rOp r \<noteq> OpEpoch \<and> (\<exists>x. rMsg r = Some x)"
    by (auto simp: replay_wants_def split: option.splits)
  then show ?case using Cons.IH by (auto simp: data_def replay_item_def wanted_def split: option.splits)
qed (simp add: data_def wanted_def)

lemma Scan_found:
  assumes ok: "w_size w \<le> length (files W (w_f w))" and s: "Scan w W off (\<lambda>r o' s. (g r s, None)) s0 = (w1, W1, s1, Inr u)"
  shows "0 \<le> off \<and> off \<le> int (w_size w) \<and> s1 = fold g (data (fst (parse (unmarshal (json W)) (drop (nat off) (logbytes w W))))) s0"
proof -
  have b: "0 \<le> off" "off \<le> int (w_size w)" using s by (auto simp: Scan_def scan_def split: if_splits)
  show ?thesis
  proof (cases "off = int (w_size w)")
    case True
    then have "drop (nat off) (logbytes w W) = []" by (simp add: logbytes_def)
    then show ?thesis using b s True by (simp add: Scan_def scan_def data_def)
  next
    case False
    obtain W2 bs bad where rd: "os_read (w_f w) (nat off) (w_size w - nat off) W = (W2, bs, bad)" by (metis prod_cases3)
    have bs: "\<not> bad \<Longrightarrow> bs = drop (nat off) (logbytes w W)" "json W2 = json W"
      using rd by (auto simp: os_read_def draw_def logbytes_def drop_take split: if_splits io.splits)
    obtain rs t where p: "parse (unmarshal (json W)) bs = (rs, t)" by fastforce
    obtain reason where "scan_loop (unmarshal (json W)) (\<lambda>r o' s. (g r s, None)) bs bad (nat off) (w_epoch w) s0 =
        (epoch_after (w_epoch w) rs, fold g (data rs) s0, if t = [] \<and> \<not> bad then ScanEOF else ScanFail (nat off + (length bs - length t)) reason)"
      using scan_loop_parse [OF p, of g bad "nat off" "w_epoch w" s0] by blast
    then have "s1 = fold g (data rs) s0 \<and> \<not> bad"
      using s b False rd bs(2) by (auto simp: Scan_def scan_def Let_def split: if_splits)
    then show ?thesis using b p bs(1) by simp
  qed
qed



end
