(* ===== verification/FQ_Program_Props.thy ===== *)
theory FQ_Program_Props
  imports FQ_Session FQ_Poll_Props
begin

text \<open>
  Properties of the whole program: the invariant of its reachable states, what a restart and
  a compaction preserve, and what a clean stop has made durable.
\<close>

section \<open>The invariant\<close>

lemma history_reopened [simp]: "history w (reopened w W) = history w W"
  by (simp add: history_def logbytes_def reopened_def)

lemma unrepeated_reopened [simp]: "unrepeated (reopened w W) = unrepeated W"
  by (simp add: unrepeated_def minted_def [abs_def] reopened_def)

lemma tracked_reopened [simp]: "tracked qs (reopened w W) H = tracked qs W H"
  by (simp add: tracked_def minted_def [abs_def] reopened_def)

lemma preach_tracked:
  assumes "preach fl d (ph, m, W)" and "w_failed (m_wal m) = None" and "unrepeated W"
  shows "tracked (m_queues m) W (history (m_wal m) W)"
  using preach_pinv [OF assms(1)] assms(2,3) by (simp add: pinv_def sinv_def)

text \<open>
  C5: in every state the program reaches, through any requests, ticks, group commits,
  compactions and restarts, every queue satisfies its structural invariant and is filed under
  its own name; and as long as the log has not failed and no identifier was drawn twice, the
  log accounts for all of it: the creation of every queue is on record with its
  configuration, and every message of every queue, dead or alive, is what a recovery from the
  log would bring back.
\<close>

theorem system_invariant:
  assumes "preach fl d (ph, m, W)"
  shows "queues_ok (m_queues m) \<and>
    (w_failed (m_wal m) = None \<longrightarrow> unrepeated W \<longrightarrow> tracked (m_queues m) W (history (m_wal m) W))"
  using preach_pinv [OF assms] preach_tracked [OF assms] by (simp add: pinv_def sinv_def)

theorem system_invariant_witness:
  "tracked [(''jobs'', ex_q1)] (ex_at ex_codec 9 1 7 (frame [1] @ frame [2]) (frame [1] @ frame [2]))
     (history (ex_log (frame [1] @ frame [2])) (ex_at ex_codec 9 1 7 (frame [1] @ frame [2]) (frame [1] @ frame [2])))"
  using system_invariant [OF ex_running] ex_healthy by (simp add: ex_manager_def)

text \<open>
  C15: a program that is serving never panics: not in a request, not in an attempt of a
  parked receiver, not in the pump.
\<close>

theorem program_never_panics:
  assumes "preach fl d (ph, m, W)" and "serving ph" and "c_sch c = []" and "c_meanwhile c = id"
  shows "withLogging (ServeHTTP d c r m) W \<noteq> Panic \<and> (\<exists>m' W'. pump_tick m W = Some (m', W')) \<and>
    (\<forall>name q limit visibility. Get m name = Inr q \<longrightarrow> tryReceive q (m_wal m) W limit visibility \<noteq> None)"
proof -
  note inv = preach_sinv [OF assms(1,2)]
  have "tryReceive q (m_wal m) W limit visibility \<noteq> None" if g: "Get m name = Inr q" for name q limit visibility
    using tryReceive_spec [OF Get_qinv [OF inv g], of "m_wal m" W limit visibility] by auto
  then show ?thesis using request_mstep(1) [OF inv assms(3,4)] pump_mstep [OF inv] by blast
qed

theorem program_never_panics_witness:
  "withLogging (ServeHTTP ex_dec ex_calmly (ex_post [''queues'', ''jobs'', ''receive'']) (ex_manager [(''jobs'', ex_q1)] (frame [1] @ frame [2])))
     (ex_at ex_codec 9 1 7 (frame [1] @ frame [2]) (frame [1] @ frame [2])) \<noteq> Panic"
  using program_never_panics [OF ex_running, of ex_calmly "ex_post [''queues'', ''jobs'', ''receive'']"] by simp

section \<open>Restarting\<close>

lemma survives_length:
  assumes "queues_ok qs" and "queues_ok qs'" and "recovered_from qs H qs'"
  shows "length qs' = length qs"
proof -
  have "dom (map_of qs') = dom (map_of qs)"
    using recovered_from_none [OF assms(3)] by (simp add: dom_def del: not_None_eq)
  then have "fst ` set qs' = fst ` set qs" by (simp add: dom_map_of_conv_image_fst)
  moreover have "card (fst ` set xs) = length xs" if "queues_ok xs" for xs
    using that distinct_card [of "map fst xs"] by (simp add: queues_ok_def)
  ultimately show ?thesis using assms(1,2) by metis
qed

lemma restart:
  assumes r: "preach fl d (ph, m, W)" and un: "w_failed (m_wal m) = None" "unrepeated W" and cl: "clean_tail (m_wal m) W"
    and lb: "left_behind m W W1" "rnd_i W1 = rnd_i W" and rl: "calm 6 W1"
  shows "\<exists>W' u. start fl W1 = (W', Inr u) \<and> preach fl d (Listening, u_mgr u, W') \<and> survives (m_queues m) (m_queues (u_mgr u)) \<and>
    recovered_from (m_queues m) (history (m_wal m) W) (m_queues (u_mgr u)) \<and> u_queues u = length (m_queues m)"
proof -
  obtain W' u where s: "start fl W1 = (W', Inr u)" "recovered_from (m_queues m) (history (m_wal m) W) (m_queues (u_mgr u))"
    "u_queues u = length (m_queues (u_mgr u))"
    using start_again [OF preach_pinv [OF r] un cl lb rl] by blast
  have p: "preach fl d (Listening, u_mgr u, W')" by (rule preach.again [OF r un cl lb rl s(1)])
  have "queues_ok (m_queues m)" "queues_ok (m_queues (u_mgr u))"
    using preach_pinv [OF r] preach_pinv [OF p] by (simp_all add: pinv_def sinv_def)
  from survives_length [OF this s(2)] show ?thesis
    using s p recovered_survives [OF s(2) preach_tracked [OF r un]] by auto
qed

text \<open>
  C1: restarting loses nothing. However the process ended, as long as its log had not failed,
  the file is still there, and reading it works, the next process starts, finds every queue
  with its configuration, and in it every message the queue had, each with its body,
  priority and place in the order, dead letters as dead letters; what was in flight is
  delivered again, and new messages are numbered above all old ones.
\<close>

theorem restart_loses_nothing:
  assumes "preach fl d (ph, m, W)" and "w_failed (m_wal m) = None" and "unrepeated W" and "clean_tail (m_wal m) W"
    and "left_behind m W W1" and "rnd_i W1 = rnd_i W" and "calm 6 W1"
  shows "\<exists>W' u. start fl W1 = (W', Inr u) \<and> survives (m_queues m) (m_queues (u_mgr u)) \<and> u_queues u = length (m_queues m)"
  using restart [OF assms] by blast

theorem restart_loses_nothing_witness:
  "\<exists>W' u. start default_flags ((ex_at ex_codec 9 1 7 (frame [1] @ frame [2]) (frame [1] @ frame [2]))\<lparr>opened := (\<lambda>_. False)\<rparr>) = (W', Inr u) \<and>
     survives [(''jobs'', ex_q1)] (m_queues (u_mgr u)) \<and> u_queues u = 1"
  using restart_loses_nothing [OF ex_running _ _ _ ex_left_behind [where o' = "\<lambda>_. False"]] ex_healthy
  by (simp add: ex_manager_def calm_def)

section \<open>Stopping\<close>

lemma m_Close_rnd:
  assumes "m_Close m W = (m', W', r)" shows "rnd_i W' = rnd_i W"
proof -
  have "rnd_i (close_all is V) = rnd_i V" for "is" V
    by (induction "is" arbitrary: V) (simp_all add: os_Close_def draw_def split: io.split)
  then show ?thesis using assms
    by (auto simp: m_Close_def wal_Close_def os_Sync_def os_Close_def draw_def Let_def
        split: if_splits prod.splits io.splits sum.splits)
qed

lemma m_Close_synced:
  assumes "m_Close m W = (m', W', Inr u)" and "\<not> m_closed m" and "\<not> w_closed (m_wal m)"
  shows "stable W' (w_f (m_wal m)) = files W' (w_f (m_wal m))"
  using assms
  by (auto simp: m_Close_def wal_Close_def os_Sync_def os_Close_def draw_def Let_def
      split: if_splits prod.splits io.splits sum.splits)

text \<open>
  C11: a clean stop makes everything durable. When the process exits with status 0, with or
  without group commit, the whole log has reached the disk: even if the machine then loses
  everything that was never forced to disk, the next start brings back every queue and
  every message.
\<close>

theorem clean_stop_is_durable:
  assumes "preach fl d (Draining, m, W)" and "w_failed (m_wal m) = None" and "unrepeated W" and "clean_tail (m_wal m) W"
    and "shutdown m W = (m', W', Exited 0)" and "calm 6 (W'\<lparr>files := stable W', opened := handles\<rparr>)"
  shows "\<exists>W'' u. start fl (W'\<lparr>files := stable W', opened := handles\<rparr>) = (W'', Inr u) \<and>
    survives (m_queues m) (m_queues (u_mgr u)) \<and> u_queues u = length (m_queues m)"
proof -
  let ?W = "W'\<lparr>files := stable W', opened := handles\<rparr>"
  obtain u where c: "m_Close m W = (m', W', Inr u)"
    using assms(5) by (auto simp: shutdown_def split: prod.splits sum.splits)
  have "\<not> m_closed m" "\<not> w_closed (m_wal m)"
    using preach_pinv [OF assms(1)] by (simp_all add: pinv_serving serving_def)
  note sy = m_Close_synced [OF c this]
  have "left_behind m W ?W" "rnd_i ?W = rnd_i W"
    using m_Close_disk [OF c] sy m_Close_rnd [OF c] by (simp_all add: left_behind_def same_env_def)
  from restart [OF assms(1-4) this assms(6)] show ?thesis by blast
qed

theorem clean_stop_is_durable_witness:
  "\<exists>m' W' W'' u. shutdown (ex_manager [(''jobs'', ex_q1)] (frame [1] @ frame [2]))
       (ex_at ex_codec 9 1 7 (frame [1] @ frame [2]) (frame [1] @ frame [2])) = (m', W', Exited 0) \<and>
     start default_flags (W'\<lparr>files := stable W', opened := (\<lambda>_. False)\<rparr>) = (W'', Inr u) \<and> u_queues u = 1"
proof -
  let ?bs = "frame [1] @ frame [2]" and ?m = "ex_manager [(''jobs'', ex_q1)] (frame [1] @ frame [2])"
  let ?W = "ex_at ex_codec 9 1 7 ?bs ?bs"
  obtain m' W' where s: "shutdown ?m ?W = (m', W', Exited 0)"
    by (simp add: shutdown_def m_Close_def wal_Close_def ex_manager_def ex_log_def ex_at_def os_Sync_def os_Close_def draw_def)
  have p: "preach default_flags ex_dec (Draining, ?m, ?W)" by (rule preach.step [OF ex_running pstep.signalled])
  obtain r where "m_Close ?m ?W = (m', W', r)" using s by (auto simp: shutdown_def split: prod.splits sum.splits)
  then have "same_env ?W W'" using m_Close_disk by blast
  then have "ios W' = (\<lambda>_. IOok)" by (simp add: same_env_def ex_at_def)
  then have "calm 6 (W'\<lparr>files := stable W', opened := (\<lambda>_. False)\<rparr>)" by (simp add: calm_def)
  moreover have "w_failed (m_wal ?m) = None" "unrepeated ?W" "clean_tail (m_wal ?m) ?W" "length (m_queues ?m) = 1"
    using ex_healthy by (simp_all add: ex_manager_def)
  ultimately have "\<exists>W'' u. start default_flags (W'\<lparr>files := stable W', opened := (\<lambda>_. False)\<rparr>) = (W'', Inr u) \<and> u_queues u = 1"
    using clean_stop_is_durable [OF p _ _ _ s, of "\<lambda>_. False"] by auto
  then show ?thesis using s by blast
qed

section \<open>Compaction\<close>

text \<open>
  The messages of a queue as they are without their leases, the live ones and the dead ones.
\<close>

definition undelivered :: "aqueue \<Rightarrow> (msg \<times> bool) multiset" where
  "undelivered A = image_mset (\<lambda>m. (strip (released m), False)) (a_ready A + a_delayed A + a_inflight A) +
     image_mset (\<lambda>m. (strip (released m), True)) (mset (a_dlq A))"

lemma released_released [simp]: "released (released m) = released m" "released (strip m) = strip (released m)"
  by (simp_all add: released_def strip_def)

lemma undelivered_contents: "undelivered (abs q) = image_mset (\<lambda>(m, b). (strip (released m), b)) (mset (contents q))"
  by (simp add: undelivered_def contents_def abs_def multiset.map_comp comp_def)

lemma undelivered_fold_gate:
  "undelivered (fold (\<lambda>m. gate now (strip (released m))) ms A) =
     image_mset (\<lambda>m. (strip (released m), False)) (mset ms) + undelivered A"
  by (induction ms arbitrary: A) (simp_all add: undelivered_def gate_def)

lemma undelivered_restored:
  "undelivered (restored now s) =
     image_mset (\<lambda>x. (strip (released (snd x)), fst x \<in> set (dlq_ids s))) (mset (live s))"
proof -
  let ?E = "\<lparr>a_ready = {#}, a_delayed = {#}, a_inflight = {#}, a_dlq = []\<rparr>"
  have "undelivered (A\<lparr>a_dlq := ds\<rparr>) = undelivered A + image_mset (\<lambda>m. (strip (released m), True)) (mset ds)"
    if "a_dlq A = []" for A ds using that by (simp add: undelivered_def)
  then have "undelivered (restored now s) = undelivered (fold (\<lambda>m. gate now (strip (released m))) (staged_live s) ?E) +
      image_mset (\<lambda>m. (strip (released m), True)) (mset (map (strip \<circ> released) (staged_dead s)))"
    by (simp add: restored_def fold_gate_frame)
  also have "\<dots> = image_mset (\<lambda>m. (strip (released m), False)) (mset (staged_live s)) +
      image_mset (\<lambda>m. (strip (released m), True)) (mset (staged_dead s))"
    by (simp add: undelivered_fold_gate multiset.map_comp comp_def) (simp add: undelivered_def)
  also have "\<dots> = image_mset (\<lambda>x. (strip (released (snd x)), fst x \<in> set (dlq_ids s))) (mset (live s))"
    unfolding staged_mset multiset.map_comp comp_def by (rule image_split)
  finally show ?thesis .
qed

lemma undelivered_snapshot:
  assumes "snapshot xs k s" and "distinct (map (ID \<circ> fst) xs)"
  shows "undelivered (restored now s) = image_mset (\<lambda>(m, b). (strip (released m), b)) (mset xs)"
proof -
  have "mset (live s) = image_mset (\<lambda>(m, b). (ID m, strip (released m))) (mset xs)"
    using assms(1) by (simp add: snapshot_def)
  then show ?thesis using snapshot_dead [OF assms]
    by (auto simp: undelivered_restored multiset.map_comp comp_def split_def intro!: image_mset_cong)
qed

lemma foldl_max_le: "(\<And>x. x \<in> set xs \<Longrightarrow> x \<le> k) \<Longrightarrow> foldl max k xs = (k :: u64)"
  by (induction xs) (simp_all add: max_absorb1)

definition same_contents :: "(string \<times> queue) list \<Rightarrow> (string \<times> queue) list \<Rightarrow> bool" where
  "same_contents qs qs' \<longleftrightarrow>
     (\<forall>name. case map_of qs name of
        None \<Rightarrow> map_of qs' name = None
      | Some q \<Rightarrow> \<exists>q'. map_of qs' name = Some q' \<and> q_cfg q' = q_cfg q \<and> undelivered (abs q') = undelivered (abs q) \<and>
          a_inflight (abs q') = {#} \<and> ((\<forall>m \<in># allm (abs q). Seq m \<le> q_seq q) \<longrightarrow> q_seq q' = q_seq q))"

lemma recovered_snapshot:
  assumes q: "queues_ok qs" and Q: "mset Q = mset (map snd qs)" and t: "tracked qs W H"
    and r: "recovered_from qs (norm (epoch_record ep) # map norm (concat (map liveRecordsLocked Q))) qs'"
  shows "same_contents qs qs'"
  unfolding same_contents_def
proof
  fix name
  let ?H = "norm (epoch_record ep) # map norm (concat (map liveRecordsLocked Q))"
  show "case map_of qs name of
      None \<Rightarrow> map_of qs' name = None
    | Some q \<Rightarrow> \<exists>q'. map_of qs' name = Some q' \<and> q_cfg q' = q_cfg q \<and> undelivered (abs q') = undelivered (abs q) \<and>
        a_inflight (abs q') = {#} \<and> ((\<forall>m \<in># allm (abs q). Seq m \<le> q_seq q) \<longrightarrow> q_seq q' = q_seq q)"
  proof (cases "map_of qs name")
    case None
    then show ?thesis using recovered_from_none [OF r] by simp
  next
    case (Some x)
    from recovered_fromD [OF r Some] obtain q' now where q': "map_of qs' name = Some q'" "q_cfg q' = q_cfg x"
      "q_seq q' = maxSeq (stage name ?H)" "abs q' = restored now (stage name ?H)" by blast
    have d: "distinct (map (ID \<circ> fst) (contents x))" using trackedD(3) [OF t Some] backs_distinct by blast
    have st: "stage name ?H = fold stage_record (map norm (liveRecordsLocked x)) new_staging"
      using snapshot_stage(2) [OF q Q, of name ep] Some by simp
    have sn: "snapshot (contents x) (q_seq x) (stage name ?H)" using snapshot_queue [OF d] by (simp add: st)
    have u: "undelivered (abs q') = undelivered (abs x)"
      unfolding q'(4) undelivered_contents by (rule undelivered_snapshot [OF sn d])
    have "allm (abs x) = image_mset fst (mset (contents x))"
      by (simp add: allm_def abs_def contents_def multiset.map_comp comp_def)
    then have "Seq (fst y) \<le> q_seq x" if "\<forall>m \<in># allm (abs x). Seq m \<le> q_seq x" "y \<in> set (contents x)" for y
      using that by auto
    then have "q_seq q' = q_seq x" if "\<forall>m \<in># allm (abs x). Seq m \<le> q_seq x"
      unfolding q'(3) using sn that by (auto simp: snapshot_def intro!: foldl_max_le)
    then show ?thesis using Some q' u by auto
  qed
qed

text \<open>
  C3: compaction is exact. When a compaction has succeeded, a start from the compacted log
  holds the same queues with the same configuration and the same messages as before it, every
  message with its attempts and delay, dead letters dead, live messages live, nothing in
  flight, and the numbering of each queue goes on where it was.
\<close>

theorem compaction_is_exact:
  assumes "preach fl d (ph, m, W)" and "serving ph" and "m_Compact m W = (m', W', Inr u)" and "unrepeated W'"
    and "left_behind m' W' W1" and "rnd_i W1 = rnd_i W'" and "calm 6 W1"
  shows "\<exists>W'' v. start fl W1 = (W'', Inr v) \<and> same_contents (m_queues m) (m_queues (u_mgr v))"
proof -
  let ?Q = "sort_key (\<lambda>q. Name (q_cfg q)) (map snd (m_queues m))"
  note inv = preach_sinv [OF assms(1,2)]
  obtain w1 where c: "wal_Compact (m_wal m) W (concat (map liveRecordsLocked ?Q)) = (w1, W', Inr u)" "m' = m\<lparr>m_wal := w1\<rparr>"
    using assms(3) by (auto simp: m_Compact_def Let_def split: prod.splits)
  have "compacted (m_wal m) W (concat (map liveRecordsLocked ?Q)) w1 W'"
    using wal_Compact_ok [OF _ _ c(1)] inv by (simp add: sinv_def)
  then have k: "w_failed w1 = None" "same_env W W'" "files W' (w_f w1) = logbytes w1 W'"
    "history w1 W' = norm (epoch_record (w_epoch (m_wal m) + 1)) # map norm (concat (map liveRecordsLocked ?Q))"
    by (simp_all add: compacted_def)
  have "clean_tail w1 W'" using k(3) by (simp add: clean_tail_def) (metis logbytes_def append_Nil2 append_take_drop_id parse_Nil fst_conv same_append_eq)
  moreover have "pinv fl (ph, m', W')"
    using m_Compact_sinv [OF inv assms(3)] preach_pinv [OF assms(1)] assms(2) c(2)
    by (simp add: pinv_serving onward_def same_log_def)
  ultimately obtain W'' v where s: "start fl W1 = (W'', Inr v)"
    "recovered_from (m_queues m') (history (m_wal m') W') (m_queues (u_mgr v))"
    using start_again [OF _ _ assms(4) _ assms(5-7)] k(1) c(2) by fastforce
  have nf: "w_failed (m_wal m) = None" using c(1) by (auto simp: wal_Compact_def split: option.splits)
  have t: "tracked (m_queues m) W (history (m_wal m) W)" "queues_ok (m_queues m)"
    using inv nf unrepeated_env [OF k(2) assms(4)] by (simp_all add: sinv_def)
  have "same_contents (m_queues m) (m_queues (u_mgr v))"
    by (rule recovered_snapshot [OF t(2) _ t(1)]) (use s(2) c(2) k(4) in simp_all)
  then show ?thesis using s(1) by blast
qed

theorem compaction_is_exact_witness:
  "\<exists>m' W' W'' v. m_Compact (ex_manager [(''jobs'', ex_q3)] ex_bytes) (ex_at ex_codec 14 2 10 ex_bytes ex_bytes) = (m', W', Inr ()) \<and>
     start default_flags (W'\<lparr>opened := (\<lambda>_. False)\<rparr>) = (W'', Inr v) \<and> same_contents [(''jobs'', ex_q3)] (m_queues (u_mgr v))"
proof -
  let ?W = "ex_at ex_codec 14 2 10 ex_bytes ex_bytes"
  obtain m' W' where c: "m_Compact (ex_manager [(''jobs'', ex_q3)] ex_bytes) ?W = (m', W', Inr ())"
    "rnds W' = rnds ?W" "rnd_i W' = 2" "ios W' = (\<lambda>_. IOok)" using ses_compact by blast
  have "unrepeated ?W" "rnd_i ?W = 2" using ex_healthy by (simp_all add: ex_at_def)
  then have "unrepeated W'" using c(2,3) by (simp add: unrepeated_def minted_def [abs_def])
  moreover have "calm 6 (W'\<lparr>opened := (\<lambda>_. False)\<rparr>)" using c(4) by (simp add: calm_def)
  ultimately have "\<exists>W'' v. start default_flags (W'\<lparr>opened := (\<lambda>_. False)\<rparr>) = (W'', Inr v) \<and>
      same_contents (m_queues (ex_manager [(''jobs'', ex_q3)] ex_bytes)) (m_queues (u_mgr v))"
    using compaction_is_exact [OF ex_settled _ c(1) _ ex_left_behind [where o' = "\<lambda>_. False"]] by simp
  then show ?thesis using c(1) by (auto simp: ex_manager_def)
qed

section \<open>Acknowledged messages\<close>

text \<open>Whether a record puts a message with this identifier into this queue.\<close>

definition enqueues :: "string \<Rightarrow> string \<Rightarrow> wal_record \<Rightarrow> bool" where
  "enqueues name i r \<longleftrightarrow> rOp r = OpEnqueue \<and> rQueue r = name \<and> (\<exists>x. rMsg r = Some x \<and> ID x = i)"

lemma stage_absent:
  "i \<notin> fst ` set (live s) \<Longrightarrow> \<not> enqueues name i r \<Longrightarrow> rQueue r = name \<Longrightarrow> i \<notin> fst ` set (live (stage_record r s))"
proof -
  have k: "fst ` set (AList.map_entry j f al) = fst ` set al" "fst ` set (AList.update j v al) = insert j (fst ` set al)"
    "fst ` set (AList.delete j al) = fst ` set al - {j}" for j f v and al :: "(string \<times> msg) list"
    by (induction al) (auto simp: dom_update AList.delete_eq)
  then show "i \<notin> fst ` set (live s) \<Longrightarrow> \<not> enqueues name i r \<Longrightarrow> rQueue r = name \<Longrightarrow> i \<notin> fst ` set (live (stage_record r s))"
    by (auto simp: stage_record_def enqueues_def amend_def bump_def split: Op.splits option.splits)
qed

lemma stage_acked:
  assumes "\<forall>r \<in> set H2. \<not> enqueues name i r"
  shows "i \<notin> fst ` set (live (stage name (H1 @ norm (id_rec OpAck name i) # H2)))"
proof -
  have "i \<notin> fst ` set (live (fold stage_record (filter (\<lambda>r. rQueue r = name) H2) s))" if "i \<notin> fst ` set (live s)" for s
    using assms that
  proof (induction H2 arbitrary: s)
    case (Cons r H2)
    then show ?case using stage_absent [of i s name r] by simp
  qed simp
  moreover have "i \<notin> fst ` set (live (stage_record (norm (id_rec OpAck name i)) s))" for s
    by (auto simp: stage_record_def id_rec_def AList.delete_eq)
  ultimately show ?thesis by (simp add: stage_def)
qed

lemma restored_ids:
  assumes "stage_inv s" and "x \<in># allm (restored now s)"
  shows "ID x \<in> fst ` set (live s)"
proof -
  have "core x \<in># cores (restored now s)" using assms(2) by (simp add: cores_def)
  then obtain y where y: "y \<in> set (live s)" "core x = core (snd y)"
    by (auto simp: qview_cores [symmetric] qview_restored)
  then have "map_of (live s) (fst y) = Some (snd y)" using assms(1) by (simp add: stage_inv_def map_of_is_SomeI)
  then have "ID (snd y) = fst y" using assms(1) unfolding stage_inv_def by blast
  then show ?thesis using y by (auto simp: core_def)
qed

text \<open>
  C7: an acknowledged message stays gone. Once the acknowledgement of a message is on record
  and no later record enqueues a message with its identifier, no restart brings it back, in no
  part of its queue.
\<close>

theorem acked_stays_gone:
  assumes "preach fl d (ph, m, W)" and "w_failed (m_wal m) = None" and "unrepeated W" and "clean_tail (m_wal m) W"
    and "left_behind m W W1" and "rnd_i W1 = rnd_i W" and "calm 6 W1"
    and "history (m_wal m) W = H1 @ norm (id_rec OpAck name i) # H2" and "\<forall>r \<in> set H2. \<not> enqueues name i r"
  shows "\<exists>W' u. start fl W1 = (W', Inr u) \<and>
    (\<forall>q x. Get (u_mgr u) name = Inr q \<longrightarrow> x \<in># allm (abs q) \<longrightarrow> ID x \<noteq> i)"
proof -
  obtain W' u where s: "start fl W1 = (W', Inr u)" "recovered_from (m_queues m) (history (m_wal m) W) (m_queues (u_mgr u))"
    using restart [OF assms(1-7)] by blast
  have "ID x \<noteq> i" if g: "Get (u_mgr u) name = Inr q" and x: "x \<in># allm (abs q)" for q x
  proof -
    have "map_of (m_queues (u_mgr u)) name = Some q" using g by (simp add: Get_def split: option.splits)
    from recovered_from_inv [OF s(2) this] obtain now where "abs q = restored now (stage name (history (m_wal m) W))" by blast
    then show ?thesis using restored_ids [OF stage_inv_stage] stage_acked [OF assms(9)] x assms(8) by metis
  qed
  then show ?thesis using s(1) by blast
qed

theorem acked_stays_gone_witness:
  "\<exists>W' u. start default_flags ((ex_at ex_codec 14 2 10 ex_bytes ex_bytes)\<lparr>opened := (\<lambda>_. False)\<rparr>) = (W', Inr u) \<and>
     \<not> (\<exists>q x. Get (u_mgr u) ''jobs'' = Inr q \<and> x \<in># allm (abs q) \<and> ID x = ex_id 0)"
proof -
  let ?W = "ex_at ex_codec 14 2 10 ex_bytes ex_bytes" and ?m = "ex_manager [(''jobs'', ex_q3)] ex_bytes"
  have "w_failed (m_wal ?m) = None" "unrepeated ?W" "clean_tail (m_wal ?m) ?W" "calm 6 (?W\<lparr>opened := (\<lambda>_. False)\<rparr>)"
    using ex_healthy by (simp_all add: calm_def)
  then show ?thesis
    using acked_stays_gone [OF ex_settled _ _ _ ex_left_behind [where o' = "\<lambda>_. False"], of _ "''jobs''" "ex_id 0" "[]"] ex_history ex_healthy(5)
    by fastforce
qed

section \<open>Reading fails\<close>


end
