(* ===== verification/FQ_Demo.thy ===== *)
theory FQ_Demo
  imports FQ_Prelude "HOL-Library.AList"
begin

text \<open>
  The demo client of \<^verbatim>\<open>src/cmd/demo/main.go\<close>: a tour of the queue over its public API. Its
  output is kept line by line as the formats and arguments given to \<^verbatim>\<open>fmt\<close> (a line break is the end
  of a line), its requests as a list of calls with their answers, in the order they were answered.

  What the client reaches through \<^verbatim>\<open>net/http\<close>, \<^verbatim>\<open>time\<close> and \<^verbatim>\<open>encoding/json\<close> is the record \<open>net\<close>, a
  parameter over the state \<open>'e\<close> of everything outside the client. \<^verbatim>\<open>os.Exit\<close> and a panic end the
  program; \<open>Running\<close> is a program whose goroutines have not all returned when the given
  interleaving of them ends.
\<close>

section \<open>The world of a client\<close>

datatype answer = NetErr string | Reply nat "byte list"

datatype jval = JStr string | JInt int | JBool bool

record msg_demo =
  g_ID :: string
  g_Body :: string
  g_Priority :: int
  g_Seq :: u64
  g_Attempts :: int
  g_Receipt :: string

record queueStats_demo =
  g_Ready :: int
  g_Delayed :: int
  g_Inflight :: int
  g_DLQ :: int

record mark_demo =
  g_Epoch :: u64
  g_Offset :: int

text \<open>
  The decoders yield what the destination holds afterwards; their errors are ignored by the client.
\<close>

record 'e net =
  http_Get :: "string \<Rightarrow> 'e \<Rightarrow> answer \<times> 'e"
  http_Post :: "string \<Rightarrow> string \<Rightarrow> byte list \<Rightarrow> 'e \<Rightarrow> answer \<times> 'e"
  time_Sleep :: "duration \<Rightarrow> 'e \<Rightarrow> 'e"
  clock :: "'e \<Rightarrow> gotime \<times> 'e"
  json_Marshal :: "(string \<times> jval) list \<Rightarrow> byte list"
  json_messages :: "byte list \<Rightarrow> msg_demo list"
  json_stats :: "byte list \<Rightarrow> queueStats_demo"
  json_mark :: "byte list \<Rightarrow> mark_demo"

datatype arg = AStr string | AInt int | ADuration duration

datatype line = Stdout string "arg list" | Stderr string "arg list"

datatype call = Call string string "byte list" answer

record 'e client =
  k_env :: 'e
  k_out :: "line list"
  k_calls :: "call list"

section \<open>Sequencing\<close>

datatype 'a ran = Went 'a | Ended int | Crashed | Running

type_synonym ('e, 'a) act = "'e client \<Rightarrow> 'a ran \<times> 'e client"

definition give :: "'a \<Rightarrow> ('e, 'a) act" where
  "give x s = (Went x, s)"

definition andThen :: "('e, 'a) act \<Rightarrow> ('a \<Rightarrow> ('e, 'b) act) \<Rightarrow> ('e, 'b) act" where
  "andThen p f s =
     (case p s of
        (Went x, s1) \<Rightarrow> f x s1
      | (Ended n, s1) \<Rightarrow> (Ended n, s1)
      | (Crashed, s1) \<Rightarrow> (Crashed, s1)
      | (Running, s1) \<Rightarrow> (Running, s1))"

primrec block :: "('e, unit) act list \<Rightarrow> ('e, unit) act" where
  "block [] = give ()"
| "block (p # ps) = andThen p (\<lambda>_. block ps)"

definition os_Exit :: "int \<Rightarrow> ('e, 'a) act" where
  "os_Exit n s = (Ended n, s)"

definition put_line :: "line \<Rightarrow> ('e, unit) act" where
  "put_line l s = (Went (), s\<lparr>k_out := k_out s @ [l]\<rparr>)"

definition say :: "string \<Rightarrow> ('e, unit) act" where
  "say text = put_line (Stdout text [])"

definition printf :: "string \<Rightarrow> arg list \<Rightarrow> ('e, unit) act" where
  "printf fmt xs = put_line (Stdout fmt xs)"

definition eprintf :: "string \<Rightarrow> arg list \<Rightarrow> ('e, unit) act" where
  "eprintf fmt xs = put_line (Stderr fmt xs)"

definition sleep :: "'e net \<Rightarrow> duration \<Rightarrow> ('e, unit) act" where
  "sleep N d s = (Went (), s\<lparr>k_env := time_Sleep N d (k_env s)\<rparr>)"

definition now :: "'e net \<Rightarrow> ('e, gotime) act" where
  "now N s = (case clock N (k_env s) of (t, e) \<Rightarrow> (Went t, s\<lparr>k_env := e\<rparr>))"

text \<open>Indexing a slice at 0 panics when it is empty.\<close>

definition first :: "'a list \<Rightarrow> ('e, 'a) act" where
  "first xs s = (case xs of [] \<Rightarrow> (Crashed, s) | x # _ \<Rightarrow> (Went x, s))"

text \<open>\<^verbatim>\<open>%d\<close>, and Go's remainder, whose sign is that of the dividend.\<close>

fun digits :: "nat \<Rightarrow> string" where
  "digits n = (if n < 10 then [''0123456789'' ! n] else digits (n div 10) @ [''0123456789'' ! (n mod 10)])"

definition decimal :: "int \<Rightarrow> string" where
  "decimal i = (if i < 0 then ''-'' @ digits (nat (- i)) else digits (nat i))"

definition rem_go :: "int \<Rightarrow> int \<Rightarrow> int" where
  "rem_go a b = sgn a * (\<bar>a\<bar> mod \<bar>b\<bar>)"

text \<open>\<^verbatim>\<open>Duration.Round\<close>: the nearest multiple, halfway cases away from zero, for durations far from overflow.\<close>

definition Round :: "duration \<Rightarrow> duration \<Rightarrow> duration" where
  "Round d m =
     (let r = rem_go d m
      in if d < 0 then (if 2 * \<bar>r\<bar> < m then d - r else d - r - m)
         else (if 2 * r < m then d - r else d - r + m))"

section \<open>The HTTP client\<close>

definition record_call :: "string \<Rightarrow> string \<Rightarrow> byte list \<Rightarrow> answer \<times> 'e \<Rightarrow> 'e client \<Rightarrow> 'e client" where
  "record_call meth path buf r s = s\<lparr>k_env := snd r, k_calls := k_calls s @ [Call meth path buf (fst r)]\<rparr>"

primrec tries :: "'e net \<Rightarrow> string \<Rightarrow> nat \<Rightarrow> string option \<Rightarrow> 'e client \<Rightarrow> string option \<times> 'e client" where
  "tries N base 0 prev s = (prev, s)"
| "tries N base (Suc n) prev s =
     (let r = http_Get N (base @ ''/healthz'') (k_env s);
          s1 = record_call ''GET'' ''/healthz'' [] r s
      in case fst r of
           Reply _ _ \<Rightarrow> (None, s1)
         | NetErr err \<Rightarrow> tries N base n (Some err) (snd (sleep N (100 * Millisecond) s1)))"

definition waitForServer :: "'e net \<Rightarrow> string \<Rightarrow> 'e client \<Rightarrow> string option \<times> 'e client" where
  "waitForServer N base s = tries N base 40 None s"

definition post :: "'e net \<Rightarrow> string \<Rightarrow> string \<Rightarrow> (string \<times> jval) list \<Rightarrow> ('e, byte list) act" where
  "post N base path body s =
     (let buf = json_Marshal N body;
          r = http_Post N (base @ path) ''application/json'' buf (k_env s);
          s1 = record_call ''POST'' path buf r s
      in case fst r of
           NetErr err \<Rightarrow> andThen (eprintf ''POST %s: %v'' [AStr path, AStr err]) (\<lambda>_. os_Exit 1) s1
         | Reply status out \<Rightarrow>
             if status \<ge> 400
             then andThen (eprintf ''POST %s -> %d %s'' [AStr path, AInt (int status), AStr (map (\<lambda>b. char_of (unat b)) out)])
                    (\<lambda>_. os_Exit 1) s1
             else (Went out, s1))"

definition getInto :: "'e net \<Rightarrow> string \<Rightarrow> string \<Rightarrow> (byte list \<Rightarrow> 'a) \<Rightarrow> ('e, 'a) act" where
  "getInto N base path dec s =
     (let r = http_Get N (base @ path) (k_env s);
          s1 = record_call ''GET'' path [] r s
      in case fst r of
           NetErr err \<Rightarrow> andThen (eprintf ''GET %s: %v'' [AStr path, AStr err]) (\<lambda>_. os_Exit 1) s1
         | Reply _ out \<Rightarrow> (Went (dec out), s1))"

definition call_post :: "'e net \<Rightarrow> string \<Rightarrow> string \<Rightarrow> (string \<times> jval) list \<Rightarrow> ('e, unit) act" where
  "call_post N base path body = andThen (post N base path body) (\<lambda>_. give ())"

definition enqueue_demo :: "'e net \<Rightarrow> string \<Rightarrow> string \<Rightarrow> string \<Rightarrow> int \<Rightarrow> int \<Rightarrow> ('e, unit) act" where
  "enqueue_demo N base q body priority delayMS =
     call_post N base (''/queues/'' @ q @ ''/messages'')
       [(''body'', JStr body), (''priority'', JInt priority), (''delay_ms'', JInt delayMS)]"

definition receive_demo :: "'e net \<Rightarrow> string \<Rightarrow> string \<Rightarrow> int \<Rightarrow> int \<Rightarrow> int \<Rightarrow> ('e, msg_demo list) act" where
  "receive_demo N base q maxn visibilityMS waitMS =
     andThen (post N base (''/queues/'' @ q @ ''/receive'')
         [(''max'', JInt maxn), (''visibility_ms'', JInt visibilityMS), (''wait_ms'', JInt waitMS)])
       (\<lambda>out. give (json_messages N out))"

definition ack_demo :: "'e net \<Rightarrow> string \<Rightarrow> string \<Rightarrow> string \<Rightarrow> ('e, unit) act" where
  "ack_demo N base q receipt = call_post N base (''/queues/'' @ q @ ''/ack'') [(''receipt'', JStr receipt)]"

definition nack_demo :: "'e net \<Rightarrow> string \<Rightarrow> string \<Rightarrow> string \<Rightarrow> int \<Rightarrow> ('e, unit) act" where
  "nack_demo N base q receipt delayMS =
     call_post N base (''/queues/'' @ q @ ''/nack'') [(''receipt'', JStr receipt), (''delay_ms'', JInt delayMS)]"

definition stats_demo :: "'e net \<Rightarrow> string \<Rightarrow> string \<Rightarrow> ('e, queueStats_demo) act" where
  "stats_demo N base q = getInto N base (''/queues/'' @ q) (json_stats N)"

definition show_line :: "int \<Rightarrow> msg_demo \<Rightarrow> ('e, unit) act" where
  "show_line i m = printf ''      %d. %-42s priority=%d seq=%d''
     [AInt (i + 1), AStr (g_Body m), AInt (g_Priority m), AInt (uint (g_Seq m))]"

definition show_demo :: "msg_demo list \<Rightarrow> ('e, unit) act" where
  "show_demo msgs =
     (if msgs = [] then say ''      (nothing available)''
      else block (map (\<lambda>(i, m). show_line (int i) m) (enumerate 0 msgs)))"

definition consume :: "'e net \<Rightarrow> string \<Rightarrow> string \<Rightarrow> int \<Rightarrow> ('e, unit) act" where
  "consume N base q maxn =
     andThen (receive_demo N base q maxn 5000 0) (\<lambda>msgs.
       block (show_demo msgs # map (\<lambda>m. ack_demo N base q (g_Receipt m)) msgs))"

definition section_demo :: "string \<Rightarrow> ('e, unit) act" where
  "section_demo title =
     block [say '''', printf ''%s'' [AStr title], printf ''%s'' [AStr (replicate (length title) (CHR ''=''))]]"

section \<open>The tour\<close>

definition extend_demo :: "'e net \<Rightarrow> string \<Rightarrow> string \<Rightarrow> string \<Rightarrow> int \<Rightarrow> ('e, unit) act" where
  "extend_demo N base q receipt visibilityMS =
     call_post N base (''/queues/'' @ q @ ''/extend'') [(''receipt'', JStr receipt), (''visibility_ms'', JInt visibilityMS)]"

definition section1 :: "'e net \<Rightarrow> string \<Rightarrow> string \<Rightarrow> ('e, unit) act" where
  "section1 N base name = block [
     section_demo ''1. Create a delayed priority LIFO queue'',
     say ''   The brief asks for combinations like \"priority FIFO\" or \"delayed priority'',
     say ''   LIFO\". Those are not separate queue types here. A queue picks a tiebreak'',
     say ''   mode and whether priority is live; delay is per message.'',
     call_post N base ''/queues''
       [(''name'', JStr name), (''mode'', JStr ''lifo''), (''priority'', JBool True),
        (''max_attempts'', JInt 3), (''visibility_timeout_ms'', JInt 1000)],
     printf ''   created %q: mode=lifo priority=on max_attempts=3'' [AStr name]]"

definition section2 :: "'e net \<Rightarrow> string \<Rightarrow> string \<Rightarrow> ('e, unit) act" where
  "section2 N base name = block [
     section_demo ''2. Priority outranks arrival order, LIFO breaks the ties'',
     enqueue_demo N base name ''checkout-A (normal)'' 1 0,
     enqueue_demo N base name ''checkout-B (normal)'' 1 0,
     enqueue_demo N base name ''fraud-review (urgent)'' 9 0,
     enqueue_demo N base name ''checkout-C (normal)'' 1 0,
     say ''   enqueued in that order. Expected delivery: the urgent one first, then'',
     say ''   the normal ones newest to oldest, because this queue is LIFO.'',
     consume N base name 10]"

definition section3 :: "'e net \<Rightarrow> string \<Rightarrow> string \<Rightarrow> ('e, unit) act" where
  "section3 N base name = block [
     section_demo ''3. Delay is a separate axis, so a high priority message still waits'',
     enqueue_demo N base name ''reminder-email (urgent, delayed 1.5s)'' 9 1500,
     enqueue_demo N base name ''ship-order (normal, immediate)'' 1 0,
     say ''   immediately after enqueue:'',
     consume N base name 10,
     say ''   after waiting out the delay:'',
     sleep N (1700 * Millisecond),
     consume N base name 10]"

definition heartbeat :: "'e net \<Rightarrow> string \<Rightarrow> string \<Rightarrow> msg_demo list \<Rightarrow> int \<Rightarrow> ('e, unit) act" where
  "heartbeat N base name slow i = block [
     sleep N (400 * Millisecond),
     andThen (first slow) (\<lambda>m. extend_demo N base name (g_Receipt m) 600),
     printf ''   heartbeat %d sent'' [AInt i]]"

definition section4 :: "'e net \<Rightarrow> string \<Rightarrow> string \<Rightarrow> ('e, unit) act" where
  "section4 N base name = block [
     section_demo ''4. A consumer that dies mid work does not lose the message'',
     enqueue_demo N base name ''charge-card'' 1 0,
     andThen (receive_demo N base name 1 800 0) (\<lambda>got.
       andThen (first got) (\<lambda>m.
         printf ''   worker leased %q and then crashed without acking'' [AStr (g_Body m)])),
     say ''   (the lease is 800ms, so nothing happens for 800ms...)'',
     andThen (receive_demo N base name 1 800 0) (\<lambda>empty.
       if empty = [] then say ''   while the lease is live, no other worker can take it: confirmed'' else give ()),
     sleep N (1100 * Millisecond),
     andThen (receive_demo N base name 1 5000 0) (\<lambda>back.
       andThen (first back) (\<lambda>m. block [
         printf ''   redelivered as attempt %d: %q'' [AInt (g_Attempts m), AStr (g_Body m)],
         ack_demo N base name (g_Receipt m)])),
     say ''   acked, so it is now permanently gone'',
     say '''',
     say ''   a worker that is still alive can hold its claim instead of losing it:'',
     enqueue_demo N base name ''slow-report'' 1 0,
     andThen (receive_demo N base name 1 600 0) (\<lambda>slow. block (
       map (heartbeat N base name slow) [1, 2, 3] @ [
         andThen (receive_demo N base name 1 600 0) (\<lambda>empty.
           if empty = [] then say ''   1.2s past the original 600ms lease and nobody else can take it'' else give ()),
         andThen (first slow) (\<lambda>m. ack_demo N base name (g_Receipt m))]))]"

primrec poison :: "'e net \<Rightarrow> string \<Rightarrow> string \<Rightarrow> nat \<Rightarrow> ('e, unit) act" where
  "poison N base name 0 = give ()"
| "poison N base name (Suc n) =
     andThen (receive_demo N base name 1 5000 500) (\<lambda>msgs.
       case msgs of
         [] \<Rightarrow> give ()
       | m # _ \<Rightarrow> block [
           printf ''   attempt %d failed, nacking'' [AInt (g_Attempts m)],
           nack_demo N base name (g_Receipt m) 0,
           poison N base name n])"

definition section5 :: "'e net \<Rightarrow> string \<Rightarrow> string \<Rightarrow> ('e, unit) act" where
  "section5 N base name = block [
     section_demo ''5. A poison message gives up rather than looping forever'',
     enqueue_demo N base name ''malformed-payload'' 1 0,
     poison N base name 3,
     andThen (stats_demo N base name) (\<lambda>t.
       printf ''   max_attempts reached, so it is parked: dlq=%d ready=%d'' [AInt (g_DLQ t), AInt (g_Ready t)]),
     say ''   replaying the dead letter queue puts it back with a clean slate:'',
     call_post N base (''/queues/'' @ name @ ''/replay'') [(''source'', JStr ''dlq'')],
     andThen (stats_demo N base name) (\<lambda>t.
       printf ''   dlq=%d ready=%d'' [AInt (g_DLQ t), AInt (g_Ready t)]),
     andThen (receive_demo N base name 1 5000 500) (\<lambda>msgs.
       case msgs of [] \<Rightarrow> give () | m # _ \<Rightarrow> ack_demo N base name (g_Receipt m))]"

definition section6 :: "'e net \<Rightarrow> string \<Rightarrow> string \<Rightarrow> ('e, unit) act" where
  "section6 N base name = block [
     section_demo ''6. Replaying history straight out of the write ahead log'',
     andThen (getInto N base ''/bookmark'' (json_mark N)) (\<lambda>mark. block [
       printf ''   bookmarking the log at epoch %d byte %d'' [AInt (uint (g_Epoch mark)), AInt (g_Offset mark)],
       enqueue_demo N base name ''audit-event-1'' 1 0,
       enqueue_demo N base name ''audit-event-2'' 1 0,
       andThen (receive_demo N base name 10 5000 0) (\<lambda>msgs.
         block (map (\<lambda>m. ack_demo N base name (g_Receipt m)) msgs)),
       say ''   both consumed and acked, queue is empty'',
       call_post N base (''/queues/'' @ name @ ''/replay'')
         [(''source'', JStr ''log''), (''epoch'', JInt (uint (g_Epoch mark))), (''from_offset'', JInt (g_Offset mark))],
       say ''   replayed from the bookmark, so they are back:'',
       consume N base name 10])]"

section \<open>Six workers\<close>

text \<open>
  A goroutine runs from one of its calls to the next; the order in which the workers take these
  steps is a list of their numbers, and \<^verbatim>\<open>Wait\<close> returns when every worker has returned. A worker's
  own step is one request with its answer, or one update of \<open>seen\<close> under the mutex.
\<close>

definition job :: "nat \<Rightarrow> nat \<Rightarrow> string" where
  "job p i = ''job-'' @ decimal (int p) @ ''-'' @ decimal (int i)"

primrec producers :: "'e net \<Rightarrow> string \<Rightarrow> string \<Rightarrow> nat list \<Rightarrow> nat list \<Rightarrow> ('e, unit) act" where
  "producers N base fast [] done_by = (\<lambda>s. if \<forall>i \<in> set done_by. i = 50 then (Went (), s) else (Running, s))"
| "producers N base fast (p # sched) done_by =
     (if p < length done_by \<and> done_by ! p < 50
      then andThen (enqueue_demo N base fast (job p (done_by ! p)) 0 0)
             (\<lambda>_. producers N base fast sched (done_by[p := Suc (done_by ! p)]))
      else producers N base fast sched done_by)"

datatype worker = Polling | Counting "msg_demo list" | Acking msg_demo "msg_demo list" | Gone

type_synonym seen = "(string \<times> int) list"

definition increment :: "string \<Rightarrow> seen \<Rightarrow> seen" where
  "increment b seen = AList.update b ((case map_of seen b of None \<Rightarrow> 0 | Some n \<Rightarrow> n) + 1) seen"

definition consumer_step :: "'e net \<Rightarrow> string \<Rightarrow> string \<Rightarrow> worker \<Rightarrow> seen \<Rightarrow> ('e, worker \<times> seen) act" where
  "consumer_step N base fast k seen =
     (case k of
        Polling \<Rightarrow> andThen (receive_demo N base fast 10 30000 300)
          (\<lambda>msgs. give (if msgs = [] then Gone else Counting msgs, seen))
      | Counting [] \<Rightarrow> give (Polling, seen)
      | Counting (m # ms) \<Rightarrow> give (Acking m ms, increment (g_Body m) seen)
      | Acking m ms \<Rightarrow> andThen (ack_demo N base fast (g_Receipt m)) (\<lambda>_. give (Counting ms, seen))
      | Gone \<Rightarrow> give (Gone, seen))"

primrec consumers :: "'e net \<Rightarrow> string \<Rightarrow> string \<Rightarrow> nat list \<Rightarrow> worker list \<Rightarrow> seen \<Rightarrow> ('e, seen) act" where
  "consumers N base fast [] ks seen = (\<lambda>s. if \<forall>k \<in> set ks. k = Gone then (Went seen, s) else (Running, s))"
| "consumers N base fast (c # sched) ks seen =
     (if c < length ks
      then andThen (consumer_step N base fast (ks ! c) seen)
             (\<lambda>(k, seen1). consumers N base fast sched (ks[c := k]) seen1)
      else consumers N base fast sched ks seen)"

definition dupes :: "seen \<Rightarrow> nat" where
  "dupes seen = length (filter (\<lambda>(_, n). n > 1) seen)"

definition section7 :: "'e net \<Rightarrow> string \<Rightarrow> nat list \<Rightarrow> nat list \<Rightarrow> ('e, unit) act" where
  "section7 N base psched csched = block [
     section_demo ''7. Concurrency: 6 workers draining 300 messages'',
     andThen (now N) (\<lambda>t. let fast = ''bulk-'' @ decimal (rem_go (UnixNano t) 100000) in block [
       call_post N base ''/queues''
         [(''name'', JStr fast), (''mode'', JStr ''fifo''), (''visibility_timeout_ms'', JInt 30000)],
       andThen (now N) (\<lambda>start. block [
         producers N base fast psched (replicate 6 0),
         andThen (now N) (\<lambda>stop. let produced = stop - start in
           andThen (now N) (\<lambda>start2.
             andThen (consumers N base fast csched (replicate 6 Polling) []) (\<lambda>seen. block [
               printf ''   produced 300 in %v (every one fsynced before its 201)'' [ADuration (Round produced Millisecond)],
               andThen (now N) (\<lambda>stop2.
                 printf ''   consumed %d distinct in %v across 6 workers'' [AInt (int (length seen)), ADuration (Round (stop2 - start2) Millisecond)]),
               printf ''   duplicates: %d, lost: %d'' [AInt (int (dupes seen)), AInt (300 - int (length seen))]])))])])]"

definition tour :: "'e net \<Rightarrow> string \<Rightarrow> nat list \<Rightarrow> nat list \<Rightarrow> ('e, unit) act" where
  "tour N base psched csched =
     andThen (now N) (\<lambda>t. let name = ''orders-'' @ decimal (rem_go (UnixNano t) 100000) in block [
       section1 N base name, section2 N base name, section3 N base name, section4 N base name,
       section5 N base name, section6 N base name, section7 N base psched csched,
       section_demo ''Done'',
       say ''   Restart the server and the queues are still there.'',
       printf ''   Inspect state any time:  curl -s %s/queues | jq'' [AStr base]])"

definition main_demo :: "'e net \<Rightarrow> string \<Rightarrow> nat list \<Rightarrow> nat list \<Rightarrow> ('e, unit) act" where
  "main_demo N base psched csched s =
     (case waitForServer N base s of
        (Some err, s1) \<Rightarrow>
          block [eprintf ''cannot reach the queue at %s: %v'' [AStr base, AStr err],
                 eprintf ''Start it first with: go run .'' [], os_Exit 1] s1
      | (None, s1) \<Rightarrow> tour N base psched csched s1)"

definition default_addr :: string where
  "default_addr = ''http://localhost:8080''"

end
