(* ===== verification/FQ_Demo_Props.thy ===== *)
theory FQ_Demo_Props
  imports FQ_Demo "HOL-Library.Multiset"
begin

text \<open>
  What the demo client does with the answers it gets: it stops at the first refusal, and what it
  reports of its six workers is what the answers said. The last section joins it to the server
  of \<^verbatim>\<open>src/api.go\<close>.
\<close>

section \<open>Stopping at the first refusal\<close>

fun accepted :: "call \<Rightarrow> bool" where
  "accepted (Call meth path buf (NetErr _)) = (path = ''/healthz'')"
| "accepted (Call meth path buf (Reply status _)) = (meth = ''GET'' \<or> status < 400)"

definition stops_at_refusal :: "'a ran \<Rightarrow> call list \<Rightarrow> bool" where
  "stops_at_refusal r cs \<longleftrightarrow>
     (case r of
        Ended n \<Rightarrow> n = 1 \<and> (\<exists>xs c. cs = xs @ [c] \<and> list_all accepted xs \<and> \<not> accepted c)
      | _ \<Rightarrow> list_all accepted cs)"

definition orderly :: "('e, 'a) act \<Rightarrow> bool" where
  "orderly p \<longleftrightarrow>
     (\<forall>s. \<exists>cs. k_calls (snd (p s)) = k_calls s @ cs \<and> stops_at_refusal (fst (p s)) cs)"

named_theorems orderly_intros

lemma orderly_give [orderly_intros]: "orderly (give x)"
  by (simp add: orderly_def give_def stops_at_refusal_def)

lemma orderly_andThen [orderly_intros]:
  fixes p :: "('a, 'b) act"
  assumes "orderly p" and "\<And>x. orderly (f x)"
  shows "orderly (andThen p f)"
  unfolding orderly_def
proof (intro allI)
  fix s :: "'a client"
  obtain r s1 where p: "p s = (r, s1)" by fastforce
  obtain cs where cs: "k_calls s1 = k_calls s @ cs" "stops_at_refusal r cs" using assms(1) p unfolding orderly_def by (metis fst_conv snd_conv)
  show "\<exists>cs. k_calls (snd (andThen p f s)) = k_calls s @ cs \<and> stops_at_refusal (fst (andThen p f s)) cs"
  proof (cases r)
    case (Went x)
    obtain ds where "k_calls (snd (f x s1)) = k_calls s1 @ ds" "stops_at_refusal (fst (f x s1)) ds"
      using assms(2) unfolding orderly_def by blast
    then show ?thesis using cs Went p
      by (intro exI [of _ "cs @ ds"]) (auto simp: andThen_def stops_at_refusal_def split: ran.splits)
  qed (use cs p in \<open>auto simp: andThen_def stops_at_refusal_def\<close>)
qed

lemma orderly_block [orderly_intros]: "(\<And>p. p \<in> set ps \<Longrightarrow> orderly p) \<Longrightarrow> orderly (block ps)"
  by (induction ps) (auto intro: orderly_intros)

lemma orderly_quiet [orderly_intros]:
  "orderly (put_line l)" "orderly (sleep N d)" "orderly (now N)" "orderly (first xs)"
  by (simp_all add: orderly_def stops_at_refusal_def put_line_def sleep_def now_def first_def split: prod.split list.split)

lemma orderly_print [orderly_intros]:
  "orderly (say t)" "orderly (printf f xs)" "orderly (eprintf f xs)"
  by (simp_all add: say_def printf_def eprintf_def orderly_intros)

lemmas client_effects = record_call_def andThen_def eprintf_def put_line_def os_Exit_def Let_def

lemma orderly_post [orderly_intros]:
  assumes "path \<noteq> ''/healthz''"
  shows "orderly (post N base path body)"
  using assms by (auto simp: orderly_def post_def client_effects stops_at_refusal_def split: answer.split)

lemma orderly_getInto [orderly_intros]:
  assumes "path \<noteq> ''/healthz''"
  shows "orderly (getInto N base path dec)"
  using assms by (auto simp: orderly_def getInto_def client_effects stops_at_refusal_def split: answer.split)

lemma orderly_calls [orderly_intros]:
  "orderly (call_post N base (CHR ''/'' # CHR ''q'' # p) body)"
  "orderly (enqueue_demo N base q b pr d)" "orderly (receive_demo N base q n v w)" "orderly (ack_demo N base q r)"
  "orderly (nack_demo N base q r d)" "orderly (extend_demo N base q r v)" "orderly (stats_demo N base q)"
  by (simp_all add: call_post_def enqueue_demo_def receive_demo_def ack_demo_def nack_demo_def extend_demo_def stats_demo_def orderly_intros)

lemma orderly_show [orderly_intros]: "orderly (show_demo msgs)" "orderly (section_demo t)"
  by (auto simp: show_demo_def section_demo_def show_line_def intro!: orderly_intros split: prod.split)

lemma orderly_consume [orderly_intros]: "orderly (consume N base q n)"
  by (auto simp: consume_def intro!: orderly_intros)

lemma orderly_poison [orderly_intros]: "orderly (poison N base q n)"
  by (induction n) (auto intro!: orderly_intros split: list.split)

lemma orderly_sections [orderly_intros]:
  "orderly (section1 N base q)" "orderly (section2 N base q)" "orderly (section3 N base q)"
  "orderly (section4 N base q)" "orderly (section5 N base q)" "orderly (section6 N base q)"
  by (auto simp: section1_def section2_def section3_def section4_def section5_def section6_def heartbeat_def
      intro!: orderly_intros split: list.split)

lemma orderly_wait [orderly_intros]: "orderly (\<lambda>s. if b then (Went x, s) else (Running, s))"
  by (simp add: orderly_def stops_at_refusal_def)

lemma orderly_producers [orderly_intros]: "orderly (producers N base q sched ds)"
  by (induction sched arbitrary: ds) (auto intro!: orderly_intros simp del: if_split)

lemma orderly_consumer_step [orderly_intros]: "orderly (consumer_step N base q k seen)"
  by (auto simp: consumer_step_def intro!: orderly_intros split: worker.split list.split)

lemma orderly_consumers [orderly_intros]: "orderly (consumers N base q sched ks seen)"
  by (induction sched arbitrary: ks seen) (auto intro!: orderly_intros)

lemma orderly_section7 [orderly_intros]: "orderly (section7 N base ps cs)"
  by (auto simp: section7_def Let_def intro!: orderly_intros)

section \<open>Waiting for the server\<close>

definition probe :: "answer \<Rightarrow> call" where
  "probe a = Call ''GET'' ''/healthz'' [] a"

definition unanswered :: "string list \<Rightarrow> call list" where
  "unanswered errs = map (\<lambda>e. probe (NetErr e)) errs"

text \<open>The probes of one wait: failures up to the first answer, or one failure per try.\<close>

definition waited :: "nat \<Rightarrow> string option \<Rightarrow> string option \<Rightarrow> call list \<Rightarrow> bool" where
  "waited n prev err cs \<longleftrightarrow>
     (\<exists>errs.
        (\<exists>st out. err = None \<and> length errs < n \<and> cs = unanswered errs @ [probe (Reply st out)]) \<or>
        length errs = n \<and> cs = unanswered errs \<and> err = (if errs = [] then prev else Some (last errs)))"

lemma waited_again:
  assumes "waited n (Some e) err cs"
  shows "waited (Suc n) prev err (probe (NetErr e) # cs)"
proof -
  obtain errs where
    "(\<exists>st out. err = None \<and> length errs < n \<and> cs = unanswered errs @ [probe (Reply st out)]) \<or>
     length errs = n \<and> cs = unanswered errs \<and> err = (if errs = [] then Some e else Some (last errs))"
    using assms unfolding waited_def by blast
  then show ?thesis unfolding waited_def by (intro exI [of _ "e # errs"]) (auto simp: unanswered_def)
qed

lemma tries_waited:
  "\<exists>cs. k_calls (snd (tries N base n prev s)) = k_calls s @ cs \<and> waited n prev (fst (tries N base n prev s)) cs"
proof (induction n arbitrary: prev s)
  case 0
  then show ?case by (auto simp: waited_def unanswered_def)
next
  case (Suc n)
  obtain a e where r: "http_Get N (base @ ''/healthz'') (k_env s) = (a, e)" by fastforce
  show ?case
  proof (cases a)
    case (Reply st out)
    then show ?thesis using r
      by (auto simp: record_call_def Let_def waited_def unanswered_def probe_def intro!: exI [of _ "[]"])
  next
    case (NetErr err)
    let ?s = "snd (sleep N (100 * Millisecond) (record_call ''GET'' ''/healthz'' [] (a, e) s))"
    have k: "k_calls ?s = k_calls s @ [probe (NetErr err)]" using NetErr by (simp add: sleep_def record_call_def probe_def)
    have t: "tries N base (Suc n) prev s = tries N base n (Some err) ?s" using r NetErr by simp
    obtain cs where "k_calls (snd (tries N base n (Some err) ?s)) = k_calls ?s @ cs"
      "waited n (Some err) (fst (tries N base n (Some err) ?s)) cs" using Suc.IH by blast
    then show ?thesis using k t waited_again by (intro exI [of _ "probe (NetErr err) # cs"]) simp
  qed
qed

lemma unanswered_accepted [simp]: "list_all accepted (unanswered errs)"
  by (induction errs) (simp_all add: unanswered_def probe_def)

lemma orderly_tour: "orderly (tour N base ps cs)"
  by (auto simp: tour_def Let_def intro!: orderly_intros)

section \<open>What the workers' calls amount to\<close>

fun sent_by :: "string \<Rightarrow> call \<Rightarrow> byte list list" where
  "sent_by path (Call meth p buf (Reply status _)) = (if meth = ''POST'' \<and> p = path \<and> status < 400 then [buf] else [])"
| "sent_by path (Call meth p buf (NetErr _)) = []"

fun got_by :: "'e net \<Rightarrow> string \<Rightarrow> call \<Rightarrow> msg_demo list" where
  "got_by N q (Call meth p buf (Reply status out)) =
     (if meth = ''POST'' \<and> p = ''/queues/'' @ q @ ''/receive'' \<and> status < 400 then json_messages N out else [])"
| "got_by N q (Call meth p buf (NetErr _)) = []"

text \<open>The bodies of the accepted requests to a path, and the messages received from a queue.\<close>

definition sent :: "string \<Rightarrow> call list \<Rightarrow> byte list list" where
  "sent path cs = concat (map (sent_by path) cs)"

definition deliveries :: "'e net \<Rightarrow> string \<Rightarrow> call list \<Rightarrow> msg_demo list" where
  "deliveries N q cs = concat (map (got_by N q) cs)"

definition receipt_body :: "'e net \<Rightarrow> msg_demo \<Rightarrow> byte list" where
  "receipt_body N m = json_Marshal N [(''receipt'', JStr (g_Receipt m))]"

definition job_body :: "'e net \<Rightarrow> nat \<times> nat \<Rightarrow> byte list" where
  "job_body N pi = json_Marshal N [(''body'', JStr (job (fst pi) (snd pi))), (''priority'', JInt 0), (''delay_ms'', JInt 0)]"

lemma sent_append [simp]: "sent p (cs @ ds) = sent p cs @ sent p ds" "sent p [] = []" "sent p (c # cs) = sent_by p c @ sent p cs"
  by (simp_all add: sent_def)

lemma deliveries_append [simp]:
  "deliveries N q (cs @ ds) = deliveries N q cs @ deliveries N q ds" "deliveries N q [] = []"
  "deliveries N q (c # cs) = got_by N q c @ deliveries N q cs"
  by (simp_all add: deliveries_def)

lemma post_went:
  assumes "post N base path body s = (Went out, s1)"
  shows "\<exists>st < 400. k_out s1 = k_out s \<and> k_calls s1 = k_calls s @ [Call ''POST'' path (json_Marshal N body) (Reply st out)]"
  using assms by (auto simp: post_def client_effects split: answer.splits if_splits)

lemma andThen_went:
  assumes "andThen p f s = (Went y, s2)"
  obtains x s1 where "p s = (Went x, s1)" "f x s1 = (Went y, s2)"
  using assms by (auto simp: andThen_def split: prod.splits ran.splits)

lemma receive_went:
  assumes "receive_demo N base q n v w s = (Went ms, s1)"
  shows "\<exists>c. k_calls s1 = k_calls s @ [c] \<and> k_out s1 = k_out s \<and> got_by N q c = ms \<and>
    sent_by (''/queues/'' @ q @ ''/ack'') c = [] \<and> sent_by (''/queues/'' @ q @ ''/messages'') c = []"
proof -
  obtain out where "post N base (''/queues/'' @ q @ ''/receive'')
      [(''max'', JInt n), (''visibility_ms'', JInt v), (''wait_ms'', JInt w)] s = (Went out, s1)" "json_messages N out = ms"
    using assms unfolding receive_demo_def by (auto elim!: andThen_went simp: give_def)
  then show ?thesis by (auto dest!: post_went)
qed

lemma call_post_went:
  assumes "call_post N base path body s = (Went u, s1)"
  shows "\<exists>st < 400. \<exists>out. k_out s1 = k_out s \<and> k_calls s1 = k_calls s @ [Call ''POST'' path (json_Marshal N body) (Reply st out)]"
  using assms unfolding call_post_def by (auto elim!: andThen_went simp: give_def dest!: post_went)

lemma ack_went:
  assumes "ack_demo N base q (g_Receipt m) s = (Went u, s1)"
  shows "\<exists>c. k_calls s1 = k_calls s @ [c] \<and> k_out s1 = k_out s \<and> got_by N q c = [] \<and>
    sent_by (''/queues/'' @ q @ ''/ack'') c = [receipt_body N m] \<and> sent_by (''/queues/'' @ q @ ''/messages'') c = []"
  using call_post_went [OF assms [unfolded ack_demo_def]] by (auto simp: receipt_body_def)

lemma enqueue_went:
  assumes "enqueue_demo N base q (job p i) 0 0 s = (Went u, s1)"
  shows "\<exists>c. k_calls s1 = k_calls s @ [c] \<and> k_out s1 = k_out s \<and> got_by N q c = [] \<and>
    sent_by (''/queues/'' @ q @ ''/ack'') c = [] \<and> sent_by (''/queues/'' @ q @ ''/messages'') c = [job_body N (p, i)]"
  using call_post_went [OF assms [unfolded enqueue_demo_def]] by (auto simp: job_body_def)

section \<open>Producers\<close>

lemma sum_list_update_swap:
  fixes f :: "'a \<Rightarrow> 'b :: comm_monoid_add"
  assumes "i < length xs"
  shows "sum_list (map f (xs[i := y])) + f (xs ! i) = sum_list (map f xs) + f y"
  using assms
proof (induction xs arbitrary: i)
  case (Cons x xs)
  then show ?case by (cases i) (simp_all add: ac_simps)
qed simp

text \<open>The jobs worker \<open>p\<close> has posted when it is at its \<open>n\<close>th.\<close>

definition posted_by :: "nat \<times> nat \<Rightarrow> (nat \<times> nat) multiset" where
  "posted_by pn = mset (map (Pair (fst pn)) [0..<snd pn])"

definition all_posted :: "nat list \<Rightarrow> (nat \<times> nat) multiset" where
  "all_posted ds = sum_list (map posted_by (enumerate 0 ds))"

lemma posted_by_Suc [simp]: "posted_by (p, Suc i) = add_mset (p, i) (posted_by (p, i))"
  by (simp add: posted_by_def)

lemma all_posted_Suc:
  assumes "p < length ds"
  shows "all_posted (ds[p := Suc (ds ! p)]) = add_mset (p, ds ! p) (all_posted ds)"
proof -
  have "enumerate 0 (ds[p := Suc (ds ! p)]) = (enumerate 0 ds)[p := (p, Suc (ds ! p))]"
    using assms by (intro nth_equalityI) (auto simp: nth_list_update nth_enumerate_eq)
  then have "all_posted (ds[p := Suc (ds ! p)]) + posted_by (p, ds ! p) = all_posted ds + posted_by (p, Suc (ds ! p))"
    using sum_list_update_swap [of p "enumerate 0 ds" posted_by "(p, Suc (ds ! p))"] assms
    by (simp add: all_posted_def nth_enumerate_eq)
  then show ?thesis by simp
qed

lemma producers_went:
  assumes "producers N base q sched ds s = (Went u, s')"
  shows "\<exists>cs ds'. k_calls s' = k_calls s @ cs \<and> k_out s' = k_out s \<and> deliveries N q cs = [] \<and>
    sent (''/queues/'' @ q @ ''/ack'') cs = [] \<and> length ds' = length ds \<and> (\<forall>i \<in> set ds'. i = 50) \<and>
    mset (sent (''/queues/'' @ q @ ''/messages'') cs) + image_mset (job_body N) (all_posted ds) = image_mset (job_body N) (all_posted ds')"
  using assms
proof (induction sched arbitrary: ds s)
  case Nil
  then show ?case by (intro exI [of _ "[]"] exI [of _ ds]) (auto split: if_splits)
next
  case (Cons p sched)
  show ?case
  proof (cases "p < length ds \<and> ds ! p < 50")
    case True
    then obtain v s1 where e: "enqueue_demo N base q (job p (ds ! p)) 0 0 s = (Went v, s1)"
      and r: "producers N base q sched (ds[p := Suc (ds ! p)]) s1 = (Went u, s')"
      using Cons.prems by (auto elim!: andThen_went)
    obtain c where c: "k_calls s1 = k_calls s @ [c]" "k_out s1 = k_out s" "got_by N q c = []"
      "sent_by (''/queues/'' @ q @ ''/ack'') c = []" "sent_by (''/queues/'' @ q @ ''/messages'') c = [job_body N (p, ds ! p)]"
      using enqueue_went [OF e] by blast
    show ?thesis using Cons.IH [OF r] c True
      by (elim exE conjE, intro exI [of _ "c # cs" for cs] exI) (simp add: all_posted_Suc)
  next
    case False
    then have "producers N base q sched ds s = (Went u, s')" using Cons.prems by auto
    then show ?thesis by (rule Cons.IH)
  qed
qed

lemma all_posted_replicate: "all_posted (replicate n k) = mset (List.product [0..<n] [0..<k])"
proof -
  have "enumerate 0 (replicate n k) = map (\<lambda>i. (i, k)) [0..<n]"
    by (intro nth_equalityI) (simp_all add: nth_enumerate_eq)
  moreover have "sum_list (map (\<lambda>i. posted_by (i, k)) is) = mset (List.product is [0..<k])" for "is"
    by (induction "is") (simp_all add: posted_by_def)
  ultimately show ?thesis by (simp add: all_posted_def comp_def)
qed

definition jobs :: "(nat \<times> nat) list" where
  "jobs = List.product [0..<6] [0..<50]"

lemma product_Nil: "List.product xs [] = []"
  by (induction xs) simp_all

section \<open>Job names\<close>

declare digits.simps [simp del]

lemma digit_inj: "a < 10 \<Longrightarrow> b < 10 \<Longrightarrow> ''0123456789'' ! a = ''0123456789'' ! b \<Longrightarrow> a = b"
proof -
  have "distinct ''0123456789''" "length ''0123456789'' = 10" by simp_all
  then show "a < 10 \<Longrightarrow> b < 10 \<Longrightarrow> ''0123456789'' ! a = ''0123456789'' ! b \<Longrightarrow> a = b"
    by (metis nth_eq_iff_index_eq)
qed

lemma digits_nonempty: "digits n \<noteq> []"
  by (subst digits.simps) simp

lemma digits_inj: "digits m = digits n \<Longrightarrow> m = n"
proof (induction m arbitrary: n rule: digits.induct)
  case (1 m)
  have e: "digits m = (if m < 10 then [''0123456789'' ! m] else digits (m div 10) @ [''0123456789'' ! (m mod 10)])"
    "digits n = (if n < 10 then [''0123456789'' ! n] else digits (n div 10) @ [''0123456789'' ! (n mod 10)])"
    by (rule digits.simps)+
  consider "m < 10" "n < 10" | "m < 10" "\<not> n < 10" | "\<not> m < 10" "n < 10" | "\<not> m < 10" "\<not> n < 10" by blast
  then show ?case
  proof cases
    case 1
    then show ?thesis using e "1.prems" digit_inj by simp
  next
    case 4
    then have "digits (m div 10) = digits (n div 10)" "''0123456789'' ! (m mod 10) = ''0123456789'' ! (n mod 10)"
      using e "1.prems" by simp_all
    then have "m div 10 = n div 10" "m mod 10 = n mod 10" using "1.IH" [OF 4(1)] digit_inj by simp_all
    then show ?thesis by (metis div_mult_mod_eq)
  qed (use e "1.prems" digits_nonempty in \<open>auto dest: sym\<close>)
qed

lemma digits_no_dash: "CHR ''-'' \<notin> set (digits n)"
proof (induction n rule: digits.induct)
  case (1 n)
  have "''0123456789'' ! k \<in> set ''0123456789''" if "k < 10" for k using that by (intro nth_mem) simp
  then have "''0123456789'' ! k \<noteq> CHR ''-''" if "k < 10" for k using that by force
  from this [of n] this [of "n mod 10"] show ?case using 1 by (subst digits.simps) (auto dest: sym)
qed

lemma split_at_dash:
  assumes "xs @ CHR ''-'' # ys = us @ CHR ''-'' # vs" and "CHR ''-'' \<notin> set xs" and "CHR ''-'' \<notin> set us"
  shows "xs = us \<and> ys = vs"
proof -
  have "takeWhile (\<lambda>c. c \<noteq> CHR ''-'') (xs @ CHR ''-'' # ys) = xs" "takeWhile (\<lambda>c. c \<noteq> CHR ''-'') (us @ CHR ''-'' # vs) = us"
    using assms(2,3) by (auto simp: takeWhile_tail takeWhile_append2)
  then have "xs = us" using assms(1) by simp
  then show ?thesis using assms(1) by simp
qed

lemma job_inj: "job p i = job p' i' \<longleftrightarrow> p = p' \<and> i = i'"
  using split_at_dash [of "digits p" "digits i" "digits p'" "digits i'"] digits_no_dash digits_inj
  by (auto simp: job_def decimal_def)

lemma jobs_distinct: "distinct jobs" "length jobs = 300" "distinct (map (\<lambda>(p, i). job p i) jobs)"
  by (auto simp: jobs_def distinct_product distinct_map inj_on_def job_inj)

lemma lost_jobs:
  assumes "B \<subseteq> (\<lambda>(p, i). job p i) ` set jobs"
  shows "300 - int (card B) = int (card ((\<lambda>(p, i). job p i) ` set jobs - B))"
proof -
  have "card ((\<lambda>(p, i). job p i) ` set jobs) = 300"
    using distinct_card [OF jobs_distinct(3)] jobs_distinct(2) by simp
  moreover have "finite B" using assms by (rule finite_subset) simp
  ultimately show ?thesis using assms card_mono [OF _ assms] by (simp add: card_Diff_subset)
qed

section \<open>Consumers\<close>

primrec uncounted :: "worker \<Rightarrow> msg_demo multiset" where
  "uncounted Polling = {#}"
| "uncounted (Counting ms) = mset ms"
| "uncounted (Acking m ms) = mset ms"
| "uncounted Gone = {#}"

primrec unacked :: "worker \<Rightarrow> msg_demo multiset" where
  "unacked Polling = {#}"
| "unacked (Counting ms) = {#}"
| "unacked (Acking m ms) = {#m#}"
| "unacked Gone = {#}"

definition counts :: "seen \<Rightarrow> string multiset \<Rightarrow> bool" where
  "counts seen B \<longleftrightarrow> distinct (map fst seen) \<and> (\<forall>b. map_of seen b = (if b \<in># B then Some (int (count B b)) else None))"

lemma counts_increment:
  assumes "counts seen B"
  shows "counts (increment b seen) (add_mset b B)"
  using assms
  by (auto simp: counts_def increment_def update_conv' distinct_update not_in_iff)

text \<open>
  The books of the six consumers: what was received is counted or still to be counted, what is
  counted is acknowledged or about to be.
\<close>

definition balanced :: "'e net \<Rightarrow> string \<Rightarrow> call list \<Rightarrow> worker list \<Rightarrow> seen \<Rightarrow> bool" where
  "balanced N q cs ks seen \<longleftrightarrow>
     (\<exists>H. mset (deliveries N q cs) = H + sum_list (map uncounted ks) \<and>
          image_mset (receipt_body N) H =
            mset (sent (''/queues/'' @ q @ ''/ack'') cs) + image_mset (receipt_body N) (sum_list (map unacked ks)) \<and>
          counts seen (image_mset g_Body H))"

lemma balanced_start: "balanced N q [] (replicate n Polling) []"
proof -
  have "sum_list (map uncounted (replicate n Polling)) = {#}" "sum_list (map unacked (replicate n Polling)) = {#}"
    by (induction n) simp_all
  then show ?thesis by (simp add: balanced_def counts_def)
qed

lemma balanced_step:
  assumes "balanced N q cs ks seen" and "c < length ks"
    and "consumer_step N base q (ks ! c) seen s = (Went (k, seen1), s1)"
  shows "\<exists>ds. k_calls s1 = k_calls s @ ds \<and> k_out s1 = k_out s \<and> sent (''/queues/'' @ q @ ''/messages'') ds = [] \<and>
    balanced N q (cs @ ds) (ks[c := k]) seen1"
proof -
  note swap = sum_list_update_swap [OF assms(2), of uncounted k] sum_list_update_swap [OF assms(2), of unacked k]
  show ?thesis
  proof (cases "ks ! c")
    case Polling
    then obtain ms where r: "receive_demo N base q 10 30000 300 s = (Went ms, s1)"
      "k = (if ms = [] then Gone else Counting ms)" "seen1 = seen"
      using assms(3) by (auto simp: consumer_step_def give_def elim!: andThen_went)
    show ?thesis using receive_went [OF r(1)] r(2,3) assms(1) swap Polling
      by (elim exE conjE, intro exI [of _ "[x]" for x]) (auto simp: balanced_def ac_simps)
  next
    case (Counting ms)
    show ?thesis
    proof (cases ms)
      case Nil
      then show ?thesis using assms(1,3) Counting swap by (auto simp: consumer_step_def give_def balanced_def)
    next
      case (Cons m ms')
      then have "k = Acking m ms'" "seen1 = increment (g_Body m) seen" "s1 = s"
        using assms(3) Counting by (auto simp: consumer_step_def give_def)
      moreover have "sum_list (map uncounted ks) = add_mset m (sum_list (map uncounted (ks[c := Acking m ms'])))"
        "sum_list (map unacked (ks[c := Acking m ms'])) = add_mset m (sum_list (map unacked ks))"
        using swap Counting Cons \<open>k = Acking m ms'\<close> by simp_all
      ultimately have "balanced N q cs (ks[c := k]) seen1"
        using assms(1) unfolding balanced_def
        by (elim exE conjE) (rule exI [of _ "add_mset m H" for H], auto intro: counts_increment)
      then show ?thesis using \<open>s1 = s\<close> by simp
    qed
  next
    case (Acking m ms)
    then obtain v where r: "ack_demo N base q (g_Receipt m) s = (Went v, s1)" "k = Counting ms" "seen1 = seen"
      using assms(3) by (auto simp: consumer_step_def give_def elim!: andThen_went)
    have "sum_list (map uncounted (ks[c := Counting ms])) = sum_list (map uncounted ks)"
      "sum_list (map unacked ks) = add_mset m (sum_list (map unacked (ks[c := Counting ms])))"
      using swap Acking r(2) by simp_all
    then show ?thesis using ack_went [OF r(1)] r(2,3) assms(1)
      by (elim exE conjE, intro exI [of _ "[x]" for x]) (auto simp: balanced_def)
  next
    case Gone
    then show ?thesis using assms(1,3) swap by (auto simp: consumer_step_def give_def balanced_def)
  qed
qed

lemma consumers_went:
  assumes "consumers N base q sched ks seen s = (Went seen', s')" and "balanced N q cs ks seen"
  shows "\<exists>ds ks'. k_calls s' = k_calls s @ ds \<and> k_out s' = k_out s \<and> sent (''/queues/'' @ q @ ''/messages'') ds = [] \<and>
    length ks' = length ks \<and> (\<forall>k \<in> set ks'. k = Gone) \<and> balanced N q (cs @ ds) ks' seen'"
  using assms
proof (induction sched arbitrary: ks seen s cs)
  case Nil
  then show ?case by (intro exI [of _ "[]"] exI [of _ ks]) (auto split: if_splits)
next
  case (Cons c sched)
  show ?case
  proof (cases "c < length ks")
    case True
    then obtain k seen1 s1 where e: "consumer_step N base q (ks ! c) seen s = (Went (k, seen1), s1)"
      and r: "consumers N base q sched (ks[c := k]) seen1 s1 = (Went seen', s')"
      using Cons.prems(1) by (auto elim!: andThen_went)
    obtain ds where "k_calls s1 = k_calls s @ ds" "k_out s1 = k_out s" "sent (''/queues/'' @ q @ ''/messages'') ds = []"
      and b: "balanced N q (cs @ ds) (ks[c := k]) seen1"
      using balanced_step [OF Cons.prems(2) True e] by blast
    then show ?thesis using Cons.IH [OF r b]
      by (elim exE conjE, intro exI [of _ "ds @ es" for es] exI) (simp, assumption?)
  next
    case False
    then have "consumers N base q sched ks seen s = (Went seen', s')" using Cons.prems(1) by auto
    then show ?thesis using Cons.prems(2) by (rule Cons.IH)
  qed
qed

lemma counts_tally:
  assumes "counts seen (mset bs)"
  shows "length seen = card (set bs)" and "dupes seen = card {b. count_list bs b > 1}"
proof -
  have d: "distinct (map fst seen)" and m: "map_of seen b = (if b \<in> set bs then Some (int (count_list bs b)) else None)" for b
    using assms by (simp_all add: counts_def count_mset)
  have "fst ` set seen = set bs" using m by (metis (mono_tags) dom_map_of_conv_image_fst domIff option.distinct(1) set_eqI)
  then show "length seen = card (set bs)" using d by (metis distinct_card length_map set_map)
  let ?f = "filter (\<lambda>(_, n). n > 1) seen"
  have "(b, n) \<in> set seen \<longleftrightarrow> b \<in> set bs \<and> n = int (count_list bs b)" for b n
    using m [of b] map_of_eq_Some_iff [OF d, of b n] by (auto split: if_splits)
  then have "fst ` set ?f = {b. count_list bs b > 1}" by (force simp: count_list_0_iff image_iff)
  moreover have "distinct (map fst ?f)" using d by (simp add: distinct_map_filter)
  ultimately show "dupes seen = card {b. count_list bs b > 1}" unfolding dupes_def by (metis distinct_card length_map set_map)
qed

section \<open>The report\<close>

lemma quiet_went:
  "now N s = (Went t, s1) \<Longrightarrow> (k_calls s1 = k_calls s \<Longrightarrow> k_out s1 = k_out s \<Longrightarrow> P) \<Longrightarrow> P"
  "printf f xs s = (Went u, s1) \<Longrightarrow> (k_calls s1 = k_calls s \<Longrightarrow> k_out s1 = k_out s @ [Stdout f xs] \<Longrightarrow> P) \<Longrightarrow> P"
  "give x s = (Went y, s1) \<Longrightarrow> (x = y \<Longrightarrow> s1 = s \<Longrightarrow> P) \<Longrightarrow> P"
  by (auto simp: now_def printf_def put_line_def give_def split: prod.splits)

lemma section_went: "section_demo t s = (Went u, s1) \<Longrightarrow> k_calls s1 = k_calls s"
  by (auto simp: section_demo_def say_def put_line_def elim!: andThen_went quiet_went)

definition report :: "msg_demo list \<Rightarrow> line" where
  "report got = Stdout ''   duplicates: %d, lost: %d''
     [AInt (int (card {b. count_list (map g_Body got) b > 1})), AInt (300 - int (card (set (map g_Body got))))]"

lemma section7_went:
  assumes "section7 N base ps cs s = (Went u, s')"
  obtains t s1 s2 s3 s4 s5 s6 v w seen q where "q = ''bulk-'' @ decimal (rem_go (UnixNano t) 100000)"
    "call_post N base ''/queues'' [(''name'', JStr q), (''mode'', JStr ''fifo''), (''visibility_timeout_ms'', JInt 30000)] s1 = (Went v, s2)"
    "producers N base q ps (replicate 6 0) s3 = (Went w, s4)"
    "consumers N base q cs (replicate 6 Polling) [] s5 = (Went seen, s6)"
    "k_calls s1 = k_calls s" "k_calls s3 = k_calls s2" "k_calls s5 = k_calls s4" "k_calls s' = k_calls s6"
    "last (k_out s') = Stdout ''   duplicates: %d, lost: %d'' [AInt (int (dupes seen)), AInt (300 - int (length seen))]"
  using assms unfolding section7_def Let_def block.simps
  by (elim andThen_went quiet_went) (rule that [OF refl], assumption, assumption, assumption, simp_all add: section_went)

lemma section7_books:
  assumes "section7 N base ps cs s = (Went u, s')"
  shows "\<exists>t q calls. q = ''bulk-'' @ decimal (rem_go (UnixNano t) 100000) \<and> k_calls s' = k_calls s @ calls \<and>
    mset (sent (''/queues/'' @ q @ ''/messages'') calls) = image_mset (job_body N) (mset jobs) \<and>
    mset (sent (''/queues/'' @ q @ ''/ack'') calls) = image_mset (receipt_body N) (mset (deliveries N q calls)) \<and>
    last (k_out s') = report (deliveries N q calls)"
proof -
  from assms obtain t s1 s2 s3 s4 s5 s6 v w seen q where q: "q = ''bulk-'' @ decimal (rem_go (UnixNano t) 100000)"
    and c: "call_post N base ''/queues'' [(''name'', JStr q), (''mode'', JStr ''fifo''), (''visibility_timeout_ms'', JInt 30000)] s1 = (Went v, s2)"
    and p: "producers N base q ps (replicate 6 0) s3 = (Went w, s4)"
    and w: "consumers N base q cs (replicate 6 Polling) [] s5 = (Went seen, s6)"
    and k: "k_calls s1 = k_calls s" "k_calls s3 = k_calls s2" "k_calls s5 = k_calls s4" "k_calls s' = k_calls s6"
    and l: "last (k_out s') = Stdout ''   duplicates: %d, lost: %d'' [AInt (int (dupes seen)), AInt (300 - int (length seen))]"
    by (rule section7_went)
  obtain b st out where 1: "k_calls s2 = k_calls s @ [Call ''POST'' ''/queues'' b (Reply st out)]"
    using call_post_went [OF c] k(1) by auto
  obtain ms ds where 2: "k_calls s4 = k_calls s2 @ ms" "deliveries N q ms = []" "sent (''/queues/'' @ q @ ''/ack'') ms = []"
      "length ds = 6" "\<forall>i \<in> set ds. i = 50"
      "mset (sent (''/queues/'' @ q @ ''/messages'') ms) + image_mset (job_body N) (all_posted (replicate 6 0)) = image_mset (job_body N) (all_posted ds)"
    using producers_went [OF p] k(2) by auto
  have "ds = replicate 6 50" using 2(4,5) by (metis replicate_length_same)
  then have "all_posted ds = mset jobs" "all_posted (replicate 6 0) = {#}"
    by (simp_all only: all_posted_replicate jobs_def upt_0 product_Nil mset.simps)
  then have m: "mset (sent (''/queues/'' @ q @ ''/messages'') ms) = image_mset (job_body N) (mset jobs)"
    using 2(6) by simp
  obtain rs ks where 3: "k_calls s6 = k_calls s4 @ rs" "sent (''/queues/'' @ q @ ''/messages'') rs = []"
      "\<forall>k \<in> set ks. k = Gone" "balanced N q rs ks seen"
    using consumers_went [OF w balanced_start] k(3) by auto
  have "sum_list (map uncounted ks) = {#}" "sum_list (map unacked ks) = {#}" using 3(3) by (induction ks) auto
  then have b: "mset (sent (''/queues/'' @ q @ ''/ack'') rs) = image_mset (receipt_body N) (mset (deliveries N q rs))"
    "counts seen (mset (map g_Body (deliveries N q rs)))" using 3(4) by (auto simp: balanced_def)
  show ?thesis
    by (rule exI [of _ t], rule exI [of _ q], rule exI [of _ "Call ''POST'' ''/queues'' b (Reply st out) # ms @ rs"], rule conjI [OF q])
       (use 1 2(1-3) 3(1,2) m b k(4) l counts_tally [OF b(2)] in \<open>simp add: report_def\<close>)
qed

section \<open>The workers finish\<close>

text \<open>
  What the six workers need of the other side, in the states \<open>I\<close>: it accepts their requests, and it
  has at most \<open>B\<close> messages to hand out, \<open>budget\<close> of which are left.
\<close>

definition accepts :: "'e net \<Rightarrow> string \<Rightarrow> ('e \<Rightarrow> bool) \<Rightarrow> ('e \<Rightarrow> 'e \<Rightarrow> byte list \<Rightarrow> bool) \<Rightarrow> string \<Rightarrow> bool" where
  "accepts N base I R path \<longleftrightarrow>
     (\<forall>ct b e. I e \<longrightarrow> (\<exists>st out e'. http_Post N (base @ path) ct b e = (Reply st out, e') \<and> st < 400 \<and> I e' \<and> R e e' out))"

definition willing :: "'e net \<Rightarrow> string \<Rightarrow> ('e \<Rightarrow> bool) \<Rightarrow> ('e \<Rightarrow> nat) \<Rightarrow> nat \<Rightarrow> bool" where
  "willing N base I budget B \<longleftrightarrow>
     (\<forall>e. I e \<longrightarrow> budget e \<le> B \<and> I (snd (clock N e))) \<and>
     accepts N base I (\<lambda>_ _ _. True) ''/queues'' \<and>
     (\<forall>q. accepts N base I (\<lambda>_ _ _. True) (''/queues/'' @ q @ ''/messages'') \<and>
          accepts N base I (\<lambda>e e' out. budget e' + length (json_messages N out) \<le> budget e) (''/queues/'' @ q @ ''/receive'') \<and>
          accepts N base I (\<lambda>e e' _. budget e' \<le> budget e) (''/queues/'' @ q @ ''/ack''))"

lemma post_accepted:
  assumes "accepts N base I R path" and "I (k_env s)"
  shows "\<exists>out s1. post N base path body s = (Went out, s1) \<and> I (k_env s1) \<and> R (k_env s) (k_env s1) out"
proof -
  obtain st out e where "http_Post N (base @ path) ''application/json'' (json_Marshal N body) (k_env s) = (Reply st out, e)"
    "st < 400" "I e" "R (k_env s) e out"
    using assms unfolding accepts_def by blast
  then show ?thesis by (auto simp: post_def record_call_def Let_def)
qed

lemma call_post_accepted:
  assumes "accepts N base I R path" and "I (k_env s)"
  shows "\<exists>s1. call_post N base path body s = (Went (), s1) \<and> I (k_env s1) \<and> (\<exists>out. R (k_env s) (k_env s1) out)"
  using post_accepted [OF assms, of body] by (auto simp: call_post_def andThen_def give_def)

lemma producers_end:
  assumes "accepts N base I (\<lambda>_ _ _. True) (''/queues/'' @ q @ ''/messages'')" and "I (k_env s)"
    and "\<forall>p < length ds. ds ! p \<le> 50 \<and> 50 - ds ! p \<le> count_list sched p"
  shows "\<exists>s'. producers N base q sched ds s = (Went (), s') \<and> I (k_env s')"
  using assms(2,3)
proof (induction sched arbitrary: ds s)
  case Nil
  then have "\<forall>i \<in> set ds. i = 50" by (fastforce simp: in_set_conv_nth)
  then show ?case using Nil by auto
next
  case (Cons p sched)
  show ?case
  proof (cases "p < length ds \<and> ds ! p < 50")
    case True
    let ?ds = "ds[p := Suc (ds ! p)]"
    obtain s1 where "enqueue_demo N base q (job p (ds ! p)) 0 0 s = (Went (), s1)" and i: "I (k_env s1)"
      using call_post_accepted [OF assms(1) Cons.prems(1)] unfolding enqueue_demo_def by blast
    then have "producers N base q (p # sched) ds s = producers N base q sched ?ds s1" using True by (simp add: andThen_def)
    moreover have "\<forall>k < length ?ds. ?ds ! k \<le> 50 \<and> 50 - ?ds ! k \<le> count_list sched k"
      using Cons.prems(2) True by (force simp: nth_list_update split: if_splits)
    ultimately show ?thesis using Cons.IH [OF i] by metis
  next
    case False
    then have "producers N base q (p # sched) ds s = producers N base q sched ds s" by auto
    moreover have "\<forall>k < length ds. ds ! k \<le> 50 \<and> 50 - ds ! k \<le> count_list sched k"
      using Cons.prems(2) False by (force split: if_splits)
    ultimately show ?thesis using Cons.IH [OF Cons.prems(1)] by metis
  qed
qed

text \<open>The steps a consumer takes at most before its next request for messages returns.\<close>

primrec todo :: "worker \<Rightarrow> nat" where
  "todo Polling = 1"
| "todo (Counting ms) = 2 * length ms + 2"
| "todo (Acking m ms) = 2 * length ms + 3"
| "todo Gone = 0"

lemma consumer_step_ends:
  assumes "willing N base I budget B" and "I (k_env s)" and "k \<noteq> Gone"
  shows "\<exists>k' seen' s1. consumer_step N base q k seen s = (Went (k', seen'), s1) \<and> I (k_env s1) \<and>
    todo k' + 4 * budget (k_env s1) < todo k + 4 * budget (k_env s)"
proof (cases k)
  case Polling
  have "accepts N base I (\<lambda>e e' out. budget e' + length (json_messages N out) \<le> budget e) (''/queues/'' @ q @ ''/receive'')"
    using assms(1) unfolding willing_def by blast
  from post_accepted [OF this assms(2)] obtain out s1
    where "post N base (''/queues/'' @ q @ ''/receive'') [(''max'', JInt 10), (''visibility_ms'', JInt 30000), (''wait_ms'', JInt 300)] s = (Went out, s1)"
      "I (k_env s1)" "budget (k_env s1) + length (json_messages N out) \<le> budget (k_env s)" by blast
  moreover then have "json_messages N out \<noteq> [] \<Longrightarrow> 2 * length (json_messages N out) + 2 + 4 * budget (k_env s1) < 1 + 4 * budget (k_env s)"
    by (cases "json_messages N out") auto
  ultimately show ?thesis using Polling by (auto simp: consumer_step_def receive_demo_def andThen_def give_def)
next
  case (Counting ms)
  then show ?thesis using assms(2) by (cases ms) (simp_all add: consumer_step_def give_def)
next
  case (Acking m ms)
  have "accepts N base I (\<lambda>e e' _. budget e' \<le> budget e) (''/queues/'' @ q @ ''/ack'')"
    using assms(1) unfolding willing_def by blast
  from call_post_accepted [OF this assms(2), of "[(''receipt'', JStr (g_Receipt m))]"] show ?thesis
    using Acking by (auto simp: consumer_step_def ack_demo_def andThen_def give_def)
qed (use assms in simp)

lemma consumers_end:
  assumes "willing N base I budget B" and "I (k_env s)"
    and "\<forall>c < length ks. ks ! c \<noteq> Gone \<longrightarrow> sum_list (map todo ks) + 4 * budget (k_env s) \<le> count_list sched c"
  shows "\<exists>seen' s'. consumers N base q sched ks seen s = (Went seen', s')"
  using assms(2,3)
proof (induction sched arbitrary: ks seen s)
  case Nil
  have "k = Gone" if k: "k \<in> set ks" for k
  proof (rule ccontr)
    assume "k \<noteq> Gone"
    then have "todo k = 0" using k Nil(2) by (fastforce simp: in_set_conv_nth)
    then show False using \<open>k \<noteq> Gone\<close> by (cases k) auto
  qed
  then show ?case by auto
next
  case (Cons c sched)
  show ?case
  proof (cases "c < length ks \<and> ks ! c \<noteq> Gone")
    case True
    obtain k seen1 s1 where e: "consumer_step N base q (ks ! c) seen s = (Went (k, seen1), s1)" and i: "I (k_env s1)"
      and d: "todo k + 4 * budget (k_env s1) < todo (ks ! c) + 4 * budget (k_env s)"
      using consumer_step_ends [OF assms(1) Cons.prems(1)] True by blast
    have "consumers N base q (c # sched) ks seen s = consumers N base q sched (ks[c := k]) seen1 s1"
      using True e by (simp add: andThen_def)
    moreover have l: "sum_list (map todo (ks[c := k])) + 4 * budget (k_env s1) < sum_list (map todo ks) + 4 * budget (k_env s)"
      using sum_list_update_swap [of c ks todo k] True d by simp
    moreover have "\<forall>b < length (ks[c := k]). ks[c := k] ! b \<noteq> Gone \<longrightarrow>
        sum_list (map todo (ks[c := k])) + 4 * budget (k_env s1) \<le> count_list sched b"
      using Cons.prems(2) True l by (fastforce simp: nth_list_update split: if_splits)
    ultimately show ?thesis using Cons.IH [OF i] by metis
  next
    case False
    then have "consumers N base q (c # sched) ks seen s = consumers N base q sched ks seen s"
      by (auto simp: consumer_step_def andThen_def give_def) (metis list_update_id)
    moreover have "\<forall>b < length ks. ks ! b \<noteq> Gone \<longrightarrow> sum_list (map todo ks) + 4 * budget (k_env s) \<le> count_list sched b"
      using Cons.prems(2) False by (force split: if_splits)
    ultimately show ?thesis using Cons.IH [OF Cons.prems(1)] by metis
  qed
qed

lemma now_ends: "\<exists>t s1. now N s = (Went t, s1) \<and> k_env s1 = snd (clock N (k_env s))"
  by (simp add: now_def split: prod.split)

lemma section7_ends:
  assumes "willing N base I budget B" and "I (k_env s)"
    and "\<forall>p < 6. 50 \<le> count_list ps p" and "\<forall>c < 6. 6 + 4 * B \<le> count_list cs c"
  shows "\<exists>s'. section7 N base ps cs s = (Went (), s')"
proof -
  note w = assms(1) [unfolded willing_def]
  have now: "\<exists>t s1. now N s = (Went t, s1) \<and> I (k_env s1)" if "I (k_env s)" for s
    using now_ends [of N s] w that by metis
  have "\<exists>s1. section_demo ''7. Concurrency: 6 workers draining 300 messages'' s = (Went (), s1) \<and> k_env s1 = k_env s"
    by (simp add: section_demo_def say_def printf_def put_line_def andThen_def give_def)
  then obtain s1 where 1: "section_demo ''7. Concurrency: 6 workers draining 300 messages'' s = (Went (), s1)" "I (k_env s1)"
    using assms(2) by metis
  obtain t s2 where 2: "now N s1 = (Went t, s2)" "I (k_env s2)" using now [OF 1(2)] by blast
  define q where "q = ''bulk-'' @ decimal (rem_go (UnixNano t) 100000)"
  obtain s3 where 3: "call_post N base ''/queues''
      [(''name'', JStr q), (''mode'', JStr ''fifo''), (''visibility_timeout_ms'', JInt 30000)] s2 = (Went (), s3)" "I (k_env s3)"
    using call_post_accepted 2(2) w by blast
  have m: "accepts N base I (\<lambda>_ _ _. True) (''/queues/'' @ q @ ''/messages'')" using w by blast
  obtain t4 s4 where 4: "now N s3 = (Went t4, s4)" "I (k_env s4)" using now [OF 3(2)] by blast
  obtain s5 where 5: "producers N base q ps (replicate 6 0) s4 = (Went (), s5)" "I (k_env s5)"
    using producers_end [of N base I q s4 "replicate 6 0" ps] m 4(2) assms(3) by auto
  obtain t6 s6 where 6: "now N s5 = (Went t6, s6)" "I (k_env s6)" using now [OF 5(2)] by blast
  obtain t7 s7 where 7: "now N s6 = (Went t7, s7)" "I (k_env s7)" using now [OF 6(2)] by blast
  have "budget (k_env s7) \<le> B" using w 7(2) by blast
  then obtain seen s8 where 8: "consumers N base q cs (replicate 6 Polling) [] s7 = (Went seen, s8)"
    using consumers_end [of N base I budget B s7 "replicate 6 Polling" cs q "[]"] assms(1,4) 7(2)
    by (fastforce simp: sum_list_replicate)
  obtain t9 s9 where 9: "now N (s8\<lparr>k_out := k_out s8 @ [Stdout ''   produced 300 in %v (every one fsynced before its 201)'' [ADuration (Round (t6 - t4) Millisecond)]]\<rparr>) = (Went t9, s9)"
    using now_ends by blast
  show ?thesis using 1(1) 2(1) 3(1) 4(1) 5(1) 6(1) 7(1) 8 9
    by (simp add: section7_def Let_def andThen_def printf_def put_line_def give_def q_def)
qed

section \<open>A small server for the witnesses\<close>

text \<open>It answers every request with one status and has \<open>e\<close> messages to hand out.\<close>

definition ex_web :: "nat \<Rightarrow> nat net" where
  "ex_web st = \<lparr>http_Get = (\<lambda>_ e. (Reply 200 [], e)),
     http_Post = (\<lambda>url _ _ e. if drop (length url - 8) url = ''/receive'' \<and> e > 0 then (Reply st [1], e - 1) else (Reply st [], e)),
     time_Sleep = (\<lambda>_ e. e), clock = (\<lambda>e. (unixToInternal * Second, e)), json_Marshal = (\<lambda>_. []),
     json_messages = (\<lambda>out. if out = [1] then [\<lparr>g_ID = ''a'', g_Body = ''job-0-0'', g_Priority = 0, g_Seq = 1, g_Attempts = 1, g_Receipt = ''r''\<rparr>] else []),
     json_stats = (\<lambda>_. \<lparr>g_Ready = 0, g_Delayed = 0, g_Inflight = 0, g_DLQ = 0\<rparr>), json_mark = (\<lambda>_. \<lparr>g_Epoch = 0, g_Offset = 0\<rparr>)\<rparr>"

definition ex_client :: "nat \<Rightarrow> nat client" where
  "ex_client n = \<lparr>k_env = n, k_out = [], k_calls = []\<rparr>"

lemma ex_web_willing: "willing (ex_web 200) base (\<lambda>e. e \<le> 1) id 1"
  by (simp add: willing_def accepts_def ex_web_def)

definition ex_turns :: "nat \<Rightarrow> nat list" where
  "ex_turns n = concat (replicate n [0, 1, 2, 3, 4, 5])"

lemma ex_turns_fair: "p < 6 \<Longrightarrow> count_list (ex_turns n) p = n"
proof -
  assume "p < 6"
  then consider "p = 0" | "p = 1" | "p = 2" | "p = 3" | "p = 4" | "p = 5" by linarith
  then have "count_list [0, 1, 2, 3, 4, 5] p = 1" by cases simp_all
  moreover have "count_list (concat (replicate n xs)) p = n * count_list xs p" for xs by (induction n) simp_all
  ultimately show ?thesis by (simp only: ex_turns_def)
qed

lemma waitForServer_answered:
  assumes "http_Get N (base @ ''/healthz'') (k_env s) = (Reply st out, e)"
  shows "waitForServer N base s = (None, record_call ''GET'' ''/healthz'' [] (Reply st out, e) s)"
proof -
  have "(40 :: nat) = Suc 39" by simp
  then show ?thesis unfolding waitForServer_def using assms by (simp only: tries.simps Let_def fst_conv answer.case)
qed

lemma ex_web_refuses:
  "\<exists>s' c. main_demo (ex_web 409) base ps cs (ex_client 0) = (Ended 1, s') \<and> k_calls s' = [probe (Reply 200 []), c] \<and> \<not> accepted c"
  by (simp add: main_demo_def waitForServer_answered [of _ _ _ 200 "[]" 0] ex_web_def ex_client_def tour_def section1_def section_demo_def
      say_def printf_def now_def Let_def give_def call_post_def post_def client_effects probe_def)

section \<open>Properties\<close>



text \<open>
  C23: the numbers the demo reports of its six producers and six consumers are those of the
  answers it got, for every interleaving of the workers and every server. When the section
  returns, each of the 300 distinct jobs has been posted once, every message received has been
  acknowledged once, and the last line counts as duplicates the bodies received more than once
  and as lost 300 less the number of distinct bodies, which is the number of jobs never
  received when only jobs were received. And the section does return, against a server that
  accepts the requests and hands out at most \<open>B\<close> messages, under every interleaving that gives
  each producer 50 turns and each consumer \<open>6 + 4 * B\<close>.
\<close>

theorem bulk_report_is_true:
  "(section7 N base ps cs s = (Went u, s') \<longrightarrow> (\<exists>t q calls. q = ''bulk-'' @ decimal (rem_go (UnixNano t) 100000) \<and> k_calls s' = k_calls s @ calls \<and>
    mset (sent (''/queues/'' @ q @ ''/messages'') calls) = image_mset (job_body N) (mset jobs) \<and>
    distinct (map (\<lambda>(p, i). job p i) jobs) \<and> length jobs = 300 \<and>
    mset (sent (''/queues/'' @ q @ ''/ack'') calls) = image_mset (receipt_body N) (mset (deliveries N q calls)) \<and>
    last (k_out s') = report (deliveries N q calls) \<and>
    (let bodies = set (map g_Body (deliveries N q calls)); posted = (\<lambda>(p, i). job p i) ` set jobs
     in bodies \<subseteq> posted \<longrightarrow> 300 - int (card bodies) = int (card (posted - bodies))))) \<and>
   (willing N base I budget B \<and> I (k_env s) \<and> (\<forall>p < 6. 50 \<le> count_list ps p) \<and> (\<forall>c < 6. 6 + 4 * B \<le> count_list cs c) \<longrightarrow>
      (\<exists>s'. section7 N base ps cs s = (Went (), s')))"
proof (intro conjI impI)
  assume r: "section7 N base ps cs s = (Went u, s')"
  obtain t q calls where b: "q = ''bulk-'' @ decimal (rem_go (UnixNano t) 100000)" "k_calls s' = k_calls s @ calls"
    "mset (sent (''/queues/'' @ q @ ''/messages'') calls) = image_mset (job_body N) (mset jobs)"
    "mset (sent (''/queues/'' @ q @ ''/ack'') calls) = image_mset (receipt_body N) (mset (deliveries N q calls))"
    "last (k_out s') = report (deliveries N q calls)"
    using section7_books [OF r] by (elim exE conjE) (rule that, assumption+)
  then show "\<exists>t q calls. q = ''bulk-'' @ decimal (rem_go (UnixNano t) 100000) \<and> k_calls s' = k_calls s @ calls \<and>
    mset (sent (''/queues/'' @ q @ ''/messages'') calls) = image_mset (job_body N) (mset jobs) \<and>
    distinct (map (\<lambda>(p, i). job p i) jobs) \<and> length jobs = 300 \<and>
    mset (sent (''/queues/'' @ q @ ''/ack'') calls) = image_mset (receipt_body N) (mset (deliveries N q calls)) \<and>
    last (k_out s') = report (deliveries N q calls) \<and>
    (let bodies = set (map g_Body (deliveries N q calls)); posted = (\<lambda>(p, i). job p i) ` set jobs
     in bodies \<subseteq> posted \<longrightarrow> 300 - int (card bodies) = int (card (posted - bodies)))" unfolding Let_def
    by (intro exI [of _ t] exI [of _ q] exI [of _ calls] conjI jobs_distinct(2,3) impI lost_jobs)
qed (elim conjE, rule section7_ends)

theorem bulk_report_is_true_witness:
  "\<exists>s' q calls. section7 (ex_web 200) default_addr (ex_turns 50) (ex_turns 10) (ex_client 1) = (Went (), s') \<and>
     k_calls s' = k_calls (ex_client 1) @ calls \<and> last (k_out s') = report (deliveries (ex_web 200) q calls)"
proof -
  note b = bulk_report_is_true [of "ex_web 200" default_addr "ex_turns 50" "ex_turns 10" "ex_client 1" "()" _ "\<lambda>e. e \<le> 1" id 1]
  have "\<exists>s'. section7 (ex_web 200) default_addr (ex_turns 50) (ex_turns 10) (ex_client 1) = (Went (), s')"
    by (rule b [THEN conjunct2, rule_format]) (use ex_web_willing in \<open>simp add: ex_client_def ex_turns_fair\<close>)
  then obtain s' where m: "section7 (ex_web 200) default_addr (ex_turns 50) (ex_turns 10) (ex_client 1) = (Went (), s')" by blast
  from b [THEN conjunct1, rule_format, OF m] m show ?thesis by blast
qed

end
