(* ===== verification/FQ_Wire.thy ===== *)
theory FQ_Wire
  imports FQ_Demo FQ_Api_Props
begin

text \<open>
  The demo client joined to the server it talks to. The contract a client relies on is the locale
  \<open>wired\<close>: between its calls the program only takes steps of its own, and an accepted request has
  been served by the handler of its route. The server of \<^verbatim>\<open>src/api.go\<close>, answering one request
  after another, is an instance; for it the demo is shown to be a client of the program, so that
  what holds of the program holds throughout the tour.
\<close>

section \<open>Paths\<close>

primrec split_slash :: "string \<Rightarrow> string list" where
  "split_slash [] = [[]]"
| "split_slash (c # cs) =
     (if c = CHR ''/'' then [] # split_slash cs
      else (case split_slash cs of [] \<Rightarrow> [[c]] | x # xs \<Rightarrow> (c # x) # xs))"

definition segments :: "string \<Rightarrow> string list" where
  "segments path = tl (split_slash path)"

lemma split_slash_segment:
  "CHR ''/'' \<notin> set q \<Longrightarrow> split_slash (q @ CHR ''/'' # r) = q # split_slash r"
  by (induction q) auto

lemma segments_verb:
  "CHR ''/'' \<notin> set q \<Longrightarrow> segments (''/queues/'' @ q @ ''/messages'') = [''queues'', q, ''messages'']"
  "CHR ''/'' \<notin> set q \<Longrightarrow> segments (''/queues/'' @ q @ ''/ack'') = [''queues'', q, ''ack'']"
  using split_slash_segment [of q "''messages''"] split_slash_segment [of q "''ack''"] by (simp_all add: segments_def)

section \<open>The contract\<close>

definition runs :: "decoders \<Rightarrow> manager \<times> world \<Rightarrow> manager \<times> world \<Rightarrow> bool" where
  "runs d e e' \<longleftrightarrow> (pstep d)\<^sup>*\<^sup>* (Listening, e) (Listening, e')"

lemma runs_refl [simp, intro]: "runs d e e"
  by (simp add: runs_def)

lemma runs_trans: "runs d e e1 \<Longrightarrow> runs d e1 e2 \<Longrightarrow> runs d e e2"
  by (simp add: runs_def)

lemma runs_preach:
  assumes "runs d e e'" and "preach fl d (Listening, e)"
  shows "preach fl d (Listening, e')"
proof -
  have "preach fl d s'" if "(pstep d)\<^sup>*\<^sup>* s s'" "preach fl d s" for s s'
    using that by (induction rule: rtranclp_induct) (auto intro: preach.step)
  then show ?thesis using assms unfolding runs_def by blast
qed

definition answered_by :: "decoders \<Rightarrow> endpoint \<Rightarrow> byte list \<Rightarrow> manager \<times> world \<Rightarrow> response \<Rightarrow> manager \<times> world \<Rightarrow> bool" where
  "answered_by d ep b e resp e' \<longleftrightarrow>
     (\<exists>c. c_sch c = [] \<and> c_meanwhile c = id \<and> withLogging (handle d c ep b (fst e)) (snd e) = Returned (fst e', snd e', Answered resp))"

text \<open>A piece of the client that takes the program only where the program goes by itself.\<close>

definition on_track :: "decoders \<Rightarrow> (manager \<times> world, 'a) act \<Rightarrow> bool" where
  "on_track d p \<longleftrightarrow> (\<forall>s. runs d (k_env s) (k_env (snd (p s))))"

lemma accepted_post:
  assumes "andThen (post N base path body) (\<lambda>_. give ()) s = (Went u, s')"
  obtains st out where "http_Post N (base @ path) ''application/json'' (json_Marshal N body) (k_env s) = (Reply st out, k_env s')" "st < 400"
proof (cases "http_Post N (base @ path) ''application/json'' (json_Marshal N body) (k_env s)")
  case (Pair a e)
  then show ?thesis using assms that
    by (auto simp: andThen_def post_def record_call_def give_def eprintf_def put_line_def os_Exit_def Let_def split: answer.splits if_splits)
qed

lemma enqueue_accepted: "enqueue m W q b = (m', W', st, co) \<Longrightarrow> st < 400 \<Longrightarrow> st = StatusCreated"
  by (auto simp: enqueue_def decode_def fail_def respond_def StatusNotFound_def StatusBadRequest_def StatusInternalServerError_def
      split: sum.splits body.splits if_splits prod.splits)

locale wired =
  fixes d :: decoders and pr :: "content \<Rightarrow> byte list" and base :: string and N :: "(manager \<times> world) net"
  assumes clock_runs: "runs d e (snd (clock N e))"
    and sleep_runs: "runs d e (time_Sleep N t e)"
    and get_runs: "runs d e (snd (http_Get N url e))"
    and post_runs: "runs d e (snd (http_Post N url ct b e))"
    and post_served: "http_Post N (base @ path) ct b e = (Reply st out, e') \<Longrightarrow> routes ''POST'' (segments path) = Some ep \<Longrightarrow>
      (\<And>q. ep \<noteq> EReceive q) \<Longrightarrow>
      \<exists>e1 e2 co. runs d e e1 \<and> answered_by d ep b e1 (st, co) e2 \<and> out = pr co \<and> runs d e2 e'"
begin

lemma on_track_give: "on_track d (give x)"
  by (simp add: on_track_def give_def)

lemma on_track_andThen:
  assumes "on_track d p" and "\<And>x. on_track d (f x)"
  shows "on_track d (andThen p f)"
  unfolding on_track_def
proof
  fix s
  obtain r s1 where p: "p s = (r, s1)" by fastforce
  then have "runs d (k_env s) (k_env s1)" using assms(1) by (metis on_track_def snd_conv)
  then show "runs d (k_env s) (k_env (snd (andThen p f s)))"
    using assms(2) p by (cases r) (auto simp: andThen_def on_track_def intro: runs_trans)
qed

lemma on_track_block: "(\<And>p. p \<in> set ps \<Longrightarrow> on_track d p) \<Longrightarrow> on_track d (block ps)"
  by (induction ps) (auto intro!: on_track_give on_track_andThen)

lemma on_track_quiet:
  "on_track d (put_line l)" "on_track d (first xs)" "on_track d (os_Exit n)"
  "on_track d (\<lambda>s. if b then (Went x, s) else (Running, s))"
  by (simp_all add: on_track_def put_line_def first_def os_Exit_def split: list.split)

lemma on_track_time: "on_track d (sleep N t)" "on_track d (now N)"
proof -
  show "on_track d (sleep N t)" using sleep_runs by (simp add: on_track_def sleep_def)
  show "on_track d (now N)" unfolding on_track_def
  proof
    fix s
    show "runs d (k_env s) (k_env (snd (now N s)))"
      using clock_runs [of "k_env s"] by (cases "clock N (k_env s)") (simp add: now_def)
  qed
qed

lemma on_track_print: "on_track d (say t)" "on_track d (printf f xs)" "on_track d (eprintf f xs)"
  by (simp_all add: say_def printf_def eprintf_def on_track_quiet)

lemma on_track_post: "on_track d (post N base path body)"
  using post_runs
  by (auto simp: on_track_def post_def record_call_def andThen_def eprintf_def put_line_def os_Exit_def Let_def split: answer.split)

lemma on_track_getInto: "on_track d (getInto N base path dec)"
  using get_runs
  by (auto simp: on_track_def getInto_def record_call_def andThen_def eprintf_def put_line_def os_Exit_def Let_def split: answer.split)

lemmas on_track_intros = on_track_give on_track_andThen on_track_block on_track_quiet on_track_time on_track_print on_track_post on_track_getInto

lemma on_track_calls:
  "on_track d (call_post N base path body)" "on_track d (enqueue_demo N base q b p t)" "on_track d (receive_demo N base q n v w)"
  "on_track d (ack_demo N base q r)" "on_track d (nack_demo N base q r t)" "on_track d (extend_demo N base q r v)" "on_track d (stats_demo N base q)"
  by (simp_all add: call_post_def enqueue_demo_def receive_demo_def ack_demo_def nack_demo_def extend_demo_def stats_demo_def on_track_intros)

lemma on_track_show: "on_track d (show_demo msgs)" "on_track d (section_demo t)" "on_track d (consume N base q n)"
  by (auto simp: show_demo_def section_demo_def show_line_def consume_def intro!: on_track_intros on_track_calls split: prod.split)

lemma on_track_poison: "on_track d (poison N base q n)"
  by (induction n) (auto intro!: on_track_intros on_track_calls split: list.split)

lemma on_track_sections:
  "on_track d (section1 N base q)" "on_track d (section2 N base q)" "on_track d (section3 N base q)"
  "on_track d (section4 N base q)" "on_track d (section5 N base q)" "on_track d (section6 N base q)"
  by (auto simp: section1_def section2_def section3_def section4_def section5_def section6_def heartbeat_def
      intro!: on_track_intros on_track_calls on_track_show on_track_poison split: list.split)

lemma on_track_workers: "on_track d (producers N base q sched ds)" "on_track d (consumers N base q sched ks seen)"
proof -
  show "on_track d (producers N base q sched ds)"
    by (induction sched arbitrary: ds) (auto intro!: on_track_intros on_track_calls simp del: if_split)
  have "on_track d (consumer_step N base q k seen)" for k seen
    by (auto simp: consumer_step_def intro!: on_track_intros on_track_calls split: worker.split list.split)
  then show "on_track d (consumers N base q sched ks seen)"
    by (induction sched arbitrary: ks seen) (auto intro!: on_track_intros)
qed

lemma on_track_section7: "on_track d (section7 N base ps cs)"
  by (auto simp: section7_def Let_def intro!: on_track_intros on_track_calls on_track_show on_track_workers)

lemma tries_runs: "runs d (k_env s) (k_env (snd (tries N base n prev s)))"
proof (induction n arbitrary: prev s)
  case (Suc n)
  let ?r = "http_Get N (base @ ''/healthz'') (k_env s)"
  have g: "runs d (k_env s) (snd ?r)" by (rule get_runs)
  show ?case
  proof (cases "fst ?r")
    case (NetErr err)
    let ?s = "snd (sleep N (100 * Millisecond) (record_call ''GET'' ''/healthz'' [] ?r s))"
    have "runs d (snd ?r) (k_env ?s)" using sleep_runs by (simp add: sleep_def record_call_def)
    then have "runs d (k_env s) (k_env ?s)" by (rule runs_trans [OF g])
    then have "runs d (k_env s) (k_env (snd (tries N base n (Some err) ?s)))" using Suc.IH by (rule runs_trans)
    then show ?thesis using NetErr by (simp add: Let_def)
  qed (use g in \<open>simp add: Let_def record_call_def\<close>)
qed simp

lemma main_runs: "runs d (k_env s) (k_env (snd (main_demo N base ps cs s)))"
proof -
  obtain err s1 where w: "waitForServer N base s = (err, s1)" by fastforce
  have r: "runs d (k_env s) (k_env s1)" using tries_runs [of s 40 None] w by (simp add: waitForServer_def)
  have "on_track d (tour N base ps cs)"
    by (auto simp: tour_def Let_def intro!: on_track_intros on_track_show on_track_sections on_track_section7)
  moreover have "on_track d (block [eprintf f xs, eprintf g ys, os_Exit 1])" for f xs g ys
    by (auto intro!: on_track_intros)
  ultimately show ?thesis using r w runs_trans
    by (cases err) (auto simp: main_demo_def on_track_def simp del: block.simps)
qed

lemma enqueue_logged:
  assumes r: "preach fl d (Listening, k_env s)"
    and q: "CHR ''/'' \<notin> set q" "q \<noteq> ''''"
    and j: "d_enqueue d (json_Marshal N [(''body'', JStr b), (''priority'', JInt p), (''delay_ms'', JInt t)]) = Decoded \<lparr>e_Body = b, e_Priority = p, e_DelayMS = t\<rparr>"
    and e: "enqueue_demo N base q b p t s = (Went u, s')"
  shows "\<exists>m1 W1 m2 W2 q1 q2 x. runs d (k_env s) (m1, W1) \<and> runs d (m2, W2) (k_env s') \<and>
    Get m1 q = Inr q1 \<and> Get m2 q = Inr q2 \<and> Body x = b \<and> Priority x = p \<and>
    history (m_wal m2) W2 = history (m_wal m1) W1 @ [norm (enq_rec q x)] \<and> allm (abs q2) = add_mset (strip x) (allm (abs q1))"
proof -
  let ?path = "''/queues/'' @ q @ ''/messages''"
  let ?buf = "json_Marshal N [(''body'', JStr b), (''priority'', JInt p), (''delay_ms'', JInt t)]"
  obtain st out where h: "http_Post N (base @ ?path) ''application/json'' ?buf (k_env s) = (Reply st out, k_env s')" "st < 400"
    using e unfolding enqueue_demo_def call_post_def by (rule accepted_post)
  have "routes ''POST'' (segments ?path) = Some (EEnqueue q)" using q segments_verb(1) [of q] by (simp add: routes_def)
  from post_served [OF h(1) this] obtain e1 e2 co
    where a: "runs d (k_env s) e1" "answered_by d (EEnqueue q) ?buf e1 (st, co) e2" "runs d e2 (k_env s')" by auto
  obtain m1 W1 m2 W2 where m: "e1 = (m1, W1)" "e2 = (m2, W2)" by fastforce
  obtain W3 W4 where w: "W3 = snd (time_Now W1)" "W2 = snd (time_Now W4)"
    "enqueue m1 W3 q (Decoded \<lparr>e_Body = b, e_Priority = p, e_DelayMS = t\<rparr>) = (m2, W4, st, co)"
    using a(2) m j by (auto simp: answered_by_def handle_def answered_def withLogging_def time_Now_def split: prod.splits outcome.splits)
  have "preach fl d (Listening, m1, W1)" using runs_preach [OF a(1) r] m by simp
  then have p3: "preach fl d (Listening, m1, W3)" using preach.step pstep.parked [of Listening d m1 W1] w(1) by (simp add: serving_def)
  have "st = StatusCreated" using w(3) h(2) by (rule enqueue_accepted)
  then obtain q1 q2 x where "Get m1 q = Inr q1" "Get m2 q = Inr q2" "Body x = b" "Priority x = p"
      "history (m_wal m2) W4 = history (m_wal m1) W3 @ [norm (enq_rec q x)]" "allm (abs q2) = add_mset (strip x) (allm (abs q1))"
    using enqueue_created [OF p3 _ w(3)] by (auto simp: serving_def decode_def)
  moreover have "history w (snd (time_Now W)) = history w W" for w W by (simp add: time_Now_def history_def logbytes_def)
  ultimately show ?thesis using a m w by metis
qed

end

section \<open>The server as the other side\<close>

definition calmly :: circumstances where
  "calmly = \<lparr>c_sch = [], c_meanwhile = id, c_hung_up = False\<rparr>"

text \<open>
  One request and its answer. The router answers 404 for what it has no route for. A poll that
  finds nothing and may still wait has no answer yet, which the client sees as a connection
  that does not answer.
\<close>

definition exchange :: "decoders \<Rightarrow> (content \<Rightarrow> byte list) \<Rightarrow> string \<Rightarrow> string \<Rightarrow> byte list \<Rightarrow> manager \<times> world \<Rightarrow> answer \<times> manager \<times> world" where
  "exchange d pr meth path b e =
     (case withLogging (ServeHTTP d calmly \<lparr>q_method = meth, q_path = segments path, q_body = b\<rparr> (fst e)) (snd e) of
        Returned (m, W, Answered (st, co)) \<Rightarrow> (Reply st (pr co), m, W)
      | Returned (m, W, HungUp) \<Rightarrow> (NetErr ''EOF'', m, W)
      | Returned (m, W, NoRoute) \<Rightarrow> (Reply StatusNotFound [], m, W)
      | Panic \<Rightarrow> (NetErr ''EOF'', e)
      | Waiting \<Rightarrow> (NetErr ''timeout'', e))"

definition server_net :: "decoders \<Rightarrow> (content \<Rightarrow> byte list) \<Rightarrow> string \<Rightarrow> (manager \<times> world) net \<Rightarrow> (manager \<times> world) net" where
  "server_net d pr base J = J\<lparr>
     http_Get := (\<lambda>url. exchange d pr ''GET'' (drop (length base) url) []),
     http_Post := (\<lambda>url ct b. exchange d pr ''POST'' (drop (length base) url) b),
     time_Sleep := (\<lambda>_ e. e),
     clock := (\<lambda>e. case time_Now (snd e) of (t, W) \<Rightarrow> (t, fst e, W))\<rparr>"

lemma logged_answer: "withLogging (handle d c ep b m) W \<noteq> Returned (m', W', NoRoute)"
proof -
  have "handle d c ep b m W \<noteq> Returned (m', W', NoRoute)" for W W'
    by (cases ep) (auto simp: handle_def split: outcome.splits option.splits)
  then show ?thesis by (auto simp: withLogging_def split: prod.splits outcome.splits)
qed

lemma exchange_runs: "runs d e (snd (exchange d pr meth path b e))"
proof (cases "withLogging (ServeHTTP d calmly \<lparr>q_method = meth, q_path = segments path, q_body = b\<rparr> (fst e)) (snd e)")
  case (Returned x)
  obtain m W rep where x: "x = (m, W, rep)" by (metis prod_cases3)
  have "pstep d (Listening, fst e, snd e) (Listening, m, W)"
    by (rule pstep.served [of _ calmly, OF _ _ _ Returned [unfolded x]]) (simp_all add: serving_def calmly_def)
  then show ?thesis using Returned x by (cases rep) (auto simp: exchange_def runs_def split: prod.split)
qed (simp_all add: exchange_def)

lemma exchange_served:
  assumes "exchange d pr ''POST'' path b e = (Reply st out, e')" and "routes ''POST'' (segments path) = Some ep"
  shows "\<exists>co. answered_by d ep b e (st, co) e' \<and> out = pr co"
proof -
  have "ServeHTTP d calmly \<lparr>q_method = ''POST'', q_path = segments path, q_body = b\<rparr> (fst e) = handle d calmly ep b (fst e)"
    using assms(2) by (auto simp: ServeHTTP_def fun_eq_iff)
  then obtain co where "withLogging (handle d calmly ep b (fst e)) (snd e) = Returned (fst e', snd e', Answered (st, co))" "out = pr co"
    using assms(1) logged_answer [of d calmly ep b "fst e" "snd e"]
    by (auto simp: exchange_def split: outcome.splits reply.splits prod.splits)
  then show ?thesis unfolding answered_by_def by (intro exI [of _ co] exI [of _ calmly] conjI) (simp_all add: calmly_def)
qed

interpretation server: wired d pr base "server_net d pr base J" for d pr base J
proof
  show "runs d e (snd (clock (server_net d pr base J) e))" for e
    using pstep.parked [of Listening d "fst e" "snd e"] by (cases "time_Now (snd e)") (auto simp: server_net_def runs_def serving_def)
  fix path ct b e st out e' ep
  assume "http_Post (server_net d pr base J) (base @ path) ct b e = (Reply st out, e')" and r: "routes ''POST'' (segments path) = Some ep"
  then have "exchange d pr ''POST'' path b e = (Reply st out, e')" by (simp add: server_net_def)
  from exchange_served [OF this r] show "\<exists>e1 e2 co. runs d e e1 \<and> answered_by d ep b e1 (st, co) e2 \<and> out = pr co \<and> runs d e2 e'"
    by blast
qed (simp_all add: server_net_def exchange_runs)

section \<open>Properties\<close>

text \<open>A JSON side for the witnesses: nothing is encoded, and \<open>ex_dec\<close> reads the session's requests out of it.\<close>

definition ex_json :: "(manager \<times> world) net" where
  "ex_json = \<lparr>http_Get = (\<lambda>_ e. (NetErr '''', e)), http_Post = (\<lambda>_ _ _ e. (NetErr '''', e)), time_Sleep = (\<lambda>_ e. e), clock = (\<lambda>e. (0, e)),
     json_Marshal = (\<lambda>_. []), json_messages = (\<lambda>_. []), json_stats = (\<lambda>_. \<lparr>g_Ready = 0, g_Delayed = 0, g_Inflight = 0, g_DLQ = 0\<rparr>),
     json_mark = (\<lambda>_. \<lparr>g_Epoch = 0, g_Offset = 0\<rparr>)\<rparr>"

definition ex_caller :: "manager \<times> world \<Rightarrow> (manager \<times> world) client" where
  "ex_caller e = \<lparr>k_env = e, k_out = [], k_calls = []\<rparr>"



text \<open>
  C35: when the demo's enqueue returns, the message is safe. Against the server, with a request
  body that decodes to what was encoded, an enqueue the demo gets past has been served by the
  handler: exactly the record of a message with this body and priority has been appended to
  the log, and the queue holds that message and what it held before.
\<close>

theorem demo_enqueue_is_logged:
  assumes "preach fl d (Listening, k_env s)"
    and "CHR ''/'' \<notin> set q" and "q \<noteq> ''''"
    and "d_enqueue d (json_Marshal J [(''body'', JStr b), (''priority'', JInt p), (''delay_ms'', JInt t)]) = Decoded \<lparr>e_Body = b, e_Priority = p, e_DelayMS = t\<rparr>"
    and "enqueue_demo (server_net d pr base J) base q b p t s = (Went u, s')"
  shows "\<exists>m1 W1 m2 W2 q1 q2 x. runs d (k_env s) (m1, W1) \<and> runs d (m2, W2) (k_env s') \<and>
    Get m1 q = Inr q1 \<and> Get m2 q = Inr q2 \<and> Body x = b \<and> Priority x = p \<and>
    history (m_wal m2) W2 = history (m_wal m1) W1 @ [norm (enq_rec q x)] \<and> allm (abs q2) = add_mset (strip x) (allm (abs q1))"
proof -
  have "json_Marshal (server_net d pr base J) = json_Marshal J" by (simp add: server_net_def)
  then show ?thesis using server.enqueue_logged [OF assms(1-3) _ assms(5)] assms(4) by simp
qed

theorem demo_enqueue_is_logged_witness:
  "\<exists>s' (m1 :: manager) (W1 :: world) m2 W2 x. enqueue_demo (server_net ex_dec (\<lambda>_. []) default_addr ex_json) default_addr ''jobs'' ''work'' 0 0
       (ex_caller (ex_manager [(''jobs'', New ex_cfg)] (frame [1]), ex_at ex_codec 5 0 5 (frame [1]) (frame [1]))) = (Went (), s') \<and>
     runs ex_dec (m2, W2) (k_env s') \<and> Body x = ''work'' \<and> history (m_wal m2) W2 = history (m_wal m1) W1 @ [norm (enq_rec ''jobs'' x)]"
proof -
  let ?N = "server_net ex_dec (\<lambda>_. []) default_addr ex_json"
  let ?e = "(ex_manager [(''jobs'', New ex_cfg)] (frame [1]), ex_at ex_codec 5 0 5 (frame [1]) (frame [1]))"
  have c: "calmly = ex_calmly" by (simp add: calmly_def ex_calmly_def)
  have "segments ''/queues/jobs/messages'' = [''queues'', ''jobs'', ''messages'']" by (simp add: segments_def)
  then have "exchange ex_dec (\<lambda>_. []) ''POST'' ''/queues/jobs/messages'' [] ?e =
      (Reply StatusCreated [], ex_manager [(''jobs'', ex_q1)] (frame [1] @ frame [2]), ex_at ex_codec 9 1 7 (frame [1] @ frame [2]) (frame [1] @ frame [2]))"
    using ex_enqueue_request by (simp add: exchange_def c ex_post_def respond_def)
  then obtain s' where e: "enqueue_demo ?N default_addr ''jobs'' ''work'' 0 0 (ex_caller ?e) = (Went (), s')"
    by (auto simp: enqueue_demo_def call_post_def andThen_def post_def record_call_def give_def Let_def ex_caller_def server_net_def ex_json_def StatusCreated_def)
  have p: "preach default_flags ex_dec (Listening, k_env (ex_caller ?e))" using ex_created by (simp add: ex_caller_def)
  have j: "CHR ''/'' \<notin> set ''jobs''" "''jobs'' \<noteq> ''''" by simp_all
  have "d_enqueue ex_dec b = Decoded \<lparr>e_Body = ''work'', e_Priority = 0, e_DelayMS = 0\<rparr>" for b by (simp add: ex_dec_def)
  from demo_enqueue_is_logged [OF p j this e] obtain m1 :: manager and W1 :: world and m2 W2 x
    where "runs ex_dec (m2, W2) (k_env s')" "Body x = ''work''" "history (m_wal m2) W2 = history (m_wal m1) W1 @ [norm (enq_rec ''jobs'' x)]"
    by (elim exE conjE) (rule that)
  with e show ?thesis by (intro exI conjI)
qed

end
